theory Spec2Isabelle
  imports Main "HOL-Library.Word" "HOL-Library.Signed_Division"
begin

unbundle bit_operations_syntax

section \<open>Common data: faults, pixels, frames, raw memory\<close>

text \<open>
  The C library works on three kinds of data: packed RGB frames (\<open>utils.h\<close>), the
  per-pixel cell sets of the multimodal mean background model (\<open>mmm.h\<close>) and the blobs of
  the density scanner (\<open>rollers.h\<close>). The C type \<open>int\<close> is modelled by \<open>int\<close>:
  the model describes the executions in which no signed overflow occurs (signed overflow
  is undefined in C). Everything else that C leaves undefined or that ends the process is a
  value of \<open>fault\<close>.
\<close>

datatype fault =
    OutOfBounds   \<comment> \<open>array index outside the caller's buffer\<close>
  | DivByZero     \<comment> \<open>integer division by a zero count\<close>
  | NullDeref     \<comment> \<open>field access through a NULL pointer\<close>
  | AllocFail     \<comment> \<open>\<open>malloc\<close> returned NULL: the library prints and calls \<open>exit (1)\<close>\<close>
  | BadShift      \<comment> \<open>shift count outside the width of \<open>int\<close>\<close>
  | Diverges      \<comment> \<open>a recursion that never returns\<close>

record Pixel =
  R :: "8 word"
  G :: "8 word"
  B :: "8 word"

text \<open>
  A frame buffer: \<open>Frm\<close> is the packed byte array, read three bytes at a time as the
  library itself does through \<open>(Pixel *) &(FB->Frm[I * 3])\<close>.
\<close>

record FrmBuf =
  Frm :: "Pixel list"
  Height :: int
  Width :: int

text \<open>
  \<open>malloc\<close> of a block of \<open>n\<close> objects: the memory still obtainable from the system is a
  finite list of raw objects (their contents are whatever the list holds), and the call
  fails when fewer than \<open>n\<close> are left.
\<close>

definition malloc :: "nat \<Rightarrow> 'a list \<Rightarrow> ('a list \<times> 'a list) option" where
  "malloc n mem = (if n \<le> length mem then Some (take n mem, drop n mem) else None)"

text \<open>A blob object of \<open>rollers.h\<close>; \<open>FP\<close> is the forwarding pointer.\<close>

record Blob =
  ID :: int
  Xsum :: int
  Ysum :: int
  Xmin :: int
  Ymin :: int
  Xmax :: int
  Ymax :: int
  Count :: int
  Xreg :: int
  Yreg :: int
  Expire :: int
  FP :: "nat option"

section \<open>Multimodal mean background model\<close>

record Cell =
  R :: int
  G :: int
  B :: int
  Count :: int

text \<open>
  A set is the singly linked list hanging off one BGM slot, in list order; the \<open>Next\<close>
  field is the list structure. The free list \<open>FreeCells\<close> is a list of cells as well, and
  \<open>CellMem\<close> is the memory \<open>malloc\<close> can still hand out.
\<close>

record Cell_Pool =
  FreeCells :: "Cell list"
  CellMem :: "Cell list"

definition FREECELLSBLOCKSIZE :: nat where
  "FREECELLSBLOCKSIZE = 100"

definition Allocate_Cell :: "Cell_Pool \<Rightarrow> fault + (Cell \<times> Cell_Pool)" where
  "Allocate_Cell pool =
     (case (if FreeCells pool = [] then malloc FREECELLSBLOCKSIZE (CellMem pool)
            else Some (FreeCells pool, CellMem pool)) of
        None \<Rightarrow> Inl AllocFail
      | Some (free, mem) \<Rightarrow>
          (case free of
             [] \<Rightarrow> Inl NullDeref
           | NewCell # rest \<Rightarrow> Inr (NewCell, \<lparr>FreeCells = rest, CellMem = mem\<rparr>)))"

fun Last_Cell :: "Cell list \<Rightarrow> fault + nat" where
  "Last_Cell [] = Inl NullDeref"
| "Last_Cell [ThisCell] = Inr 0"
| "Last_Cell (ThisCell # rest) = map_sum id Suc (Last_Cell rest)"

fun Length :: "Cell list \<Rightarrow> int" where
  "Length [] = 0"
| "Length (ThisCell # rest) = Length rest + 1"

definition Free_Cell :: "Cell \<Rightarrow> Cell_Pool \<Rightarrow> Cell_Pool" where
  "Free_Cell ThisCell pool = pool\<lparr>FreeCells := ThisCell # FreeCells pool\<rparr>"

text \<open>
  The test of \<open>Ratio_Match_Pixel\<close> on one cell. C's \<open>/\<close> truncates toward zero
  (\<open>sdiv\<close>); the caller has excluded a zero count.
\<close>

definition Ratio_Near :: "Pixel \<Rightarrow> Cell \<Rightarrow> int \<Rightarrow> bool" where
  "Ratio_Near P ThisCell Epsilon \<longleftrightarrow>
     \<bar>uint (Pixel.R P) - Cell.R ThisCell sdiv Count ThisCell\<bar> \<le> Epsilon \<and>
     \<bar>uint (Pixel.G P) - Cell.G ThisCell sdiv Count ThisCell\<bar> \<le> Epsilon \<and>
     \<bar>uint (Pixel.B P) - Cell.B ThisCell sdiv Count ThisCell\<bar> \<le> Epsilon"

definition Assimilate :: "Pixel \<Rightarrow> Cell \<Rightarrow> Cell" where
  "Assimilate P ThisCell =
     ThisCell\<lparr>Cell.R := Cell.R ThisCell + uint (Pixel.R P),
              Cell.G := Cell.G ThisCell + uint (Pixel.G P),
              Cell.B := Cell.B ThisCell + uint (Pixel.B P),
              Count := Count ThisCell + 1\<rparr>"

text \<open>
  \<open>Ratio_Match_Pixel\<close> returns the pointer to the matched cell or NULL; here the position
  of that cell in the set, together with the set after the update in place.
\<close>

fun Ratio_Match_Pixel :: "Pixel \<Rightarrow> Cell list \<Rightarrow> int \<Rightarrow> fault + (nat option \<times> Cell list)" where
  "Ratio_Match_Pixel P [] Epsilon = Inr (None, [])"
| "Ratio_Match_Pixel P (ThisCell # rest) Epsilon =
     (if Count ThisCell = 0 then Inl DivByZero
      else if Ratio_Near P ThisCell Epsilon then Inr (Some 0, Assimilate P ThisCell # rest)
      else (case Ratio_Match_Pixel P rest Epsilon of
              Inl e \<Rightarrow> Inl e
            | Inr (Result, rest') \<Rightarrow> Inr (map_option Suc Result, ThisCell # rest')))"

definition Seed_Cell :: "Pixel \<Rightarrow> Cell" where
  "Seed_Cell P = \<lparr>Cell.R = uint (Pixel.R P), Cell.G = uint (Pixel.G P),
                  Cell.B = uint (Pixel.B P), Count = 1\<rparr>"

text \<open>
  \<open>Add_Cell\<close> returns the pointer to the cell that now holds the pixel (its position in the
  set), the set and the pool.
\<close>

definition Add_Cell ::
  "Pixel \<Rightarrow> Cell list \<Rightarrow> int \<Rightarrow> Cell_Pool \<Rightarrow> fault + (nat \<times> Cell list \<times> Cell_Pool)" where
  "Add_Cell P Set Cth pool =
     (case Last_Cell Set of
        Inl e \<Rightarrow> Inl e
      | Inr LastCell \<Rightarrow>
          if Count (Set ! LastCell) \<ge> Cth then
            (case Allocate_Cell pool of
               Inl e \<Rightarrow> Inl e
             | Inr (NewCell, pool') \<Rightarrow>
                 Inr (Suc LastCell,
                      Set @ [NewCell\<lparr>Cell.R := uint (Pixel.R P), Cell.G := uint (Pixel.G P),
                                      Cell.B := uint (Pixel.B P), Count := 1\<rparr>],
                      pool'))
          else
            Inr (LastCell,
                 Set[LastCell := (Set ! LastCell)\<lparr>Cell.R := uint (Pixel.R P),
                        Cell.G := uint (Pixel.G P), Cell.B := uint (Pixel.B P), Count := 1\<rparr>],
                 pool))"

text \<open>
  \<open>Decimate_BGM\<close>, the inner \<open>while\<close> loop over one set. \<open>AtHead\<close> is the test
  \<open>ThisCell == BGM[I]\<close>: the slot points at the current cell exactly while every cell before
  it has been spliced out. \<open>>>= 1\<close> on an \<open>int\<close> is the arithmetic shift, \<open>drop_bit 1\<close>.
\<close>

definition Halve :: "Cell \<Rightarrow> Cell" where
  "Halve ThisCell =
     ThisCell\<lparr>Cell.R := drop_bit 1 (Cell.R ThisCell), Cell.G := drop_bit 1 (Cell.G ThisCell),
              Cell.B := drop_bit 1 (Cell.B ThisCell), Count := drop_bit 1 (Count ThisCell)\<rparr>"

fun Decimate_Set ::
  "int \<Rightarrow> bool \<Rightarrow> Cell list \<Rightarrow> Cell_Pool \<Rightarrow> int \<Rightarrow> Cell list \<times> Cell_Pool \<times> int" where
  "Decimate_Set Cth AtHead [] pool Freed = ([], pool, Freed)"
| "Decimate_Set Cth AtHead (ThisCell # Next) pool Freed =
     (let C = (if Count ThisCell \<ge> Cth then Halve ThisCell else ThisCell) in
      if Count C < Cth \<and> (Next \<noteq> [] \<or> \<not> AtHead)
      then Decimate_Set Cth AtHead Next (Free_Cell C pool) (Freed + 1)
      else (case Decimate_Set Cth False Next pool Freed of
              (Kept, pool', Freed') \<Rightarrow> (C # Kept, pool', Freed')))"

function Decimate_BGM_loop ::
  "Cell list list \<Rightarrow> int \<Rightarrow> int \<Rightarrow> nat \<Rightarrow> Cell_Pool \<Rightarrow> int
     \<Rightarrow> fault + (Cell list list \<times> Cell_Pool \<times> int)" where
  "Decimate_BGM_loop BGM Cth NumSets I pool Freed =
     (if int I < NumSets then
        (if I < length BGM then
           (case Decimate_Set Cth True (BGM ! I) pool Freed of
              (Kept, pool', Freed') \<Rightarrow>
                Decimate_BGM_loop (BGM[I := Kept]) Cth NumSets (Suc I) pool' Freed')
         else Inl OutOfBounds)
      else Inr (BGM, pool, Freed))"
  by pat_completeness auto
termination
  by (relation "measure (\<lambda>(BGM, Cth, NumSets, I, pool, Freed). nat NumSets - I)") auto

definition Decimate_BGM ::
  "Cell list list \<Rightarrow> int \<Rightarrow> int \<Rightarrow> Cell_Pool \<Rightarrow> fault + (Cell list list \<times> Cell_Pool \<times> int)" where
  "Decimate_BGM BGM Cth NumSets pool = Decimate_BGM_loop BGM Cth NumSets 0 pool 0"

text \<open>
  The decimation of one set in the words of the specification: every cell whose count is
  at least \<open>Cth\<close> is halved; a cell whose count is then below \<open>Cth\<close> is evicted, unless
  it is the sole remaining cell of its slot (no cell survives and it is the last one).
  \<open>Spec_Kept\<close> is the set that remains, \<open>Spec_Evicted\<close> the cells evicted, in list order.
\<close>

definition Spec_Halved :: "int \<Rightarrow> Cell list \<Rightarrow> Cell list" where
  "Spec_Halved Cth Set = map (\<lambda>c. if Cth \<le> Count c then Halve c else c) Set"

definition Spec_Kept :: "int \<Rightarrow> Cell list \<Rightarrow> Cell list" where
  "Spec_Kept Cth Set =
     (let H = Spec_Halved Cth Set; S = filter (\<lambda>c. \<not> Count c < Cth) H
      in if S = [] \<and> H \<noteq> [] then [last H] else S)"

definition Spec_Evicted :: "int \<Rightarrow> Cell list \<Rightarrow> Cell list" where
  "Spec_Evicted Cth Set =
     (let H = Spec_Halved Cth Set; S = filter (\<lambda>c. \<not> Count c < Cth) H
      in if S = [] \<and> H \<noteq> [] then butlast H else filter (\<lambda>c. Count c < Cth) H)"

text \<open>Repeated decimation: one call of \<open>Decimate_BGM\<close> per threshold of the list.\<close>

fun Decimate_Repeat ::
  "Cell list list \<Rightarrow> int list \<Rightarrow> int \<Rightarrow> Cell_Pool \<Rightarrow> fault + (Cell list list \<times> Cell_Pool)" where
  "Decimate_Repeat BGM [] NumSets pool = Inr (BGM, pool)"
| "Decimate_Repeat BGM (Cth # Cths) NumSets pool =
     (case Decimate_BGM BGM Cth NumSets pool of
        Inl e \<Rightarrow> Inl e
      | Inr (BGM', pool', Freed) \<Rightarrow> Decimate_Repeat BGM' Cths NumSets pool')"

text \<open>
  \<open>Process_Frame_FG\<close>. \<open>FG_Pixel\<close> is the body of its \<open>for\<close> loop on the pixel
  \<open>P\<close> and the set \<open>BGM[I]\<close>, both updated in place in the C code.
\<close>

definition FG_Pixel ::
  "Pixel \<Rightarrow> Cell list \<Rightarrow> int \<Rightarrow> int \<Rightarrow> Cell_Pool \<Rightarrow> fault + (Pixel \<times> Cell list \<times> Cell_Pool)" where
  "FG_Pixel P Set Epsilon Cth pool =
     (case Ratio_Match_Pixel P Set Epsilon of
        Inl e \<Rightarrow> Inl e
      | Inr (Result, Set') \<Rightarrow>
          (case Result of
             None \<Rightarrow>
               (case Add_Cell P Set' Cth pool of
                  Inl e \<Rightarrow> Inl e
                | Inr (NewCell, Set'', pool') \<Rightarrow> Inr (P, Set'', pool'))
           | Some k \<Rightarrow>
               if Count (Set' ! k) \<ge> Cth
               then Inr (P\<lparr>Pixel.R := 0, Pixel.G := 0, Pixel.B := 0\<rparr>, Set', pool)
               else Inr (P, Set', pool)))"

function Process_Frame_FG_loop ::
  "Cell list list \<Rightarrow> FrmBuf \<Rightarrow> int \<Rightarrow> int \<Rightarrow> nat \<Rightarrow> Cell_Pool
     \<Rightarrow> fault + (Cell list list \<times> FrmBuf \<times> Cell_Pool)" where
  "Process_Frame_FG_loop BGM FB Epsilon Cth I pool =
     (if int I < Width FB * Height FB then
        (if I < length (Frm FB) \<and> I < length BGM then
           (case FG_Pixel (Frm FB ! I) (BGM ! I) Epsilon Cth pool of
              Inl e \<Rightarrow> Inl e
            | Inr (P, Set, pool') \<Rightarrow>
                Process_Frame_FG_loop (BGM[I := Set]) (FB\<lparr>Frm := (Frm FB)[I := P]\<rparr>)
                  Epsilon Cth (Suc I) pool')
         else Inl OutOfBounds)
      else Inr (BGM, FB, pool))"
  by pat_completeness auto
termination
  by (relation "measure (\<lambda>(BGM, FB, Epsilon, Cth, I, pool). nat (Width FB * Height FB) - I)") auto

definition Process_Frame_FG ::
  "Cell list list \<Rightarrow> FrmBuf \<Rightarrow> int \<Rightarrow> int \<Rightarrow> Cell_Pool
     \<Rightarrow> fault + (Cell list list \<times> FrmBuf \<times> Cell_Pool)" where
  "Process_Frame_FG BGM FB Epsilon Cth pool = Process_Frame_FG_loop BGM FB Epsilon Cth 0 pool"

text \<open>
  A single chromatic mode that has assimilated the same pixel \<open>k\<close> times (used to state
  the behaviour on a stream of identical pixels).
\<close>

definition Mode :: "Pixel \<Rightarrow> int \<Rightarrow> Cell" where
  "Mode A k = \<lparr>Cell.R = k * uint (Pixel.R A), Cell.G = k * uint (Pixel.G A),
               Cell.B = k * uint (Pixel.B A), Count = k\<rparr>"

section \<open>Blob finding on a density map\<close>

text \<open>
  Blobs are shared objects: the active list, the column table \<open>ColBlobs\<close>, the row blob
  and the forwarding pointers all refer to the same blob, so blobs live in an explicit
  store \<open>Heap\<close> from addresses to contents and a pointer is an address (\<open>None\<close> for
  NULL). The \<open>Next\<close> linkage of the active list and of the free list is the order of two
  lists of addresses. \<open>BlobMem\<close> holds the addresses \<open>malloc\<close> can still hand out.
\<close>

record Blob_Pool =
  Heap :: "nat \<Rightarrow> Blob"
  FreeBlobs :: "nat list"
  BlobMem :: "nat list"

definition FREEBLOBSBLOCKSIZE :: nat where
  "FREEBLOBSBLOCKSIZE = 20"

definition New_Blob ::
  "int \<Rightarrow> int \<Rightarrow> int \<Rightarrow> 'a Blob_Pool_scheme \<Rightarrow> fault + (nat \<times> 'a Blob_Pool_scheme)" where
  "New_Blob X Y ID' pool =
     (case (if FreeBlobs pool = [] then malloc FREEBLOBSBLOCKSIZE (BlobMem pool)
            else Some (FreeBlobs pool, BlobMem pool)) of
        None \<Rightarrow> Inl AllocFail
      | Some (free, mem) \<Rightarrow>
          (case free of
             [] \<Rightarrow> Inl NullDeref
           | NewBlob # rest \<Rightarrow>
               Inr (NewBlob,
                    pool\<lparr>Heap := (Heap pool)(NewBlob :=
                            \<lparr>ID = ID', Xsum = 0, Ysum = 0, Xmin = 0, Ymin = 0, Xmax = 0, Ymax = 0,
                             Blob.Count = 0, Xreg = X, Yreg = Y, Expire = - 1, FP = None\<rparr>),
                         FreeBlobs := rest, BlobMem := mem\<rparr>)))"

definition Free_Blobs :: "nat list \<Rightarrow> 'a Blob_Pool_scheme \<Rightarrow> 'a Blob_Pool_scheme" where
  "Free_Blobs Blobs pool = pool\<lparr>FreeBlobs := Blobs @ FreeBlobs pool\<rparr>"

fun Number_Blobs_from :: "int \<Rightarrow> nat list \<Rightarrow> (nat \<Rightarrow> Blob) \<Rightarrow> (nat \<Rightarrow> Blob)" where
  "Number_Blobs_from ID' [] h = h"
| "Number_Blobs_from ID' (b # Next) h =
     (if FP (h b) = None then Number_Blobs_from (ID' + 1) Next (h(b := (h b)\<lparr>ID := ID'\<rparr>))
      else Number_Blobs_from ID' Next h)"

definition Number_Blobs :: "nat list \<Rightarrow> (nat \<Rightarrow> Blob) \<Rightarrow> (nat \<Rightarrow> Blob)" where
  "Number_Blobs Blobs h = Number_Blobs_from 1 Blobs h"

text \<open>
  \<open>Reduce_FP\<close> follows forwarding pointers for as long as there is one; on a cyclic chain
  the C recursion never returns, which is the value \<open>None\<close> here.
\<close>

partial_function (option) Reduce_FP :: "(nat \<Rightarrow> Blob) \<Rightarrow> nat \<Rightarrow> nat option" where
  "Reduce_FP h ThisBlob =
     (case FP (h ThisBlob) of
        Some Fwd \<Rightarrow> Reduce_FP h Fwd
      | None \<Rightarrow> Some ThisBlob)"

declare Reduce_FP.simps [code]

definition Merge_Blobs :: "nat \<Rightarrow> nat \<Rightarrow> int \<Rightarrow> (nat \<Rightarrow> Blob) \<Rightarrow> (nat \<Rightarrow> Blob)" where
  "Merge_Blobs Blob1 Blob2 Expire' h =
     (if Blob1 \<noteq> Blob2 then
        (let B1 = h Blob1;
             B2 = h Blob2;
             B2 = (if Xmin B1 < Xmin B2 then B2\<lparr>Xmin := Xmin B1\<rparr> else B2);
             B2 = (if Ymin B1 < Ymin B2 then B2\<lparr>Ymin := Ymin B1\<rparr> else B2);
             B2 = (if Xmax B1 > Xmax B2 then B2\<lparr>Xmax := Xmax B1\<rparr> else B2);
             B2 = (if Ymax B1 > Ymax B2 then B2\<lparr>Ymax := Ymax B1\<rparr> else B2);
             B2 = (if Yreg B1 < Yreg B2 \<or> (Yreg B1 = Yreg B2 \<and> Xreg B1 < Yreg B2)
                   then B2\<lparr>Xreg := Xreg B1, Yreg := Yreg B1\<rparr> else B2);
             B2 = B2\<lparr>Xsum := Xsum B2 + Xsum B1\<rparr>;
             B2 = B2\<lparr>Ysum := Ysum B2 + Ysum B1\<rparr>;
             B2 = B2\<lparr>Blob.Count := Blob.Count B2 + Blob.Count B1\<rparr>
         in h(Blob2 := B2, Blob1 := B1\<lparr>FP := Some Blob2, Expire := Expire'\<rparr>))
      else h)"

definition Add_Position :: "nat \<Rightarrow> int \<Rightarrow> int \<Rightarrow> (nat \<Rightarrow> Blob) \<Rightarrow> (nat \<Rightarrow> Blob)" where
  "Add_Position ThisBlob X Y h =
     (let T = h ThisBlob;
          T = (if Blob.Count T = 0 then T\<lparr>Xmin := X, Xmax := X, Ymin := Y, Ymax := Y\<rparr>
               else (let T = (if X < Xmin T then T\<lparr>Xmin := X\<rparr> else T);
                         T = (if Y < Ymin T then T\<lparr>Ymin := Y\<rparr> else T);
                         T = (if X > Xmax T then T\<lparr>Xmax := X\<rparr> else T);
                         T = (if Y > Ymax T then T\<lparr>Ymax := Y\<rparr> else T)
                     in T))
      in h(ThisBlob := T\<lparr>Xsum := Xsum T + X, Ysum := Ysum T + Y,
                          Blob.Count := Blob.Count T + 1\<rparr>))"

text \<open>
  The two reapers walk the active list, splice out every blob that meets the test and push
  it on the free list; they return the active list that remains and the free list.
\<close>

fun Reap_Expired_Blobs ::
  "(nat \<Rightarrow> Blob) \<Rightarrow> int \<Rightarrow> nat list \<Rightarrow> nat list \<Rightarrow> nat list \<times> nat list" where
  "Reap_Expired_Blobs h Now [] free = ([], free)"
| "Reap_Expired_Blobs h Now (b # Next) free =
     (if Now = Expire (h b) then Reap_Expired_Blobs h Now Next (b # free)
      else (case Reap_Expired_Blobs h Now Next free of
              (active, free') \<Rightarrow> (b # active, free')))"

fun Reap_FP_Blobs :: "(nat \<Rightarrow> Blob) \<Rightarrow> nat list \<Rightarrow> nat list \<Rightarrow> nat list \<times> nat list" where
  "Reap_FP_Blobs h [] free = ([], free)"
| "Reap_FP_Blobs h (b # Next) free =
     (if FP (h b) \<noteq> None then Reap_FP_Blobs h Next (b # free)
      else (case Reap_FP_Blobs h Next free of
              (active, free') \<Rightarrow> (b # active, free')))"

text \<open>A \<open>for\<close> loop over the values of a list, stopping at the first fault.\<close>

fun For_Each :: "('a \<Rightarrow> 's \<Rightarrow> fault + 's) \<Rightarrow> 'a list \<Rightarrow> 's \<Rightarrow> fault + 's" where
  "For_Each body [] s = Inr s"
| "For_Each body (x # xs) s =
     (case body x s of Inl e \<Rightarrow> Inl e | Inr s' \<Rightarrow> For_Each body xs s')"

text \<open>
  The state of a scan: the pool, the active list \<open>Blobs\<close>, the row blob, the column table
  and the running map index \<open>I\<close> (\<open>MapI\<close>).
\<close>

record Scan = Blob_Pool +
  Blobs :: "nat list"
  RowBlob :: "nat option"
  ColBlobs :: "nat option list"
  MapI :: nat

text \<open>The first statement of the loop body: a column blob that is a stub is reduced.\<close>

definition Reduce_Col :: "nat \<Rightarrow> 'a Scan_scheme \<Rightarrow> fault + 'a Scan_scheme" where
  "Reduce_Col X s =
     (if X < length (ColBlobs s) then
        (case ColBlobs s ! X of
           None \<Rightarrow> Inr s
         | Some c \<Rightarrow>
             (case FP (Heap s c) of
                None \<Rightarrow> Inr s
              | Some Fwd \<Rightarrow>
                  (case Reduce_FP (Heap s) c of
                     None \<Rightarrow> Inl Diverges
                   | Some r \<Rightarrow> Inr (s\<lparr>ColBlobs := (ColBlobs s)[X := Some r]\<rparr>))))
      else Inl OutOfBounds)"

text \<open>
  The blob-worthy branch up to \<open>Add_Position\<close>: merge, adopt the column blob, or allocate.
  \<open>Expire'\<close> is the expiration passed to \<open>Merge_Blobs\<close>.
\<close>

definition Touch :: "nat \<Rightarrow> nat \<Rightarrow> int \<Rightarrow> 'a Scan_scheme \<Rightarrow> fault + 'a Scan_scheme" where
  "Touch X Y Expire' s =
     (case (RowBlob s, ColBlobs s ! X) of
        (Some r, Some c) \<Rightarrow> Inr (s\<lparr>Heap := Merge_Blobs c r Expire' (Heap s)\<rparr>)
      | (None, Some c) \<Rightarrow> Inr (s\<lparr>RowBlob := Some c\<rparr>)
      | (None, None) \<Rightarrow>
          (case New_Blob (int X) (int Y) 0 s of
             Inl e \<Rightarrow> Inl e
           | Inr (b, s') \<Rightarrow> Inr (s'\<lparr>Blobs := b # Blobs s', RowBlob := Some b\<rparr>))
      | (Some r, None) \<Rightarrow> Inr s)"

definition BF_Pixel :: "int list \<Rightarrow> int \<Rightarrow> nat \<Rightarrow> nat \<Rightarrow> Scan \<Rightarrow> fault + Scan" where
  "BF_Pixel DensityMap Bth Y X s0 =
     (case Reduce_Col X s0 of
        Inl e \<Rightarrow> Inl e
      | Inr s \<Rightarrow>
          if MapI s < length DensityMap then
            (if DensityMap ! MapI s \<ge> Bth then
               (case Touch X Y (int Y + 1) s of
                  Inl e \<Rightarrow> Inl e
                | Inr s1 \<Rightarrow>
                    (case RowBlob s1 of
                       None \<Rightarrow> Inl NullDeref
                     | Some r \<Rightarrow>
                         Inr (s1\<lparr>Heap := Add_Position r (int X) (int Y) (Heap s1),
                                  ColBlobs := (ColBlobs s1)[X := Some r],
                                  MapI := Suc (MapI s1)\<rparr>)))
             else Inr (s\<lparr>RowBlob := None, ColBlobs := (ColBlobs s)[X := None],
                         MapI := Suc (MapI s)\<rparr>))
          else Inl OutOfBounds)"

definition Reap_Row :: "nat \<Rightarrow> Scan \<Rightarrow> Scan" where
  "Reap_Row Y s =
     (case Reap_Expired_Blobs (Heap s) (int Y) (Blobs s) (FreeBlobs s) of
        (active, free) \<Rightarrow> s\<lparr>Blobs := active, FreeBlobs := free\<rparr>)"

definition BF_Row :: "int list \<Rightarrow> int \<Rightarrow> int \<Rightarrow> nat \<Rightarrow> Scan \<Rightarrow> fault + Scan" where
  "BF_Row DensityMap Width' Bth Y s =
     (case For_Each (BF_Pixel DensityMap Bth Y) [0..<nat Width'] (s\<lparr>RowBlob := None\<rparr>) of
        Inl e \<Rightarrow> Inl e
      | Inr s' \<Rightarrow> Inr (Reap_Row Y s'))"

definition Scan_Init :: "int \<Rightarrow> Blob_Pool \<Rightarrow> Scan" where
  "Scan_Init Width' pool =
     \<lparr>Heap = Heap pool, FreeBlobs = FreeBlobs pool, BlobMem = BlobMem pool,
      Blobs = [], RowBlob = None, ColBlobs = replicate (nat Width') None, MapI = 0\<rparr>"

text \<open>\<open>BF_Scan\<close> is the double loop of \<open>Blob_Finder\<close> run for the rows of \<open>Ys\<close>.\<close>

definition BF_Scan :: "int list \<Rightarrow> int \<Rightarrow> int \<Rightarrow> nat list \<Rightarrow> Blob_Pool \<Rightarrow> fault + Scan" where
  "BF_Scan DensityMap Width' Bth Ys pool =
     For_Each (BF_Row DensityMap Width' Bth) Ys (Scan_Init Width' pool)"

text \<open>
  \<open>Blob_Finder\<close> returns the blob list; the pool, which holds the blobs, is returned with it.
\<close>

definition Blob_Finder ::
  "int list \<Rightarrow> int \<Rightarrow> int \<Rightarrow> int \<Rightarrow> Blob_Pool \<Rightarrow> fault + (nat list \<times> Blob_Pool)" where
  "Blob_Finder DensityMap Width' Height' Bth pool =
     (case BF_Scan DensityMap Width' Bth [0..<nat Height'] pool of
        Inl e \<Rightarrow> Inl e
      | Inr s \<Rightarrow>
          (case Reap_FP_Blobs (Heap s) (Blobs s) (FreeBlobs s) of
             (active, free) \<Rightarrow>
               Inr (active,
                    \<lparr>Heap = Number_Blobs active (Heap s), FreeBlobs = free, BlobMem = BlobMem s\<rparr>)))"

text \<open>An all-zero blob object and a fresh pool of forty addresses, for concrete runs.\<close>

definition Blank :: Blob where
  "Blank = \<lparr>ID = 0, Xsum = 0, Ysum = 0, Xmin = 0, Ymin = 0, Xmax = 0, Ymax = 0,
            Blob.Count = 0, Xreg = 0, Yreg = 0, Expire = 0, FP = None\<rparr>"

definition Pool0 :: Blob_Pool where
  "Pool0 = \<lparr>Heap = (\<lambda>a. Blank), FreeBlobs = [], BlobMem = [1..<41]\<rparr>"

text \<open>The blob list returned by a finder, with the contents of its blobs.\<close>

definition Found :: "fault + (nat list \<times> Blob_Pool) \<Rightarrow> fault + (nat list \<times> Blob list)" where
  "Found r = (case r of Inl e \<Rightarrow> Inl e | Inr (bs, p) \<Rightarrow> Inr (bs, map (Heap p) bs))"

text \<open>
  Invariants of a scan. \<open>resolves h b r\<close>: following forwarding pointers from \<open>b\<close>
  ends at the unforwarded blob \<open>r\<close>. \<open>Linked h A\<close>: within the active blobs \<open>A\<close> a
  forwarding pointer leads to another active blob and every chain ends. \<open>Stamped h A Y\<close>:
  while row \<open>Y\<close> is scanned an unforwarded blob has \<open>Expire = -1\<close>, a stub expires at
  \<open>Y\<close> or \<open>Y + 1\<close> and never after the blob it forwards to.
\<close>

inductive resolves :: "(nat \<Rightarrow> Blob) \<Rightarrow> nat \<Rightarrow> nat \<Rightarrow> bool" for h :: "nat \<Rightarrow> Blob" where
  root: "FP (h b) = None \<Longrightarrow> resolves h b b"
| fwd: "FP (h b) = Some c \<Longrightarrow> resolves h c r \<Longrightarrow> resolves h b r"

definition Linked :: "(nat \<Rightarrow> Blob) \<Rightarrow> nat set \<Rightarrow> bool" where
  "Linked h A \<longleftrightarrow>
     (\<forall>b\<in>A. (\<forall>c. FP (h b) = Some c \<longrightarrow> c \<in> A \<and> c \<noteq> b) \<and> (\<exists>r. resolves h b r))"

definition Stamped :: "(nat \<Rightarrow> Blob) \<Rightarrow> nat set \<Rightarrow> int \<Rightarrow> bool" where
  "Stamped h A Y \<longleftrightarrow>
     (\<forall>b\<in>A. case FP (h b) of
               None \<Rightarrow> Expire (h b) = - 1
             | Some c \<Rightarrow> (Expire (h b) = Y \<or> Expire (h b) = Y + 1) \<and>
                         (FP (h c) \<noteq> None \<longrightarrow> Expire (h b) \<le> Expire (h c)))"

text \<open>
  \<open>Forest\<close>: active list, free list and unallocated memory are disjoint, the active blobs
  are \<open>Linked\<close>, the row blob is an unforwarded active blob and every column entry is an
  active blob. \<open>Timed Y X\<close>: \<open>Stamped\<close>, and a stub in a column already visited in row
  \<open>Y\<close> expires at \<open>Y + 1\<close>. \<open>Counted\<close>: the table width, the map index and the number
  of blob objects.
\<close>

definition Forest :: "'a Scan_scheme \<Rightarrow> bool" where
  "Forest s \<longleftrightarrow>
     distinct (Blobs s @ FreeBlobs s @ BlobMem s) \<and>
     Linked (Heap s) (set (Blobs s)) \<and>
     (\<forall>r. RowBlob s = Some r \<longrightarrow> r \<in> set (Blobs s) \<and> FP (Heap s r) = None) \<and>
     (\<forall>b. Some b \<in> set (ColBlobs s) \<longrightarrow> b \<in> set (Blobs s))"

definition Timed :: "nat \<Rightarrow> nat \<Rightarrow> 'a Scan_scheme \<Rightarrow> bool" where
  "Timed Y X s \<longleftrightarrow>
     Stamped (Heap s) (set (Blobs s)) (int Y) \<and>
     (\<forall>x<X. \<forall>b. x < length (ColBlobs s) \<longrightarrow> ColBlobs s ! x = Some b \<longrightarrow>
         FP (Heap s b) \<noteq> None \<longrightarrow> Expire (Heap s b) = int Y + 1)"

definition Counted :: "nat \<Rightarrow> nat \<Rightarrow> nat \<Rightarrow> nat \<Rightarrow> 'a Scan_scheme \<Rightarrow> bool" where
  "Counted W N Y X s \<longleftrightarrow>
     length (ColBlobs s) = W \<and> MapI s = Y * W + X \<and>
     length (Blobs s) + length (FreeBlobs s) + length (BlobMem s) = N \<and>
     length (Blobs s) \<le> MapI s"

text \<open>
  The invariant of \<open>Blob_Finder\<close>'s double loop after \<open>Y\<close> rows and \<open>X\<close> pixels of row
  \<open>Y\<close>, a well-formed pool, and the state of the double loop at that point.
\<close>

definition BF_Inv :: "nat \<Rightarrow> nat \<Rightarrow> nat \<Rightarrow> nat \<Rightarrow> Scan \<Rightarrow> bool" where
  "BF_Inv W N Y X s \<longleftrightarrow> Forest s \<and> Timed Y X s \<and> Counted W N Y X s"

definition Pool_OK :: "Blob_Pool \<Rightarrow> bool" where
  "Pool_OK pool \<longleftrightarrow> distinct (FreeBlobs pool @ BlobMem pool)"

definition BF_Prefix :: "int list \<Rightarrow> int \<Rightarrow> int \<Rightarrow> nat \<Rightarrow> nat \<Rightarrow> Blob_Pool \<Rightarrow> fault + Scan" where
  "BF_Prefix DensityMap Width' Bth Y X pool =
     (case BF_Scan DensityMap Width' Bth [0..<Y] pool of
        Inl e \<Rightarrow> Inl e
      | Inr s \<Rightarrow> For_Each (BF_Pixel DensityMap Bth Y) [0..<X] (s\<lparr>RowBlob := None\<rparr>))"

text \<open>
  What the end of a row looks like: the active blobs, the column references, each active
  blob's \<open>Expire\<close> and forwarding pointer, and the blobs that survive the reap of row \<open>Y\<close>.
\<close>

definition Reclaim_View ::
  "nat \<Rightarrow> Scan \<Rightarrow> nat list \<times> nat option list \<times> (int \<times> nat option) list \<times> nat list" where
  "Reclaim_View Y s =
     (Blobs s, ColBlobs s, map (\<lambda>b. (Expire (Heap s b), FP (Heap s b))) (Blobs s),
      Blobs (Reap_Row Y s))"

text \<open>
  The scan as seen from outside: active list, row blob, column table and the contents of the
  active blobs.
\<close>

definition Blob_View :: "Scan \<Rightarrow> nat list \<times> nat option \<times> nat option list \<times> Blob list" where
  "Blob_View s = (Blobs s, RowBlob s, ColBlobs s, map (Heap s) (Blobs s))"

text \<open>
  What the blobs of a scan stand for. The map is read row by row, cell \<open>i\<close> lying in column
  \<open>i mod W\<close> of row \<open>i div W\<close>; a cell is blob-worthy when its density reaches \<open>Bth\<close>;
  \<open>Adjacent W i j\<close> says that \<open>j\<close> is the right-hand or the lower neighbour of \<open>i\<close>, and
  \<open>Links\<close> relates neighbouring blob-worthy cells among the first \<open>n\<close>. For an assignment
  \<open>own\<close> of cells to blobs, \<open>Region\<close> is the set of blob-worthy cells of a blob and
  \<open>Stats\<close> says that a blob records its region: the area, the two centre-of-mass sums and
  the bounding box.
\<close>

definition Worthy :: "int list \<Rightarrow> int \<Rightarrow> nat \<Rightarrow> bool" where
  "Worthy dm Bth i \<longleftrightarrow> Bth \<le> dm ! i"

definition Adjacent :: "nat \<Rightarrow> nat \<Rightarrow> nat \<Rightarrow> bool" where
  "Adjacent W i j \<longleftrightarrow> (j = Suc i \<and> j mod W \<noteq> 0) \<or> j = i + W"

definition Links :: "nat \<Rightarrow> int list \<Rightarrow> int \<Rightarrow> nat \<Rightarrow> (nat \<times> nat) set" where
  "Links W dm Bth n =
     {(i, j). i < n \<and> j < n \<and> Worthy dm Bth i \<and> Worthy dm Bth j \<and>
              (Adjacent W i j \<or> Adjacent W j i)}"

definition Region :: "int list \<Rightarrow> int \<Rightarrow> nat \<Rightarrow> (nat \<Rightarrow> nat) \<Rightarrow> nat \<Rightarrow> nat set" where
  "Region dm Bth n own r = {i. i < n \<and> Worthy dm Bth i \<and> own i = r}"

definition Stats :: "nat \<Rightarrow> nat set \<Rightarrow> Blob \<Rightarrow> bool" where
  "Stats W C b \<longleftrightarrow>
     Blob.Count b = int (card C) \<and>
     Xsum b = (\<Sum>i\<in>C. int (i mod W)) \<and>
     Ysum b = (\<Sum>i\<in>C. int (i div W)) \<and>
     (C \<noteq> {} \<longrightarrow>
        Xmin b = Min ((\<lambda>i. int (i mod W)) ` C) \<and> Xmax b = Max ((\<lambda>i. int (i mod W)) ` C) \<and>
        Ymin b = Min ((\<lambda>i. int (i div W)) ` C) \<and> Ymax b = Max ((\<lambda>i. int (i div W)) ` C))"

text \<open>
  The invariant of the scan after \<open>n\<close> cells, for an assignment \<open>own\<close>: every blob-worthy
  cell belongs to an unforwarded active blob (\<open>Rooted\<close>), neighbouring cells belong to the
  same blob (\<open>Agree\<close>), the cells of one blob are connected (\<open>Connected\<close>), every
  unforwarded active blob records its region (\<open>Measured\<close>) and has a cell (\<open>Inhabited\<close>);
  the column table refers, through forwarding chains, to the owner of the last cell seen in
  each column, and the row blob is the owner of the cell to the left (\<open>Cols_OK\<close>,
  \<open>Row_OK\<close>).
\<close>

definition Rooted :: "int list \<Rightarrow> int \<Rightarrow> nat \<Rightarrow> (nat \<Rightarrow> Blob) \<Rightarrow> nat set \<Rightarrow> (nat \<Rightarrow> nat) \<Rightarrow> bool" where
  "Rooted dm Bth n h A own \<longleftrightarrow>
     (\<forall>i<n. Worthy dm Bth i \<longrightarrow> own i \<in> A \<and> FP (h (own i)) = None)"

definition Agree :: "nat \<Rightarrow> int list \<Rightarrow> int \<Rightarrow> nat \<Rightarrow> (nat \<Rightarrow> nat) \<Rightarrow> bool" where
  "Agree W dm Bth n own \<longleftrightarrow>
     (\<forall>i<n. \<forall>j<n. Worthy dm Bth i \<and> Worthy dm Bth j \<and> Adjacent W i j \<longrightarrow> own i = own j)"

definition Connected :: "nat \<Rightarrow> int list \<Rightarrow> int \<Rightarrow> nat \<Rightarrow> (nat \<Rightarrow> nat) \<Rightarrow> bool" where
  "Connected W dm Bth n own \<longleftrightarrow>
     (\<forall>i<n. \<forall>j<n. Worthy dm Bth i \<and> Worthy dm Bth j \<and> own i = own j \<longrightarrow>
        (i, j) \<in> (Links W dm Bth n)\<^sup>*)"

definition Measured ::
  "nat \<Rightarrow> int list \<Rightarrow> int \<Rightarrow> nat \<Rightarrow> (nat \<Rightarrow> Blob) \<Rightarrow> nat set \<Rightarrow> (nat \<Rightarrow> nat) \<Rightarrow> bool" where
  "Measured W dm Bth n h A own \<longleftrightarrow>
     (\<forall>r\<in>A. FP (h r) = None \<longrightarrow> Stats W (Region dm Bth n own r) (h r))"

definition Inhabited ::
  "int list \<Rightarrow> int \<Rightarrow> nat \<Rightarrow> (nat \<Rightarrow> Blob) \<Rightarrow> nat set \<Rightarrow> (nat \<Rightarrow> nat) \<Rightarrow> bool" where
  "Inhabited dm Bth n h A own \<longleftrightarrow>
     (\<forall>r\<in>A. FP (h r) = None \<longrightarrow> Region dm Bth n own r \<noteq> {})"

definition Col_Cell :: "nat \<Rightarrow> nat \<Rightarrow> nat \<Rightarrow> nat \<Rightarrow> nat option" where
  "Col_Cell W Y X x =
     (if x < X then Some (Y * W + x) else if 0 < Y then Some ((Y - 1) * W + x) else None)"

definition Cols_OK ::
  "nat \<Rightarrow> int list \<Rightarrow> int \<Rightarrow> nat \<Rightarrow> nat \<Rightarrow> (nat \<Rightarrow> nat) \<Rightarrow> (nat \<Rightarrow> Blob) \<Rightarrow> nat option list \<Rightarrow> bool"
  where
  "Cols_OK W dm Bth Y X own h cols \<longleftrightarrow>
     (\<forall>x<W. case Col_Cell W Y X x of
               None \<Rightarrow> cols ! x = None
             | Some i \<Rightarrow> if Worthy dm Bth i then (\<exists>c. cols ! x = Some c \<and> resolves h c (own i))
                         else cols ! x = None)"

definition Row_OK :: "nat \<Rightarrow> int list \<Rightarrow> int \<Rightarrow> nat \<Rightarrow> nat \<Rightarrow> (nat \<Rightarrow> nat) \<Rightarrow> nat option \<Rightarrow> bool" where
  "Row_OK W dm Bth Y X own row \<longleftrightarrow>
     row = (if 0 < X \<and> Worthy dm Bth (Y * W + X - 1) then Some (own (Y * W + X - 1)) else None)"

definition BF_Own :: "nat \<Rightarrow> int list \<Rightarrow> int \<Rightarrow> nat \<Rightarrow> nat \<Rightarrow> (nat \<Rightarrow> nat) \<Rightarrow> 'a Scan_scheme \<Rightarrow> bool" where
  "BF_Own W dm Bth Y X own s \<longleftrightarrow>
     Rooted dm Bth (Y * W + X) (Heap s) (set (Blobs s)) own \<and>
     Agree W dm Bth (Y * W + X) own \<and>
     Connected W dm Bth (Y * W + X) own \<and>
     Measured W dm Bth (Y * W + X) (Heap s) (set (Blobs s)) own \<and>
     Inhabited dm Bth (Y * W + X) (Heap s) (set (Blobs s)) own \<and>
     Cols_OK W dm Bth Y X own (Heap s) (ColBlobs s) \<and>
     Row_OK W dm Bth Y X own (RowBlob s)"

text \<open>
  \<open>Blob_Finder_Map\<close> is the same scan, except that it merges with expiration 0, reclaims
  nothing during the scan, and overwrites the density map in place: a blob-worthy cell
  receives the address of its row blob (the C code casts the pointer to \<open>int\<close>; here the
  address as an integer), any other cell receives 0. \<open>DMap\<close> is the map being overwritten.
\<close>

record Map_Scan = Scan +
  DMap :: "int list"

definition BFM_Pixel :: "int \<Rightarrow> nat \<Rightarrow> nat \<Rightarrow> Map_Scan \<Rightarrow> fault + Map_Scan" where
  "BFM_Pixel Bth Y X s0 =
     (case Reduce_Col X s0 of
        Inl e \<Rightarrow> Inl e
      | Inr s \<Rightarrow>
          if MapI s < length (DMap s) then
            (if DMap s ! MapI s \<ge> Bth then
               (case Touch X Y 0 s of
                  Inl e \<Rightarrow> Inl e
                | Inr s1 \<Rightarrow>
                    (case RowBlob s1 of
                       None \<Rightarrow> Inl NullDeref
                     | Some r \<Rightarrow>
                         Inr (s1\<lparr>Heap := Add_Position r (int X) (int Y) (Heap s1),
                                  ColBlobs := (ColBlobs s1)[X := Some r],
                                  MapI := Suc (MapI s1),
                                  DMap := (DMap s1)[MapI s1 := int r]\<rparr>)))
             else Inr (s\<lparr>RowBlob := None, ColBlobs := (ColBlobs s)[X := None],
                         MapI := Suc (MapI s), DMap := (DMap s)[MapI s := 0]\<rparr>))
          else Inl OutOfBounds)"

definition BFM_Row :: "int \<Rightarrow> int \<Rightarrow> nat \<Rightarrow> Map_Scan \<Rightarrow> fault + Map_Scan" where
  "BFM_Row Width' Bth Y s = For_Each (BFM_Pixel Bth Y) [0..<nat Width'] (s\<lparr>RowBlob := None\<rparr>)"

definition Map_Init :: "int list \<Rightarrow> int \<Rightarrow> Blob_Pool \<Rightarrow> Map_Scan" where
  "Map_Init DensityMap Width' pool =
     \<lparr>Heap = Heap pool, FreeBlobs = FreeBlobs pool, BlobMem = BlobMem pool,
      Blobs = [], RowBlob = None, ColBlobs = replicate (nat Width') None, MapI = 0,
      DMap = DensityMap\<rparr>"

definition BFM_Scan :: "int list \<Rightarrow> int \<Rightarrow> int \<Rightarrow> nat list \<Rightarrow> Blob_Pool \<Rightarrow> fault + Map_Scan" where
  "BFM_Scan DensityMap Width' Bth Ys pool =
     For_Each (BFM_Row Width' Bth) Ys (Map_Init DensityMap Width' pool)"

text \<open>
  \<open>Mark_Blob_ID_Map\<close> replaces every non-zero entry of the map by the \<open>ID\<close> of the blob that
  \<open>Reduce_FP\<close> finds from the blob stored there. \<open>Blob_Finder_Map\<close> returns the blob list;
  the map and the pool are returned with it.
\<close>

definition Mark_Pixel :: "(nat \<Rightarrow> Blob) \<Rightarrow> nat \<Rightarrow> int list \<Rightarrow> fault + int list" where
  "Mark_Pixel h I DensityMap =
     (if I < length DensityMap then
        (if DensityMap ! I \<noteq> 0 then
           (case Reduce_FP h (nat (DensityMap ! I)) of
              None \<Rightarrow> Inl Diverges
            | Some ThisBlob \<Rightarrow> Inr (DensityMap[I := ID (h ThisBlob)]))
         else Inr DensityMap)
      else Inl OutOfBounds)"

definition Mark_Blob_ID_Map :: "(nat \<Rightarrow> Blob) \<Rightarrow> int list \<Rightarrow> int \<Rightarrow> fault + int list" where
  "Mark_Blob_ID_Map h DensityMap NumPos = For_Each (Mark_Pixel h) [0..<nat NumPos] DensityMap"

definition Blob_Finder_Map ::
  "int list \<Rightarrow> int \<Rightarrow> int \<Rightarrow> int \<Rightarrow> Blob_Pool \<Rightarrow> fault + (nat list \<times> int list \<times> Blob_Pool)" where
  "Blob_Finder_Map DensityMap Width' Height' Bth pool =
     (case BFM_Scan DensityMap Width' Bth [0..<nat Height'] pool of
        Inl e \<Rightarrow> Inl e
      | Inr s \<Rightarrow>
          (let h = Number_Blobs (Blobs s) (Heap s) in
           case Mark_Blob_ID_Map h (DMap s) (Width' * Height') of
             Inl e \<Rightarrow> Inl e
           | Inr m \<Rightarrow>
               (case Reap_FP_Blobs h (Blobs s) (FreeBlobs s) of
                  (active, free) \<Rightarrow>
                    Inr (active, m, \<lparr>Heap = h, FreeBlobs = free, BlobMem = BlobMem s\<rparr>))))"

text \<open>
  The state of \<open>Blob_Finder_Map\<close>'s double loop after \<open>Y\<close> rows and \<open>X\<close> cells of row \<open>Y\<close>,
  and its invariant: the entries already written refer to active blobs. \<open>Chains_End\<close> says
  what the forwarding pointers of a state look like, \<open>Chain_View\<close> shows them.
\<close>

definition BFM_Prefix :: "int list \<Rightarrow> int \<Rightarrow> int \<Rightarrow> nat \<Rightarrow> nat \<Rightarrow> Blob_Pool \<Rightarrow> fault + Map_Scan" where
  "BFM_Prefix DensityMap Width' Bth Y X pool =
     (case BFM_Scan DensityMap Width' Bth [0..<Y] pool of
        Inl e \<Rightarrow> Inl e
      | Inr s \<Rightarrow> For_Each (BFM_Pixel Bth Y) [0..<X] (s\<lparr>RowBlob := None\<rparr>))"

definition Mapped :: "Map_Scan \<Rightarrow> bool" where
  "Mapped s \<longleftrightarrow>
     (\<forall>i<MapI s. i < length (DMap s) \<longrightarrow> DMap s ! i \<noteq> 0 \<longrightarrow>
        nat (DMap s ! i) \<in> set (Blobs s))"

definition BFM_Inv :: "nat \<Rightarrow> nat \<Rightarrow> nat \<Rightarrow> nat \<Rightarrow> nat \<Rightarrow> Map_Scan \<Rightarrow> bool" where
  "BFM_Inv W N L Y X s \<longleftrightarrow>
     Forest s \<and> Counted W N Y X s \<and> length (DMap s) = L \<and> Mapped s"

definition Chains_End :: "'a Scan_scheme \<Rightarrow> bool" where
  "Chains_End s \<longleftrightarrow>
     (\<forall>b\<in>set (Blobs s).
        (\<forall>c. FP (Heap s b) = Some c \<longrightarrow> c \<in> set (Blobs s) \<and> c \<noteq> b) \<and>
        (\<exists>r\<in>set (Blobs s). Reduce_FP (Heap s) b = Some r \<and> FP (Heap s r) = None)) \<and>
     (\<forall>b. Some b \<in> set (ColBlobs s) \<or> RowBlob s = Some b \<longrightarrow> b \<in> set (Blobs s))"

definition Chain_View :: "'a Scan_scheme \<Rightarrow> nat list \<times> (nat option \<times> nat option) list" where
  "Chain_View s = (Blobs s, map (\<lambda>b. (FP (Heap s b), Reduce_FP (Heap s) b)) (Blobs s))"

section \<open>Horizontal density scan\<close>

text \<open>
  A bounds-checked store into an \<open>int\<close> array indexed by a C \<open>int\<close>.
\<close>

definition Store :: "int list \<Rightarrow> int \<Rightarrow> int \<Rightarrow> fault + int list" where
  "Store A i v = (if 0 \<le> i \<and> i < int (length A) then Inr (A[nat i := v]) else Inl OutOfBounds)"

definition NonBlack :: "Pixel \<Rightarrow> bool" where
  "NonBlack P \<longleftrightarrow> (Pixel.R P OR Pixel.G P OR Pixel.B P) \<noteq> 0"

text \<open>
  The state of \<open>Horizontal_Image_Density\<close> is the triple \<open>(Sum, Wheel, DensityMap)\<close> (\<open>Sum\<close> is written \<open>Sum'\<close>).
  \<open>Roll_Out\<close> is the body of the inner loop that writes out the end of a row,
  \<open>HID_Pixel\<close> the body of the loop over the pixels. \<open>%\<close> is C's remainder \<open>smod\<close>.
\<close>

definition Roll_Out ::
  "int \<Rightarrow> int \<Rightarrow> int \<Rightarrow> int \<times> int \<times> int list \<Rightarrow> fault + (int \<times> int \<times> int list)" where
  "Roll_Out I WheelOff J st =
     (case st of (Sum', Wheel, DensityMap) \<Rightarrow>
        (let Sum' = Sum' - (Wheel AND 1);
             Wheel = drop_bit 1 Wheel
         in case Store DensityMap (I - WheelOff + J) Sum' of
              Inl e \<Rightarrow> Inl e
            | Inr DensityMap' \<Rightarrow> Inr (Sum', Wheel, DensityMap')))"

definition HID_Pixel ::
  "FrmBuf \<Rightarrow> int \<Rightarrow> int \<Rightarrow> nat \<Rightarrow> int \<times> int \<times> int list \<Rightarrow> fault + (int \<times> int \<times> int list)" where
  "HID_Pixel FB WheelOff Edge I st =
     (case st of (Sum', Wheel, DensityMap) \<Rightarrow>
        (let Sum' = Sum' - (Wheel AND 1);
             Wheel = drop_bit 1 Wheel
         in if I < length (Frm FB) then
              (let (Sum', Wheel) = (if NonBlack (Frm FB ! I) then (Sum' + 1, Wheel OR Edge)
                                   else (Sum', Wheel))
               in if Width FB = 0 then Inl DivByZero
                  else
                    (case (if int I smod Width FB \<ge> WheelOff
                           then Store DensityMap (int I - WheelOff) Sum' else Inr DensityMap) of
                       Inl e \<Rightarrow> Inl e
                     | Inr DensityMap \<Rightarrow>
                         if int I smod Width FB = Width FB - 1 then
                           (case For_Each (Roll_Out (int I) WheelOff) [1..WheelOff]
                                   (Sum', Wheel, DensityMap) of
                              Inl e \<Rightarrow> Inl e
                            | Inr (Sum'', Wheel', DensityMap') \<Rightarrow> Inr (0, 0, DensityMap'))
                         else Inr (Sum', Wheel, DensityMap)))
            else Inl OutOfBounds))"

text \<open>
  \<open>1 << (WheelSize - 1)\<close> is defined for a 32-bit \<open>int\<close> only for shift counts
  \<open>0 .. 30\<close>; within that range the wheel never leaves the range of \<open>int\<close>.
\<close>

definition Horizontal_Image_Density :: "FrmBuf \<Rightarrow> int list \<Rightarrow> int \<Rightarrow> fault + int list" where
  "Horizontal_Image_Density FB DensityMap WheelSize =
     (if WheelSize - 1 < 0 \<or> 31 \<le> WheelSize - 1 then Inl BadShift
      else
        (case For_Each (HID_Pixel FB (drop_bit 1 WheelSize) (push_bit (nat (WheelSize - 1)) 1))
                [0..<nat (Width FB * Height FB)] (0, 0, DensityMap) of
           Inl e \<Rightarrow> Inl e
         | Inr (Sum', Wheel, DensityMap') \<Rightarrow> Inr DensityMap'))"

text \<open>
  The wheel of width \<open>w\<close> whose \<open>m\<close> most recent positions are set: bits
  \<open>w - m .. w - 1\<close>.
\<close>

definition Full :: "nat \<Rightarrow> nat \<Rightarrow> int" where
  "Full w m = push_bit (w - m) (mask m)"

text \<open>Two pixels for concrete frames.\<close>

definition White :: Pixel where
  "White = \<lparr>Pixel.R = 255, G = 255, B = 255\<rparr>"

definition Black :: Pixel where
  "Black = \<lparr>Pixel.R = 0, G = 0, B = 0\<rparr>"

section \<open>Verified properties: background model\<close>

lemma RMP_scan_none:
  "\<forall>i<length Cells. Count (Cells ! i) \<noteq> 0 \<and> \<not> Ratio_Near P (Cells ! i) Epsilon \<Longrightarrow>
   Ratio_Match_Pixel P Cells Epsilon = Inr (None, Cells)"
proof (induction Cells)
  case Nil
  show ?case by simp
next
  case (Cons c Cells)
  from Cons.prems have "Count ((c # Cells) ! 0) \<noteq> 0 \<and> \<not> Ratio_Near P ((c # Cells) ! 0) Epsilon"
    by blast
  then have c: "Count c \<noteq> 0" "\<not> Ratio_Near P c Epsilon" by simp_all
  have "\<forall>i<length Cells. Count (Cells ! i) \<noteq> 0 \<and> \<not> Ratio_Near P (Cells ! i) Epsilon"
  proof (intro allI impI)
    fix i assume "i < length Cells"
    then have "Suc i < length (c # Cells)" by simp
    with Cons.prems have "Count ((c # Cells) ! Suc i) \<noteq> 0 \<and> \<not> Ratio_Near P ((c # Cells) ! Suc i) Epsilon"
      by blast
    then show "Count (Cells ! i) \<noteq> 0 \<and> \<not> Ratio_Near P (Cells ! i) Epsilon" by simp
  qed
  from Cons.IH[OF this] c show ?case by simp
qed

lemma RMP_scan_stop:
  "i < length Cells \<Longrightarrow>
   \<forall>j<i. Count (Cells ! j) \<noteq> 0 \<and> \<not> Ratio_Near P (Cells ! j) Epsilon \<Longrightarrow>
   Ratio_Match_Pixel P Cells Epsilon =
     (if Count (Cells ! i) = 0 then Inl DivByZero
      else if Ratio_Near P (Cells ! i) Epsilon
           then Inr (Some i, Cells[i := Assimilate P (Cells ! i)])
      else Ratio_Match_Pixel P Cells Epsilon)"
proof (induction Cells arbitrary: i)
  case Nil
  then show ?case by simp
next
  case (Cons c Cells)
  show ?case
  proof (cases i)
    case 0
    then show ?thesis by simp
  next
    case (Suc k)
    with Cons.prems have k: "k < length Cells" by simp
    from Cons.prems(2) Suc have "Count ((c # Cells) ! 0) \<noteq> 0 \<and> \<not> Ratio_Near P ((c # Cells) ! 0) Epsilon"
      by blast
    then have c: "Count c \<noteq> 0" "\<not> Ratio_Near P c Epsilon" by simp_all
    have pre: "\<forall>j<k. Count (Cells ! j) \<noteq> 0 \<and> \<not> Ratio_Near P (Cells ! j) Epsilon"
    proof (intro allI impI)
      fix j assume "j < k"
      then have "Suc j < i" using Suc by simp
      with Cons.prems(2) have "Count ((c # Cells) ! Suc j) \<noteq> 0 \<and> \<not> Ratio_Near P ((c # Cells) ! Suc j) Epsilon"
        by blast
      then show "Count (Cells ! j) \<noteq> 0 \<and> \<not> Ratio_Near P (Cells ! j) Epsilon" by simp
    qed
    from Cons.IH[OF k pre] c Suc show ?thesis by auto
  qed
qed

text \<open>
  Claim C4, as the code has it. \<open>Ratio_Match_Pixel\<close> scans the set in list order. A cell is near the pixel when,
  for each of the three channels, the pixel's channel differs by at most \<open>Epsilon\<close> from the
  cell's sum divided by its count, the quotient truncated toward zero. The scan stops at
  the first near cell: it returns that cell, having added the pixel's channels to the cell's
  sums and one to its count, every other cell unchanged. If no cell is near it returns none
  and the set is unchanged. The quotient is only defined for a non-zero count: if the scan
  reaches a cell whose count is zero before it has found a near cell, the C division is by
  zero.
\<close>

theorem Ratio_Match_Pixel_cube_first_match:
  fixes P :: Pixel and Cells :: "Cell list" and Epsilon :: int
  defines "mean \<equiv> \<lambda>s n :: int. sgn s * sgn n * (\<bar>s\<bar> div \<bar>n\<bar>)"
  defines "near \<equiv> \<lambda>c. \<bar>uint (Pixel.R P) - mean (Cell.R c) (Count c)\<bar> \<le> Epsilon \<and>
                       \<bar>uint (Pixel.G P) - mean (Cell.G c) (Count c)\<bar> \<le> Epsilon \<and>
                       \<bar>uint (Pixel.B P) - mean (Cell.B c) (Count c)\<bar> \<le> Epsilon"
  defines "absorbed \<equiv> \<lambda>c. \<lparr>Cell.R = Cell.R c + uint (Pixel.R P), G = Cell.G c + uint (Pixel.G P),
                              B = Cell.B c + uint (Pixel.B P), Count = Count c + 1\<rparr>"
  shows "(\<forall>i<length Cells.
            (\<forall>j<i. Count (Cells ! j) \<noteq> 0 \<and> \<not> near (Cells ! j)) \<and>
            Count (Cells ! i) \<noteq> 0 \<and> near (Cells ! i)
            \<longrightarrow> Ratio_Match_Pixel P Cells Epsilon = Inr (Some i, Cells[i := absorbed (Cells ! i)]))
       \<and> ((\<forall>i<length Cells. Count (Cells ! i) \<noteq> 0 \<and> \<not> near (Cells ! i))
            \<longrightarrow> Ratio_Match_Pixel P Cells Epsilon = Inr (None, Cells))
       \<and> (\<forall>i<length Cells.
            (\<forall>j<i. Count (Cells ! j) \<noteq> 0 \<and> \<not> near (Cells ! j)) \<and> Count (Cells ! i) = 0
            \<longrightarrow> Ratio_Match_Pixel P Cells Epsilon = Inl DivByZero)"
proof -
  have near: "near = (\<lambda>c. Ratio_Near P c Epsilon)"
    by (simp add: near_def mean_def Ratio_Near_def signed_divide_int_def fun_eq_iff)
  have absorbed: "absorbed = Assimilate P"
    by (simp add: absorbed_def Assimilate_def fun_eq_iff)
  show ?thesis unfolding near absorbed
  proof (intro conjI allI impI)
    fix i assume "i < length Cells"
      and "(\<forall>j<i. Count (Cells ! j) \<noteq> 0 \<and> \<not> Ratio_Near P (Cells ! j) Epsilon) \<and>
           Count (Cells ! i) \<noteq> 0 \<and> Ratio_Near P (Cells ! i) Epsilon"
    then show "Ratio_Match_Pixel P Cells Epsilon = Inr (Some i, Cells[i := Assimilate P (Cells ! i)])"
      using RMP_scan_stop[of i Cells P Epsilon] by simp
  next
    assume "\<forall>i<length Cells. Count (Cells ! i) \<noteq> 0 \<and> \<not> Ratio_Near P (Cells ! i) Epsilon"
    then show "Ratio_Match_Pixel P Cells Epsilon = Inr (None, Cells)" by (rule RMP_scan_none)
  next
    fix i assume "i < length Cells"
      and "(\<forall>j<i. Count (Cells ! j) \<noteq> 0 \<and> \<not> Ratio_Near P (Cells ! j) Epsilon) \<and>
           Count (Cells ! i) = 0"
    then show "Ratio_Match_Pixel P Cells Epsilon = Inl DivByZero"
      using RMP_scan_stop[of i Cells P Epsilon] by simp
  qed
qed

lemma Last_Cell_last: "Set \<noteq> [] \<Longrightarrow> Last_Cell Set = Inr (length Set - 1)"
  by (induction Set rule: Last_Cell.induct) auto

lemma Allocate_Cell_ok:
  "FreeCells pool \<noteq> [] \<or> FREECELLSBLOCKSIZE \<le> length (CellMem pool) \<Longrightarrow>
   \<exists>NewCell pool'. Allocate_Cell pool = Inr (NewCell, pool')"
  by (auto simp: Allocate_Cell_def malloc_def FREECELLSBLOCKSIZE_def split: list.splits)

lemma Seed_over: "c\<lparr>Cell.R := uint (Pixel.R P), Cell.G := uint (Pixel.G P),
                   Cell.B := uint (Pixel.B P), Count := 1\<rparr> = Seed_Cell P"
  by (simp add: Seed_Cell_def)

lemma Add_Cell_append:
  assumes "Set \<noteq> []" "Count (last Set) \<ge> Cth"
    "FreeCells pool \<noteq> [] \<or> FREECELLSBLOCKSIZE \<le> length (CellMem pool)"
  shows "\<exists>pool'. Add_Cell P Set Cth pool = Inr (length Set, Set @ [Seed_Cell P], pool')"
proof -
  from Allocate_Cell_ok[OF assms(3)] obtain c p' where "Allocate_Cell pool = Inr (c, p')" by blast
  with assms(1,2) show ?thesis
    by (cases Set rule: rev_cases)
      (auto simp: Add_Cell_def Last_Cell_last last_conv_nth Seed_over)
qed

lemma Add_Cell_overwrite:
  assumes "Set \<noteq> []" "\<not> Count (last Set) \<ge> Cth"
  shows "Add_Cell P Set Cth pool = Inr (length Set - 1, butlast Set @ [Seed_Cell P], pool)"
  using assms
  by (cases Set rule: rev_cases)
     (auto simp: Add_Cell_def Last_Cell_last last_conv_nth Seed_over)

lemma sdiv_mult_self: "0 < k \<Longrightarrow> 0 \<le> a \<Longrightarrow> (k * a) sdiv k = (a::int)"
  by (cases "a = 0") (simp_all add: signed_divide_int_def sgn_mult abs_mult)

lemma Ratio_Near_Mode: "0 < k \<Longrightarrow> 0 \<le> Epsilon \<Longrightarrow> Ratio_Near A (Mode A k) Epsilon"
  by (simp add: Ratio_Near_def Mode_def sdiv_mult_self)

lemma Ratio_Near_Mode_iff: "0 < k \<Longrightarrow> Ratio_Near P (Mode A k) Epsilon \<longleftrightarrow>
     \<bar>uint (Pixel.R P) - uint (Pixel.R A)\<bar> \<le> Epsilon \<and>
     \<bar>uint (Pixel.G P) - uint (Pixel.G A)\<bar> \<le> Epsilon \<and>
     \<bar>uint (Pixel.B P) - uint (Pixel.B A)\<bar> \<le> Epsilon"
  by (simp add: Ratio_Near_def Mode_def sdiv_mult_self)

lemma Assimilate_Mode: "Assimilate A (Mode A k) = Mode A (k + 1)"
  by (simp add: Assimilate_def Mode_def algebra_simps)

lemma Seed_Mode: "Seed_Cell A = Mode A 1"
  by (simp add: Seed_Cell_def Mode_def)

lemma RMP_Mode: "0 < k \<Longrightarrow> 0 \<le> Epsilon \<Longrightarrow>
   Ratio_Match_Pixel A [Mode A k] Epsilon = Inr (Some 0, [Mode A (k + 1)])"
  by (simp add: Ratio_Near_Mode Assimilate_Mode) (simp add: Mode_def)

lemma RMP_Mode_far: "0 < k \<Longrightarrow> \<not> (\<bar>uint (Pixel.R P) - uint (Pixel.R A)\<bar> \<le> Epsilon \<and>
     \<bar>uint (Pixel.G P) - uint (Pixel.G A)\<bar> \<le> Epsilon \<and>
     \<bar>uint (Pixel.B P) - uint (Pixel.B A)\<bar> \<le> Epsilon) \<Longrightarrow>
   Ratio_Match_Pixel P [Mode A k] Epsilon = Inr (None, [Mode A k])"
  using Ratio_Near_Mode_iff[of k P A Epsilon] by (simp add: Mode_def)

text \<open>
  Claim C6. On a non-empty set (and with a cell obtainable from the pool), \<open>Add_Cell\<close>
  appends a new tail cell seeded with the pixel and count 1 exactly when the tail cell's
  count is at least \<open>Cth\<close>; otherwise it overwrites the tail cell with the pixel and
  count 1 and the length is unchanged. With \<open>Cth = 3\<close>: a single-cell set seeded with
  \<open>A\<close> matches \<open>A\<close> three times, a pixel \<open>B\<close> farther than \<open>Epsilon\<close> from
  \<open>A\<close> then matches nothing, and \<open>Add_Cell\<close> yields a set of length 2 whose tail is
  seeded with \<open>B\<close>.
\<close>

theorem Add_Cell_grows_or_recycles:
  assumes "Set \<noteq> []"
    and "FreeCells pool \<noteq> [] \<or> FREECELLSBLOCKSIZE \<le> length (CellMem pool)"
  shows "(Cth \<le> Count (last Set) \<longrightarrow>
            (\<exists>pool'. Add_Cell P Set Cth pool = Inr (length Set, Set @ [Seed_Cell P], pool')))
       \<and> (Count (last Set) < Cth \<longrightarrow>
            Add_Cell P Set Cth pool = Inr (length Set - 1, butlast Set @ [Seed_Cell P], pool))
       \<and> (\<forall>(A::Pixel) (B::Pixel) Epsilon. 0 \<le> Epsilon \<and>
             \<not> (\<bar>uint (Pixel.R B) - uint (Pixel.R A)\<bar> \<le> Epsilon \<and>
                \<bar>uint (Pixel.G B) - uint (Pixel.G A)\<bar> \<le> Epsilon \<and>
                \<bar>uint (Pixel.B B) - uint (Pixel.B A)\<bar> \<le> Epsilon) \<longrightarrow>
            (\<exists>s1 s2 s3 pool'.
               Ratio_Match_Pixel A [Seed_Cell A] Epsilon = Inr (Some 0, s1) \<and>
               Ratio_Match_Pixel A s1 Epsilon = Inr (Some 0, s2) \<and>
               Ratio_Match_Pixel A s2 Epsilon = Inr (Some 0, s3) \<and>
               Ratio_Match_Pixel B s3 Epsilon = Inr (None, s3) \<and>
               Add_Cell B s3 3 pool = Inr (1, s3 @ [Seed_Cell B], pool') \<and>
               Length (s3 @ [Seed_Cell B]) = 2))"
proof (intro conjI allI impI)
  assume "Cth \<le> Count (last Set)"
  with assms show "\<exists>pool'. Add_Cell P Set Cth pool = Inr (length Set, Set @ [Seed_Cell P], pool')"
    by (simp add: Add_Cell_append)
next
  assume "Count (last Set) < Cth"
  with assms show "Add_Cell P Set Cth pool = Inr (length Set - 1, butlast Set @ [Seed_Cell P], pool)"
    by (simp add: Add_Cell_overwrite)
next
  fix A B :: Pixel and Epsilon :: int
  assume h: "0 \<le> Epsilon \<and>
             \<not> (\<bar>uint (Pixel.R B) - uint (Pixel.R A)\<bar> \<le> Epsilon \<and>
                \<bar>uint (Pixel.G B) - uint (Pixel.G A)\<bar> \<le> Epsilon \<and>
                \<bar>uint (Pixel.B B) - uint (Pixel.B A)\<bar> \<le> Epsilon)"
  have m1: "Ratio_Match_Pixel A [Seed_Cell A] Epsilon = Inr (Some 0, [Mode A 2])"
    using RMP_Mode[of 1 Epsilon A] h by (simp add: Seed_Mode)
  have m2: "Ratio_Match_Pixel A [Mode A 2] Epsilon = Inr (Some 0, [Mode A 3])"
    using RMP_Mode[of 2 Epsilon A] h by simp
  have m3: "Ratio_Match_Pixel A [Mode A 3] Epsilon = Inr (Some 0, [Mode A 4])"
    using RMP_Mode[of 3 Epsilon A] h by simp
  have m4: "Ratio_Match_Pixel B [Mode A 4] Epsilon = Inr (None, [Mode A 4])"
    using RMP_Mode_far[of 4 B A Epsilon] h by simp
  have "Count (last [Mode A 4]) \<ge> 3" by (simp add: Mode_def)
  from Add_Cell_append[OF _ this assms(2), of B] obtain pool' where
    m5: "Add_Cell B [Mode A 4] 3 pool = Inr (1, [Mode A 4] @ [Seed_Cell B], pool')" by auto
  have m6: "Length ([Mode A 4] @ [Seed_Cell B]) = 2" by simp
  from m1 m2 m3 m4 m5 m6 show "\<exists>s1 s2 s3 pool'.
               Ratio_Match_Pixel A [Seed_Cell A] Epsilon = Inr (Some 0, s1) \<and>
               Ratio_Match_Pixel A s1 Epsilon = Inr (Some 0, s2) \<and>
               Ratio_Match_Pixel A s2 Epsilon = Inr (Some 0, s3) \<and>
               Ratio_Match_Pixel B s3 Epsilon = Inr (None, s3) \<and>
               Add_Cell B s3 3 pool = Inr (1, s3 @ [Seed_Cell B], pool') \<and>
               Length (s3 @ [Seed_Cell B]) = 2"
    by blast
qed

theorem Add_Cell_grows_or_recycles_witness:
  "Add_Cell \<lparr>Pixel.R = 9, G = 8, B = 7\<rparr> [\<lparr>Cell.R = 30, G = 30, B = 30, Count = 3\<rparr>] 3
      \<lparr>FreeCells = [\<lparr>Cell.R = 0, G = 0, B = 0, Count = 0\<rparr>], CellMem = []\<rparr>
    = Inr (1, [\<lparr>Cell.R = 30, G = 30, B = 30, Count = 3\<rparr>, \<lparr>Cell.R = 9, G = 8, B = 7, Count = 1\<rparr>],
           \<lparr>FreeCells = [], CellMem = []\<rparr>)
   \<and> Add_Cell \<lparr>Pixel.R = 9, G = 8, B = 7\<rparr> [\<lparr>Cell.R = 30, G = 30, B = 30, Count = 3\<rparr>] 4
      \<lparr>FreeCells = [\<lparr>Cell.R = 0, G = 0, B = 0, Count = 0\<rparr>], CellMem = []\<rparr>
    = Inr (0, [\<lparr>Cell.R = 9, G = 8, B = 7, Count = 1\<rparr>],
           \<lparr>FreeCells = [\<lparr>Cell.R = 0, G = 0, B = 0, Count = 0\<rparr>], CellMem = []\<rparr>)"
  (is "?a = ?ra \<and> ?b = ?rb")
proof -
  let ?Set = "[\<lparr>Cell.R = 30, G = 30, B = 30, Count = 3\<rparr>]"
  let ?pool = "\<lparr>FreeCells = [\<lparr>Cell.R = 0, G = 0, B = 0, Count = 0\<rparr>], CellMem = []\<rparr>"
  let ?P = "\<lparr>Pixel.R = 9, G = 8, B = 7\<rparr>"
  have pre: "?Set \<noteq> []" "FreeCells ?pool \<noteq> [] \<or> FREECELLSBLOCKSIZE \<le> length (CellMem ?pool)"
    by simp_all
  have grow: "3 \<le> Count (last ?Set) \<longrightarrow> (\<exists>pool'. ?a = Inr (length ?Set, ?Set @ [Seed_Cell ?P], pool'))"
    by (rule Add_Cell_grows_or_recycles[OF pre, of 3 ?P, THEN conjunct1])
  have keep: "Count (last ?Set) < 4 \<longrightarrow> ?b = Inr (length ?Set - 1, butlast ?Set @ [Seed_Cell ?P], ?pool)"
    by (rule Add_Cell_grows_or_recycles[OF pre, of 4 ?P, THEN conjunct2, THEN conjunct1])
  have a: "?a = ?ra"
    by (simp add: Add_Cell_def Allocate_Cell_def)
  from keep have b: "?b = ?rb"
    by (simp add: Seed_Cell_def)
  from grow a b show ?thesis by simp
qed

theorem Ratio_Match_Pixel_zero_count_counterexample:
  "Decimate_BGM [[\<lparr>Cell.R = 10, G = 10, B = 10, Count = 1\<rparr>]] 1 1 \<lparr>FreeCells = [], CellMem = []\<rparr>
     = Inr ([[\<lparr>Cell.R = 5, G = 5, B = 5, Count = 0\<rparr>]], \<lparr>FreeCells = [], CellMem = []\<rparr>, 0) \<and>
   Ratio_Match_Pixel \<lparr>Pixel.R = 5, G = 5, B = 5\<rparr> [\<lparr>Cell.R = 5, G = 5, B = 5, Count = 0\<rparr>] 1
     = Inl DivByZero"
  by code_simp

theorem Ratio_Match_Pixel_cube_first_match_witness:
  "Ratio_Match_Pixel \<lparr>Pixel.R = 10, G = 10, B = 10\<rparr>
      [\<lparr>Cell.R = 200, G = 200, B = 200, Count = 2\<rparr>, \<lparr>Cell.R = 27, G = 30, B = 33, Count = 3\<rparr>,
       \<lparr>Cell.R = 10, G = 10, B = 10, Count = 1\<rparr>] 1
   = Inr (Some 1, [\<lparr>Cell.R = 200, G = 200, B = 200, Count = 2\<rparr>,
                   \<lparr>Cell.R = 37, G = 40, B = 43, Count = 4\<rparr>,
                   \<lparr>Cell.R = 10, G = 10, B = 10, Count = 1\<rparr>])
   \<and> Ratio_Match_Pixel \<lparr>Pixel.R = 10, G = 10, B = 10\<rparr>
      [\<lparr>Cell.R = 200, G = 200, B = 200, Count = 2\<rparr>] 1
   = Inr (None, [\<lparr>Cell.R = 200, G = 200, B = 200, Count = 2\<rparr>])
   \<and> Ratio_Match_Pixel \<lparr>Pixel.R = 10, G = 10, B = 10\<rparr>
      [\<lparr>Cell.R = 200, G = 200, B = 200, Count = 2\<rparr>, \<lparr>Cell.R = 10, G = 10, B = 10, Count = 0\<rparr>] 1
   = Inl DivByZero"
  (is "?a = ?ra \<and> ?b = ?rb \<and> ?c = ?rc")
proof -
  let ?P = "\<lparr>Pixel.R = 10, G = 10, B = 10\<rparr>"
  let ?ca = "\<lparr>Cell.R = 200, G = 200, B = 200, Count = 2\<rparr>"
  let ?cb = "\<lparr>Cell.R = 27, G = 30, B = 33, Count = 3\<rparr>"
  let ?cc = "\<lparr>Cell.R = 10, G = 10, B = 10, Count = 1\<rparr>"
  let ?cz = "\<lparr>Cell.R = 10, G = 10, B = 10, Count = 0\<rparr>"
  have a: "?a = ?ra"
    using Ratio_Match_Pixel_cube_first_match[of "[?ca, ?cb, ?cc]" ?P 1, THEN conjunct1,
        THEN spec, of 1]
    by simp
  have b: "?b = ?rb"
    using Ratio_Match_Pixel_cube_first_match[of "[?ca]" ?P 1, THEN conjunct2, THEN conjunct1]
    by simp
  have c: "?c = ?rc"
    using Ratio_Match_Pixel_cube_first_match[of "[?ca, ?cz]" ?P 1, THEN conjunct2, THEN conjunct2,
        THEN spec, of 1]
    by simp
  from a b c show ?thesis by blast
qed

lemma Decimate_Set_not_head:
  "Decimate_Set Cth False Set pool Freed =
     (filter (\<lambda>c. \<not> Count c < Cth) (Spec_Halved Cth Set),
      pool\<lparr>FreeCells := rev (filter (\<lambda>c. Count c < Cth) (Spec_Halved Cth Set)) @ FreeCells pool\<rparr>,
      Freed + int (length (filter (\<lambda>c. Count c < Cth) (Spec_Halved Cth Set))))"
  by (induction Set arbitrary: pool Freed)
     (auto simp: Spec_Halved_def Free_Cell_def Let_def)

lemma len_butlast: "H \<noteq> [] \<Longrightarrow> 1 + int (length H - Suc 0) = int (length H)"
  by (cases H) auto

lemma Decimate_Set_head:
  "Decimate_Set Cth True Set pool Freed =
     (Spec_Kept Cth Set,
      pool\<lparr>FreeCells := rev (Spec_Evicted Cth Set) @ FreeCells pool\<rparr>,
      Freed + int (length (Spec_Evicted Cth Set)))"
proof (induction Set arbitrary: pool Freed)
  case Nil
  show ?case by (simp add: Spec_Kept_def Spec_Evicted_def Spec_Halved_def)
next
  case (Cons c Set)
  let ?C = "if Cth \<le> Count c then Halve c else c"
  have H: "Spec_Halved Cth (c # Set) = ?C # Spec_Halved Cth Set"
    by (simp add: Spec_Halved_def)
  have Hnil: "Spec_Halved Cth Set = [] \<longleftrightarrow> Set = []"
    by (simp add: Spec_Halved_def)
  show ?case
  proof (cases "Count ?C < Cth")
    case low: True
    show ?thesis
    proof (cases "Set = []")
      case True
      with low show ?thesis
        by (simp add: Spec_Kept_def Spec_Evicted_def Spec_Halved_def Let_def)
    next
      case False
      have "Decimate_Set Cth True (c # Set) pool Freed
            = Decimate_Set Cth True Set (Free_Cell ?C pool) (Freed + 1)"
        using low False by (simp add: Let_def)
      also have "\<dots> = (Spec_Kept Cth Set,
          (Free_Cell ?C pool)\<lparr>FreeCells := rev (Spec_Evicted Cth Set) @ FreeCells (Free_Cell ?C pool)\<rparr>,
          Freed + 1 + int (length (Spec_Evicted Cth Set)))"
        by (rule Cons.IH)
      finally show ?thesis
        using low False Hnil len_butlast[of "Spec_Halved Cth Set"]
        by (auto simp: Spec_Kept_def Spec_Evicted_def H Let_def Free_Cell_def)
    qed
  next
    case high: False
    then have "Decimate_Set Cth True (c # Set) pool Freed
            = (case Decimate_Set Cth False Set pool Freed of
                 (Kept, pool', Freed') \<Rightarrow> (?C # Kept, pool', Freed'))"
      by (simp add: Let_def)
    with high show ?thesis
      by (simp add: Decimate_Set_not_head Spec_Kept_def Spec_Evicted_def H Let_def)
  qed
qed

lemma Spec_Kept_nonempty: "Set \<noteq> [] \<Longrightarrow> Spec_Kept Cth Set \<noteq> []"
  by (simp add: Spec_Kept_def Spec_Halved_def Let_def)

lemma Decimate_BGM_loop_eq:
  "I \<le> nat NumSets \<Longrightarrow> nat NumSets \<le> length BGM \<Longrightarrow>
   Decimate_BGM_loop BGM Cth NumSets I pool Freed =
     Inr (take I BGM @ map (Spec_Kept Cth) (take (nat NumSets - I) (drop I BGM)) @ drop (nat NumSets) BGM,
          pool\<lparr>FreeCells := rev (concat (map (Spec_Evicted Cth) (take (nat NumSets - I) (drop I BGM))))
                             @ FreeCells pool\<rparr>,
          Freed + int (length (concat (map (Spec_Evicted Cth) (take (nat NumSets - I) (drop I BGM))))))"
proof (induction BGM Cth NumSets I pool Freed rule: Decimate_BGM_loop.induct)
  case (1 BGM Cth NumSets I pool Freed)
  show ?case
  proof (cases "int I < NumSets")
    case False
    with "1.prems" have "nat NumSets = I" by simp
    with False show ?thesis
      by (subst Decimate_BGM_loop.simps) simp
  next
    case True
    with "1.prems" have I: "I < length BGM" "Suc I \<le> nat NumSets" by auto
    let ?K = "Spec_Kept Cth (BGM ! I)"
    let ?p = "pool\<lparr>FreeCells := rev (Spec_Evicted Cth (BGM ! I)) @ FreeCells pool\<rparr>"
    let ?F = "Freed + int (length (Spec_Evicted Cth (BGM ! I)))"
    have step: "Decimate_BGM_loop BGM Cth NumSets I pool Freed
                = Decimate_BGM_loop (BGM[I := ?K]) Cth NumSets (Suc I) ?p ?F"
      using True I by (subst Decimate_BGM_loop.simps) (simp add: Decimate_Set_head)
    have IH: "Decimate_BGM_loop (BGM[I := ?K]) Cth NumSets (Suc I) ?p ?F =
       Inr (take (Suc I) (BGM[I := ?K]) @
             map (Spec_Kept Cth) (take (nat NumSets - Suc I) (drop (Suc I) (BGM[I := ?K]))) @
             drop (nat NumSets) (BGM[I := ?K]),
            ?p\<lparr>FreeCells := rev (concat (map (Spec_Evicted Cth)
                   (take (nat NumSets - Suc I) (drop (Suc I) (BGM[I := ?K]))))) @ FreeCells ?p\<rparr>,
            ?F + int (length (concat (map (Spec_Evicted Cth)
                   (take (nat NumSets - Suc I) (drop (Suc I) (BGM[I := ?K])))))))"
      using True I "1.prems"
      by (intro "1.IH"[OF True I(1) Decimate_Set_head[symmetric] refl]) simp_all
    have d: "drop I BGM = BGM ! I # drop (Suc I) BGM"
      using I by (simp add: Cons_nth_drop_Suc)
    have t: "take (nat NumSets - I) (drop I BGM) = BGM ! I # take (nat NumSets - Suc I) (drop (Suc I) BGM)"
    proof -
      from I have "nat NumSets - I = Suc (nat NumSets - Suc I)" by simp
      then show ?thesis by (simp add: d)
    qed
    have u1: "take (Suc I) (BGM[I := ?K]) = take I BGM @ [?K]"
      using I by (simp add: take_Suc_conv_app_nth)
    have u2: "drop (Suc I) (BGM[I := ?K]) = drop (Suc I) BGM" by simp
    have u3: "drop (nat NumSets) (BGM[I := ?K]) = drop (nat NumSets) BGM"
      using I by simp
    show ?thesis
      unfolding step IH t u1 u2 u3 by simp
  qed
qed

lemma Halve_div2:
  "Halve c = \<lparr>Cell.R = Cell.R c div 2, Cell.G = Cell.G c div 2, Cell.B = Cell.B c div 2,
              Count = Count c div 2\<rparr>"
  by (simp add: Halve_def drop_bit_eq_div)

text \<open>
  Claim C5. \<open>Decimate_BGM\<close> on the first \<open>NumSets\<close> slots of a model: in every slot
  each cell whose count is at least \<open>Cth\<close> has its three sums and its count halved
  (floor division by 2); a cell whose count is then below \<open>Cth\<close> is evicted and pushed
  on the free list, unless it is the sole remaining cell of its slot; the value returned is
  the number of cells evicted.
\<close>

theorem Decimate_BGM_halves_and_evicts:
  assumes "nat NumSets \<le> length BGM"
  shows "Decimate_BGM BGM Cth NumSets pool =
     Inr (map (Spec_Kept Cth) (take (nat NumSets) BGM) @ drop (nat NumSets) BGM,
          pool\<lparr>FreeCells := rev (concat (map (Spec_Evicted Cth) (take (nat NumSets) BGM)))
                             @ FreeCells pool\<rparr>,
          int (length (concat (map (Spec_Evicted Cth) (take (nat NumSets) BGM)))))
     \<and> Halve c = \<lparr>Cell.R = Cell.R c div 2, Cell.G = Cell.G c div 2, Cell.B = Cell.B c div 2,
                    Count = Count c div 2\<rparr>"
  using Decimate_BGM_loop_eq[of 0 NumSets BGM Cth pool 0] assms
  by (simp add: Decimate_BGM_def Halve_div2)

lemma Decimate_BGM_nonempty:
  assumes "nat NumSets \<le> length BGM" "\<forall>S\<in>set BGM. S \<noteq> []"
  shows "\<exists>BGM' pool' Freed. Decimate_BGM BGM Cth NumSets pool = Inr (BGM', pool', Freed)
           \<and> length BGM' = length BGM \<and> (\<forall>S\<in>set BGM'. S \<noteq> [])"
proof -
  let ?B = "map (Spec_Kept Cth) (take (nat NumSets) BGM) @ drop (nat NumSets) BGM"
  have "\<forall>S\<in>set ?B. S \<noteq> []"
  proof
    fix S assume "S \<in> set ?B"
    then consider T where "T \<in> set (take (nat NumSets) BGM)" "S = Spec_Kept Cth T"
      | "S \<in> set (drop (nat NumSets) BGM)" by auto
    then show "S \<noteq> []"
    proof cases
      case 1
      then have "T \<in> set BGM" by (auto dest: in_set_takeD)
      with assms(2) 1 show ?thesis by (simp add: Spec_Kept_nonempty)
    next
      case 2
      then have "S \<in> set BGM" by (auto dest: in_set_dropD)
      with assms(2) show ?thesis by simp
    qed
  qed
  moreover have "length ?B = length BGM" using assms(1) by simp
  ultimately show ?thesis
    using Decimate_BGM_loop_eq[of 0 NumSets BGM Cth pool 0] assms(1)
    by (simp add: Decimate_BGM_def)
qed

lemma Length_length: "Length S = int (length S)"
  by (induction S) auto

text \<open>
  Claim C1. If every slot of the model holds at least one cell, then after any sequence
  of calls of \<open>Decimate_BGM\<close> (any thresholds, any number of calls) every slot still
  holds at least one cell: the sole remaining cell of a slot is never evicted.
\<close>

theorem Decimate_BGM_never_empties:
  assumes "nat NumSets \<le> length BGM" and "\<forall>S\<in>set BGM. 1 \<le> Length S"
  shows "\<exists>BGM' pool'. Decimate_Repeat BGM Cths NumSets pool = Inr (BGM', pool')
           \<and> length BGM' = length BGM \<and> (\<forall>S\<in>set BGM'. 1 \<le> Length S)"
  using assms
proof (induction Cths arbitrary: BGM pool)
  case Nil
  then show ?case by simp
next
  case (Cons Cth Cths)
  from Cons.prems have ne: "\<forall>S\<in>set BGM. S \<noteq> []" by (auto simp: Length_length)
  from Decimate_BGM_nonempty[OF Cons.prems(1) ne, of Cth pool]
  obtain B1 p1 F1 where s: "Decimate_BGM BGM Cth NumSets pool = Inr (B1, p1, F1)"
    and l: "length B1 = length BGM" and n: "\<forall>S\<in>set B1. S \<noteq> []" by blast
  from n have n': "\<forall>S\<in>set B1. 1 \<le> Length S"
    by (auto simp: Length_length Suc_le_eq)
  from Cons.IH[of B1 p1] Cons.prems(1) l n' s show ?case by simp
qed

theorem Decimate_BGM_halves_and_evicts_witness:
  "Decimate_BGM [[\<lparr>Cell.R = 80, G = 81, B = 83, Count = 8\<rparr>, \<lparr>Cell.R = 5, G = 5, B = 5, Count = 1\<rparr>],
                 [\<lparr>Cell.R = 20, G = 20, B = 20, Count = 2\<rparr>]] 4 2 \<lparr>FreeCells = [], CellMem = []\<rparr>
   = Inr ([[\<lparr>Cell.R = 40, G = 40, B = 41, Count = 4\<rparr>], [\<lparr>Cell.R = 20, G = 20, B = 20, Count = 2\<rparr>]],
          \<lparr>FreeCells = [\<lparr>Cell.R = 5, G = 5, B = 5, Count = 1\<rparr>], CellMem = []\<rparr>, 1)"
  using Decimate_BGM_halves_and_evicts[of 2
      "[[\<lparr>Cell.R = 80, G = 81, B = 83, Count = 8\<rparr>, \<lparr>Cell.R = 5, G = 5, B = 5, Count = 1\<rparr>],
                 [\<lparr>Cell.R = 20, G = 20, B = 20, Count = 2\<rparr>]]" 4 "\<lparr>FreeCells = [], CellMem = []\<rparr>"]
  by (simp add: Spec_Kept_def Spec_Evicted_def Spec_Halved_def Halve_def drop_bit_eq_div)


theorem Decimate_BGM_never_empties_witness:
  "Decimate_Repeat [[\<lparr>Cell.R = 80, G = 81, B = 83, Count = 8\<rparr>, \<lparr>Cell.R = 5, G = 5, B = 5, Count = 1\<rparr>],
                 [\<lparr>Cell.R = 20, G = 20, B = 20, Count = 2\<rparr>]] [4, 4, 100] 2 \<lparr>FreeCells = [], CellMem = []\<rparr>
     = Inr ([[\<lparr>Cell.R = 20, G = 20, B = 20, Count = 2\<rparr>], [\<lparr>Cell.R = 20, G = 20, B = 20, Count = 2\<rparr>]],
            \<lparr>FreeCells = [\<lparr>Cell.R = 5, G = 5, B = 5, Count = 1\<rparr>], CellMem = []\<rparr>)
   \<and> 1 \<le> Length [\<lparr>Cell.R = 20, G = 20, B = 20, Count = 2\<rparr>]"
  (is "?run = Inr (?B, ?p) \<and> ?ne")
proof -
  have pre: "nat 2 \<le> length [[\<lparr>Cell.R = 80, G = 81, B = 83, Count = 8\<rparr>, \<lparr>Cell.R = 5, G = 5, B = 5, Count = 1\<rparr>],
                 [\<lparr>Cell.R = 20, G = 20, B = 20, Count = 2\<rparr>]]"
       "\<forall>S\<in>set [[\<lparr>Cell.R = 80, G = 81, B = 83, Count = 8\<rparr>, \<lparr>Cell.R = 5, G = 5, B = 5, Count = 1\<rparr>],
                 [\<lparr>Cell.R = 20, G = 20, B = 20, Count = 2\<rparr>]]. 1 \<le> Length S"
    by simp_all
  from Decimate_BGM_never_empties[OF pre, of "[4, 4, 100]" "\<lparr>FreeCells = [], CellMem = []\<rparr>"]
  obtain B' p' where r: "?run = Inr (B', p')" and n: "\<forall>S\<in>set B'. 1 \<le> Length S" by blast
  have "?run = Inr (?B, ?p)"
    by (simp add: Decimate_BGM_def Halve_def Free_Cell_def drop_bit_eq_div)
  with r n show ?thesis by simp
qed

lemma FG_loop_frame:
  "Process_Frame_FG_loop BGM FB Epsilon Cth J pool = Inr (BGM', FB', pool') \<Longrightarrow>
   length BGM' = length BGM \<and> length (Frm FB') = length (Frm FB) \<and>
   Width FB' = Width FB \<and> Height FB' = Height FB \<and>
   (\<forall>i<J. BGM' ! i = BGM ! i \<and> Frm FB' ! i = Frm FB ! i)"
proof (induction BGM FB Epsilon Cth J pool rule: Process_Frame_FG_loop.induct)
  case (1 BGM FB Epsilon Cth I pool)
  show ?case
  proof (cases "int I < Width FB * Height FB")
    case False
    with "1.prems" show ?thesis by (subst (asm) Process_Frame_FG_loop.simps) simp
  next
    case True
    from "1.prems" True have inb: "I < length (Frm FB) \<and> I < length BGM"
      by (subst (asm) Process_Frame_FG_loop.simps) (simp split: if_splits)
    from "1.prems" True inb obtain P Set p1 where
      body: "FG_Pixel (Frm FB ! I) (BGM ! I) Epsilon Cth pool = Inr (P, Set, p1)"
      and rest: "Process_Frame_FG_loop (BGM[I := Set]) (FB\<lparr>Frm := (Frm FB)[I := P]\<rparr>)
                  Epsilon Cth (Suc I) p1 = Inr (BGM', FB', pool')"
      by (subst (asm) Process_Frame_FG_loop.simps) (auto split: sum.splits)
    from "1.IH"[OF True inb body refl refl rest] show ?thesis
      by (auto simp: nth_list_update)
  qed
qed

lemma FG_loop_pixel:
  "Process_Frame_FG_loop BGM FB Epsilon Cth J pool = Inr (BGM', FB', pool') \<Longrightarrow>
   J \<le> I \<Longrightarrow> int I < Width FB * Height FB \<Longrightarrow>
   \<exists>p p'. FG_Pixel (Frm FB ! I) (BGM ! I) Epsilon Cth p = Inr (Frm FB' ! I, BGM' ! I, p')"
proof (induction BGM FB Epsilon Cth J pool rule: Process_Frame_FG_loop.induct)
  case (1 BGM FB Epsilon Cth J pool)
  from "1.prems" have True: "int J < Width FB * Height FB" by simp
  from "1.prems"(1) True have inb: "J < length (Frm FB) \<and> J < length BGM"
    by (subst (asm) Process_Frame_FG_loop.simps) (simp split: if_splits)
  from "1.prems"(1) True inb obtain P Set p1 where
    body: "FG_Pixel (Frm FB ! J) (BGM ! J) Epsilon Cth pool = Inr (P, Set, p1)"
    and rest: "Process_Frame_FG_loop (BGM[J := Set]) (FB\<lparr>Frm := (Frm FB)[J := P]\<rparr>)
                Epsilon Cth (Suc J) p1 = Inr (BGM', FB', pool')"
    by (subst (asm) Process_Frame_FG_loop.simps) (auto split: sum.splits)
  show ?case
  proof (cases "J = I")
    case True
    from FG_loop_frame[OF rest] inb have "BGM' ! I = Set" "Frm FB' ! I = P"
      by (auto simp: True)
    with body True show ?thesis by auto
  next
    case False
    with "1.prems" have "Suc J \<le> I" by simp
    from "1.IH"[OF True inb body refl refl rest this] "1.prems"(3) False
    show ?thesis by simp
  qed
qed

text \<open>
  Claim C9, as the code has it. For every pixel of a frame processed by
  \<open>Process_Frame_FG\<close>: if the pixel matches a cell of its slot's set, the set is the one
  left by the match, and the pixel is zeroed exactly when the matched cell's count (after
  the increment) is at least \<open>Cth\<close>, otherwise it is left unchanged; if it matches no
  cell, the pixel is unchanged and \<open>Add_Cell\<close> has been applied to the slot's set.
\<close>

theorem Process_Frame_FG_pixel:
  assumes "Process_Frame_FG BGM FB Epsilon Cth pool = Inr (BGM', FB', pool')"
    and "int I < Width FB * Height FB"
  shows "case Ratio_Match_Pixel (Frm FB ! I) (BGM ! I) Epsilon of
           Inl e \<Rightarrow> False
         | Inr (None, Set) \<Rightarrow>
             Frm FB' ! I = Frm FB ! I \<and>
             (\<exists>p p' k. Add_Cell (Frm FB ! I) Set Cth p = Inr (k, BGM' ! I, p'))
         | Inr (Some k, Set) \<Rightarrow>
             BGM' ! I = Set \<and>
             Frm FB' ! I = (if Cth \<le> Count (Set ! k)
                            then (Frm FB ! I)\<lparr>Pixel.R := 0, Pixel.G := 0, Pixel.B := 0\<rparr>
                            else Frm FB ! I)"
proof -
  from FG_loop_pixel[OF assms(1)[unfolded Process_Frame_FG_def] _ assms(2)]
  obtain p p' where "FG_Pixel (Frm FB ! I) (BGM ! I) Epsilon Cth p = Inr (Frm FB' ! I, BGM' ! I, p')"
    by auto
  then show ?thesis
    by (auto simp: FG_Pixel_def split: sum.splits option.splits if_splits) blast
qed


text \<open>
  A pixel that matches a cell whose count stays below \<open>Cth\<close> is not zeroed: the single
  pixel \<open>(10,10,10)\<close> matches the only cell of its slot (count 1, then 2) with
  \<open>Cth = 3\<close> and is still \<open>(10,10,10)\<close> in the frame afterwards.
\<close>

theorem Process_Frame_FG_immature_match_counterexample:
  "Ratio_Match_Pixel \<lparr>Pixel.R = 10, G = 10, B = 10\<rparr> [\<lparr>Cell.R = 10, G = 10, B = 10, Count = 1\<rparr>] 0
     = Inr (Some 0, [\<lparr>Cell.R = 20, G = 20, B = 20, Count = 2\<rparr>])
   \<and> Process_Frame_FG [[\<lparr>Cell.R = 10, G = 10, B = 10, Count = 1\<rparr>]]
      \<lparr>Frm = [\<lparr>Pixel.R = 10, G = 10, B = 10\<rparr>], Height = 1, Width = 1\<rparr> 0 3
      \<lparr>FreeCells = [], CellMem = []\<rparr>
     = Inr ([[\<lparr>Cell.R = 20, G = 20, B = 20, Count = 2\<rparr>]],
            \<lparr>Frm = [\<lparr>Pixel.R = 10, G = 10, B = 10\<rparr>], Height = 1, Width = 1\<rparr>,
            \<lparr>FreeCells = [], CellMem = []\<rparr>)
   \<and> \<lparr>Pixel.R = 10, G = 10, B = 10\<rparr> \<noteq> \<lparr>Pixel.R = 0, G = 0, B = 0\<rparr>"
  by (simp add: Process_Frame_FG_def FG_Pixel_def Ratio_Near_def Assimilate_def signed_divide_int_def)

theorem Process_Frame_FG_pixel_witness:
  "Process_Frame_FG [[\<lparr>Cell.R = 30, G = 30, B = 30, Count = 3\<rparr>], [\<lparr>Cell.R = 30, G = 30, B = 30, Count = 3\<rparr>]]
      \<lparr>Frm = [\<lparr>Pixel.R = 10, G = 10, B = 10\<rparr>, \<lparr>Pixel.R = 90, G = 10, B = 10\<rparr>], Height = 1, Width = 2\<rparr> 0 3
      \<lparr>FreeCells = [\<lparr>Cell.R = 0, G = 0, B = 0, Count = 0\<rparr>], CellMem = []\<rparr>
     = Inr ([[\<lparr>Cell.R = 40, G = 40, B = 40, Count = 4\<rparr>],
             [\<lparr>Cell.R = 30, G = 30, B = 30, Count = 3\<rparr>, \<lparr>Cell.R = 90, G = 10, B = 10, Count = 1\<rparr>]],
            \<lparr>Frm = [\<lparr>Pixel.R = 0, G = 0, B = 0\<rparr>, \<lparr>Pixel.R = 90, G = 10, B = 10\<rparr>], Height = 1, Width = 2\<rparr>,
            \<lparr>FreeCells = [], CellMem = []\<rparr>)"
  (is "?run = Inr (?B, ?F, ?p)")
proof -
  have run: "?run = Inr (?B, ?F, ?p)"
    by (simp add: Process_Frame_FG_def FG_Pixel_def Ratio_Near_def Assimilate_def
        signed_divide_int_def Add_Cell_def Allocate_Cell_def)
  from Process_Frame_FG_pixel[OF run, of 0] Process_Frame_FG_pixel[OF run, of 1]
  show ?thesis using run by simp
qed

section \<open>Verified properties: blob finding\<close>

lemma For_Each_append:
  "For_Each body (xs @ ys) s =
     (case For_Each body xs s of Inl e \<Rightarrow> Inl e | Inr s' \<Rightarrow> For_Each body ys s')"
  by (induction xs arbitrary: s) (auto split: sum.splits)

text \<open>
  Claim C3 fails on the code. \<open>Merge_Blobs\<close> compares \<open>Blob1->Xreg\<close> with
  \<open>Blob2->Yreg\<close> where the upper-left test needs \<open>Blob2->Xreg\<close>. Merging a blob
  registered at \<open>(2,3)\<close> into one registered at \<open>(0,3)\<close> replaces the smaller point
  \<open>(0,3)\<close> by \<open>(2,3)\<close>, and \<open>Blob_Finder\<close> reaches this on a map whose row 3 is
  \<open>1 0 1\<close> and whose row 4 is \<open>1 1 1\<close>: the one blob it returns is registered at
  \<open>(2,3)\<close>.
\<close>

theorem Merge_Blobs_registration_slip:
  "Xreg (Merge_Blobs 1 2 5 ((\<lambda>a. Blank)(1 := Blank\<lparr>Xreg := 2, Yreg := 3\<rparr>,
                                         2 := Blank\<lparr>Xreg := 0, Yreg := 3\<rparr>)) 2) = 2
   \<and> Found (Blob_Finder [0,0,0, 0,0,0, 0,0,0, 1,0,1, 1,1,1] 3 5 1 Pool0)
       = Inr ([1], [\<lparr>ID = 1, Xsum = 5, Ysum = 18, Xmin = 0, Ymin = 3, Xmax = 2, Ymax = 4,
                     Blob.Count = 5, Xreg = 2, Yreg = 3, Expire = - 1, FP = None\<rparr>])"
  by code_simp

subsection \<open>Forwarding chains and the invariant of the scan\<close>

lemma resolves_Reduce_FP:
  "resolves h b r \<Longrightarrow> Reduce_FP h b = Some r \<and> FP (h r) = None"
proof (induction rule: resolves.induct)
  case (root b)
  then show ?case by (subst Reduce_FP.simps) simp
next
  case (fwd b c r)
  then show ?case by (subst Reduce_FP.simps) simp
qed

lemma resolves_in:
  assumes "resolves h b r" "b \<in> A" "\<forall>b\<in>A. \<forall>c. FP (h b) = Some c \<longrightarrow> c \<in> A"
  shows "r \<in> A"
  using assms by (induction rule: resolves.induct) auto

lemma resolves_frame:
  assumes "resolves h b r" "b \<in> A" "\<forall>b\<in>A. \<forall>c. FP (h b) = Some c \<longrightarrow> c \<in> A"
    and "\<forall>x\<in>A. FP (h' x) = FP (h x)"
  shows "resolves h' b r"
  using assms
proof (induction rule: resolves.induct)
  case (root b)
  then show ?case by (auto intro: resolves.root)
next
  case (fwd b c r)
  then have "c \<in> A" "FP (h' b) = Some c" by auto
  with fwd show ?case by (auto intro: resolves.fwd)
qed

lemma resolves_merge:
  assumes "resolves h b r" "FP (h c) = None" "FP (h t) = None" "c \<noteq> t"
    and "\<forall>x. FP (h' x) = (if x = c then Some t else FP (h x))"
  shows "resolves h' b (if r = c then t else r)"
  using assms
proof (induction rule: resolves.induct)
  case (root b)
  show ?case
  proof (cases "b = c")
    case True
    from root have "FP (h' t) = None" by simp
    then have "resolves h' t t" by (rule resolves.root)
    moreover from root True have "FP (h' b) = Some t" by simp
    ultimately show ?thesis using True by (auto intro: resolves.fwd)
  next
    case False
    with root have "FP (h' b) = None" by simp
    with False show ?thesis by (auto intro: resolves.root)
  qed
next
  case (fwd b d r)
  then have "b \<noteq> c" by auto
  with fwd have "FP (h' b) = Some d" by simp
  with fwd show ?case by (auto intro: resolves.fwd)
qed

lemma Linked_closed: "Linked h A \<Longrightarrow> \<forall>b\<in>A. \<forall>c. FP (h b) = Some c \<longrightarrow> c \<in> A"
  unfolding Linked_def by blast

lemma Linked_resolves: "Linked h A \<Longrightarrow> b \<in> A \<Longrightarrow> \<exists>r. resolves h b r"
  unfolding Linked_def by blast

lemma Linked_Reduce_FP:
  assumes "Linked h A" "b \<in> A"
  shows "\<exists>r\<in>A. Reduce_FP h b = Some r \<and> FP (h r) = None"
proof -
  from Linked_resolves[OF assms] obtain r where r: "resolves h b r" ..
  from resolves_in[OF r assms(2) Linked_closed[OF assms(1)]] have "r \<in> A" .
  moreover from resolves_Reduce_FP[OF r] have "Reduce_FP h b = Some r \<and> FP (h r) = None" .
  ultimately show ?thesis ..
qed

lemma Linked_target: "Linked h A \<Longrightarrow> b \<in> A \<Longrightarrow> FP (h b) = Some c \<Longrightarrow> c \<in> A \<and> c \<noteq> b"
  unfolding Linked_def by blast

lemma LinkedI:
  assumes "\<And>b c. b \<in> A \<Longrightarrow> FP (h b) = Some c \<Longrightarrow> c \<in> A \<and> c \<noteq> b"
    and "\<And>b. b \<in> A \<Longrightarrow> \<exists>r. resolves h b r"
  shows "Linked h A"
  unfolding Linked_def using assms by blast

lemma Linked_frame:
  assumes "Linked h A" "\<forall>x\<in>A. FP (h' x) = FP (h x)"
  shows "Linked h' A"
proof (rule LinkedI)
  fix b c assume b: "b \<in> A" and f: "FP (h' b) = Some c"
  from b assms(2) f have "FP (h b) = Some c" by simp
  from Linked_target[OF assms(1) b this] show "c \<in> A \<and> c \<noteq> b" .
next
  fix b assume b: "b \<in> A"
  from Linked_resolves[OF assms(1) b] obtain r where "resolves h b r" ..
  from resolves_frame[OF this b Linked_closed[OF assms(1)] assms(2)] show "\<exists>r. resolves h' b r" ..
qed

lemma Linked_merge:
  assumes "Linked h A" "c \<in> A" "t \<in> A" "FP (h c) = None" "FP (h t) = None" "c \<noteq> t"
    and "\<forall>x. FP (h' x) = (if x = c then Some t else FP (h x))"
  shows "Linked h' A"
proof (rule LinkedI)
  fix b d assume b: "b \<in> A" and f: "FP (h' b) = Some d"
  show "d \<in> A \<and> d \<noteq> b"
  proof (cases "b = c")
    case True
    with f assms(7) have "d = t" by simp
    with True assms(3,6) show ?thesis by simp
  next
    case False
    with f assms(7) have "FP (h b) = Some d" by simp
    from Linked_target[OF assms(1) b this] show ?thesis .
  qed
next
  fix b assume b: "b \<in> A"
  from Linked_resolves[OF assms(1) b] obtain r where "resolves h b r" ..
  from resolves_merge[OF this assms(4,5,6,7)] show "\<exists>r. resolves h' b r" ..
qed

lemma Linked_insert:
  assumes "Linked h A" "a \<notin> A" "FP (h' a) = None" "\<forall>x\<in>A. FP (h' x) = FP (h x)"
  shows "Linked h' (insert a A)"
proof (rule LinkedI)
  from Linked_frame[OF assms(1,4)] have L: "Linked h' A" .
  {
    fix b c assume b: "b \<in> insert a A" and f: "FP (h' b) = Some c"
    from b f assms(3) have bA: "b \<in> A" by auto
    from Linked_target[OF L bA f] show "c \<in> insert a A \<and> c \<noteq> b" by simp
  next
    fix b assume b: "b \<in> insert a A"
    show "\<exists>r. resolves h' b r"
    proof (cases "b = a")
      case True
      with assms(3) have "resolves h' b b" by (simp add: resolves.root)
      then show ?thesis ..
    next
      case False
      with b have "b \<in> A" by simp
      from Linked_resolves[OF L this] show ?thesis .
    qed
  }
qed

lemma Linked_subset:
  assumes "Linked h A" "A' \<subseteq> A" "\<forall>b\<in>A'. \<forall>c. FP (h b) = Some c \<longrightarrow> c \<in> A'"
  shows "Linked h A'"
proof (rule LinkedI)
  fix b c assume b: "b \<in> A'" and f: "FP (h b) = Some c"
  from b assms(2) have bA: "b \<in> A" by blast
  from Linked_target[OF assms(1) bA f] assms(3) b f show "c \<in> A' \<and> c \<noteq> b" by blast
next
  fix b assume "b \<in> A'"
  with assms(2) have "b \<in> A" by blast
  from Linked_resolves[OF assms(1) this] show "\<exists>r. resolves h b r" .
qed

lemma Stamped_frame:
  assumes "Stamped h A Y" "\<forall>x\<in>A. FP (h' x) = FP (h x) \<and> Expire (h' x) = Expire (h x)"
    and "\<forall>b\<in>A. \<forall>c. FP (h b) = Some c \<longrightarrow> c \<in> A"
  shows "Stamped h' A Y"
  unfolding Stamped_def
proof
  fix b assume b: "b \<in> A"
  with assms(1) have s: "case FP (h b) of None \<Rightarrow> Expire (h b) = - 1
             | Some c \<Rightarrow> (Expire (h b) = Y \<or> Expire (h b) = Y + 1) \<and>
                         (FP (h c) \<noteq> None \<longrightarrow> Expire (h b) \<le> Expire (h c))"
    by (simp add: Stamped_def)
  show "case FP (h' b) of None \<Rightarrow> Expire (h' b) = - 1
             | Some c \<Rightarrow> (Expire (h' b) = Y \<or> Expire (h' b) = Y + 1) \<and>
                         (FP (h' c) \<noteq> None \<longrightarrow> Expire (h' b) \<le> Expire (h' c))"
  proof (cases "FP (h b)")
    case None
    with s b assms(2) show ?thesis by simp
  next
    case (Some c)
    with b assms(3) have "c \<in> A" by auto
    with s b assms(2) Some show ?thesis by simp
  qed
qed

lemma Stamped_merge:
  assumes "Stamped h A Y" "c \<in> A" "t \<in> A" "FP (h c) = None" "FP (h t) = None" "c \<noteq> t"
    and "\<forall>x. FP (h' x) = (if x = c then Some t else FP (h x))"
    and "\<forall>x. Expire (h' x) = (if x = c then Y + 1 else Expire (h x))"
  shows "Stamped h' A Y"
  unfolding Stamped_def
proof
  fix b assume b: "b \<in> A"
  with assms(1) have s: "case FP (h b) of None \<Rightarrow> Expire (h b) = - 1
             | Some d \<Rightarrow> (Expire (h b) = Y \<or> Expire (h b) = Y + 1) \<and>
                         (FP (h d) \<noteq> None \<longrightarrow> Expire (h b) \<le> Expire (h d))"
    by (simp add: Stamped_def)
  show "case FP (h' b) of None \<Rightarrow> Expire (h' b) = - 1
             | Some d \<Rightarrow> (Expire (h' b) = Y \<or> Expire (h' b) = Y + 1) \<and>
                         (FP (h' d) \<noteq> None \<longrightarrow> Expire (h' b) \<le> Expire (h' d))"
  proof (cases "b = c")
    case True
    with assms show ?thesis by simp
  next
    case False
    show ?thesis
    proof (cases "FP (h b)")
      case None
      with s False assms(7,8) show ?thesis by simp
    next
      case (Some d)
      with s False assms(7,8) show ?thesis by (cases "d = c") auto
    qed
  qed
qed

lemma Stamped_insert:
  assumes "Stamped h A Y" "a \<notin> A" "FP (h' a) = None" "Expire (h' a) = - 1"
    and "\<forall>x\<in>A. FP (h' x) = FP (h x) \<and> Expire (h' x) = Expire (h x)"
    and "\<forall>b\<in>A. \<forall>c. FP (h b) = Some c \<longrightarrow> c \<in> A"
  shows "Stamped h' (insert a A) Y"
proof -
  from Stamped_frame[OF assms(1,5,6)] have "Stamped h' A Y" .
  with assms(3,4) show ?thesis by (simp add: Stamped_def)
qed

lemma Stamped_reap:
  assumes "Stamped h A Y" "0 \<le> Y" "\<forall>b\<in>A. \<forall>c. FP (h b) = Some c \<longrightarrow> c \<in> A"
  shows "Stamped h {b \<in> A. Expire (h b) \<noteq> Y} (Y + 1)"
    and "\<forall>b\<in>{b \<in> A. Expire (h b) \<noteq> Y}. \<forall>c. FP (h b) = Some c \<longrightarrow> c \<in> {b \<in> A. Expire (h b) \<noteq> Y}"
    and "\<forall>b\<in>A. FP (h b) = None \<longrightarrow> Expire (h b) \<noteq> Y"
proof -
  have st: "\<And>b. b \<in> A \<Longrightarrow> case FP (h b) of None \<Rightarrow> Expire (h b) = - 1
             | Some d \<Rightarrow> (Expire (h b) = Y \<or> Expire (h b) = Y + 1) \<and>
                         (FP (h d) \<noteq> None \<longrightarrow> Expire (h b) \<le> Expire (h d))"
    using assms(1) by (simp add: Stamped_def)
  show roots: "\<forall>b\<in>A. FP (h b) = None \<longrightarrow> Expire (h b) \<noteq> Y"
    using st assms(2) by force
  have tgt: "\<And>b c. b \<in> A \<Longrightarrow> Expire (h b) \<noteq> Y \<Longrightarrow> FP (h b) = Some c \<Longrightarrow>
               c \<in> A \<and> Expire (h c) \<noteq> Y \<and> (FP (h c) \<noteq> None \<longrightarrow> Expire (h c) = Y + 1)"
  proof -
    fix b c assume b: "b \<in> A" "Expire (h b) \<noteq> Y" "FP (h b) = Some c"
    with assms(3) have c: "c \<in> A" by auto
    from st[OF b(1)] b have eb: "Expire (h b) = Y + 1" "FP (h c) \<noteq> None \<longrightarrow> Y + 1 \<le> Expire (h c)"
      by auto
    show "c \<in> A \<and> Expire (h c) \<noteq> Y \<and> (FP (h c) \<noteq> None \<longrightarrow> Expire (h c) = Y + 1)"
    proof (cases "FP (h c)")
      case None
      with roots c show ?thesis by simp
    next
      case (Some d)
      with st[OF c] eb c show ?thesis by auto
    qed
  qed
  show "\<forall>b\<in>{b \<in> A. Expire (h b) \<noteq> Y}. \<forall>c. FP (h b) = Some c \<longrightarrow> c \<in> {b \<in> A. Expire (h b) \<noteq> Y}"
    using tgt by blast
  show "Stamped h {b \<in> A. Expire (h b) \<noteq> Y} (Y + 1)"
    unfolding Stamped_def
  proof
    fix b assume "b \<in> {b \<in> A. Expire (h b) \<noteq> Y}"
    then have b: "b \<in> A" "Expire (h b) \<noteq> Y" by auto
    show "case FP (h b) of None \<Rightarrow> Expire (h b) = - 1
             | Some c \<Rightarrow> (Expire (h b) = Y + 1 \<or> Expire (h b) = Y + 1 + 1) \<and>
                         (FP (h c) \<noteq> None \<longrightarrow> Expire (h b) \<le> Expire (h c))"
    proof (cases "FP (h b)")
      case None
      with st[OF b(1)] show ?thesis by simp
    next
      case (Some c)
      with st[OF b(1)] b tgt[OF b Some] show ?thesis by auto
    qed
  qed
qed

lemma Merge_Blobs_FP:
  "FP (Merge_Blobs c t e h x) = (if c \<noteq> t \<and> x = c then Some t else FP (h x))"
  by (simp add: Merge_Blobs_def Let_def)

lemma Merge_Blobs_Expire:
  "Expire (Merge_Blobs c t e h x) = (if c \<noteq> t \<and> x = c then e else Expire (h x))"
  by (simp add: Merge_Blobs_def Let_def)

lemma Merge_Blobs_same: "Merge_Blobs b b e h = h"
  by (simp add: Merge_Blobs_def)

lemma Add_Position_FP: "FP (Add_Position t X Y h x) = FP (h x)"
  by (simp add: Add_Position_def Let_def)

lemma Add_Position_Expire: "Expire (Add_Position t X Y h x) = Expire (h x)"
  by (simp add: Add_Position_def Let_def)

lemma Reap_Expired_Blobs_filter:
  "Reap_Expired_Blobs h Now bs free =
     (filter (\<lambda>b. Expire (h b) \<noteq> Now) bs, rev (filter (\<lambda>b. Expire (h b) = Now) bs) @ free)"
  by (induction bs arbitrary: free) auto

lemma Reap_FP_Blobs_filter:
  "Reap_FP_Blobs h bs free =
     (filter (\<lambda>b. FP (h b) = None) bs, rev (filter (\<lambda>b. FP (h b) \<noteq> None) bs) @ free)"
  by (induction bs arbitrary: free) auto

lemma New_Blob_cases:
  fixes pool :: "'a Blob_Pool_scheme"
  shows "(New_Blob X Y i pool = Inl AllocFail \<and> FreeBlobs pool = [] \<and>
            length (BlobMem pool) < FREEBLOBSBLOCKSIZE)
       \<or> (\<exists>a free mem. New_Blob X Y i pool =
              Inr (a, pool\<lparr>Heap := (Heap pool)(a :=
                            \<lparr>ID = i, Xsum = 0, Ysum = 0, Xmin = 0, Ymin = 0, Xmax = 0, Ymax = 0,
                             Blob.Count = 0, Xreg = X, Yreg = Y, Expire = - 1, FP = None\<rparr>),
                         FreeBlobs := free, BlobMem := mem\<rparr>)
            \<and> FreeBlobs pool @ BlobMem pool = a # free @ mem)"
proof (cases "FreeBlobs pool")
  case (Cons a rest)
  then show ?thesis
    by (intro disjI2 exI[of _ a] exI[of _ rest] exI[of _ "BlobMem pool"]) (simp add: New_Blob_def)
next
  case Nil
  show ?thesis
  proof (cases "FREEBLOBSBLOCKSIZE \<le> length (BlobMem pool)")
    case False
    with Nil show ?thesis by (simp add: New_Blob_def malloc_def)
  next
    case True
    then obtain a rest where t: "take FREEBLOBSBLOCKSIZE (BlobMem pool) = a # rest"
      by (cases "take FREEBLOBSBLOCKSIZE (BlobMem pool)") (auto simp: FREEBLOBSBLOCKSIZE_def)
    have "BlobMem pool = take FREEBLOBSBLOCKSIZE (BlobMem pool) @ drop FREEBLOBSBLOCKSIZE (BlobMem pool)"
      by simp
    with t have "BlobMem pool = a # rest @ drop FREEBLOBSBLOCKSIZE (BlobMem pool)" by simp
    with Nil True t show ?thesis
      by (intro disjI2 exI[of _ a] exI[of _ rest] exI[of _ "drop FREEBLOBSBLOCKSIZE (BlobMem pool)"])
         (simp add: New_Blob_def malloc_def)
  qed
qed

lemma Forest_cols:
  fixes s :: "'a Scan_scheme"
  assumes "Forest s" "\<forall>b. Some b \<in> set cb \<longrightarrow> b \<in> set (Blobs s)"
  shows "Forest (s\<lparr>ColBlobs := cb\<rparr>)"
  using assms by (simp add: Forest_def)

lemma Reduce_Col_ok:
  fixes s :: "'a Scan_scheme"
  assumes F: "Forest s" and X: "X < length (ColBlobs s)"
  shows "\<exists>cb. Reduce_Col X s = Inr (s\<lparr>ColBlobs := cb\<rparr>) \<and> Forest (s\<lparr>ColBlobs := cb\<rparr>) \<and>
           length cb = length (ColBlobs s) \<and> (\<forall>x. x \<noteq> X \<longrightarrow> cb ! x = ColBlobs s ! x) \<and>
           (\<forall>c. cb ! X = Some c \<longrightarrow> c \<in> set (Blobs s) \<and> FP (Heap s c) = None)"
proof -
  from F have L: "Linked (Heap s) (set (Blobs s))"
    and C: "\<forall>b. Some b \<in> set (ColBlobs s) \<longrightarrow> b \<in> set (Blobs s)"
    by (simp_all add: Forest_def)
  have same: "s\<lparr>ColBlobs := ColBlobs s\<rparr> = s" by simp
  show ?thesis
  proof (cases "ColBlobs s ! X")
    case None
    with X F show ?thesis
      by (intro exI[of _ "ColBlobs s"]) (simp add: Reduce_Col_def)
  next
    case (Some c)
    with X have "Some c \<in> set (ColBlobs s)" by (metis nth_mem)
    with C have cA: "c \<in> set (Blobs s)" by blast
    show ?thesis
    proof (cases "FP (Heap s c)")
      case None
      with Some X F cA show ?thesis
        by (intro exI[of _ "ColBlobs s"]) (simp add: Reduce_Col_def)
    next
      case (Some d)
      from Linked_Reduce_FP[OF L cA] obtain r where
        r: "r \<in> set (Blobs s)" "Reduce_FP (Heap s) c = Some r" "FP (Heap s r) = None" by blast
      let ?cb = "(ColBlobs s)[X := Some r]"
      have "\<forall>b. Some b \<in> set ?cb \<longrightarrow> b \<in> set (Blobs s)"
      proof (intro allI impI)
        fix b assume "Some b \<in> set ?cb"
        then have "Some b \<in> insert (Some r) (set (ColBlobs s))"
          using set_update_subset_insert[of "ColBlobs s" X "Some r"] by blast
        with C r(1) show "b \<in> set (Blobs s)" by auto
      qed
      from Forest_cols[OF F this] have F': "Forest (s\<lparr>ColBlobs := ?cb\<rparr>)" .
      have run: "Reduce_Col X s = Inr (s\<lparr>ColBlobs := ?cb\<rparr>)"
        using X \<open>ColBlobs s ! X = Some c\<close> Some r(2) by (simp add: Reduce_Col_def)
      from run F' X r show ?thesis
        by (intro exI[of _ ?cb]) simp
    qed
  qed
qed

lemma Forest_parts:
  fixes s :: "'a Scan_scheme"
  assumes "Forest s"
  shows "distinct (Blobs s @ FreeBlobs s @ BlobMem s)"
    and "Linked (Heap s) (set (Blobs s))"
    and "\<And>r. RowBlob s = Some r \<Longrightarrow> r \<in> set (Blobs s) \<and> FP (Heap s r) = None"
    and "\<And>b. Some b \<in> set (ColBlobs s) \<Longrightarrow> b \<in> set (Blobs s)"
  using assms by (simp_all add: Forest_def)

lemma Timed_parts:
  fixes s :: "'a Scan_scheme"
  assumes "Timed Y X s"
  shows "Stamped (Heap s) (set (Blobs s)) (int Y)"
    and "\<And>x b. x < X \<Longrightarrow> x < length (ColBlobs s) \<Longrightarrow> ColBlobs s ! x = Some b \<Longrightarrow>
           FP (Heap s b) \<noteq> None \<Longrightarrow> Expire (Heap s b) = int Y + 1"
  using assms by (simp_all add: Timed_def)

lemma Touch_merge:
  fixes s :: "'a Scan_scheme"
  assumes F: "Forest s" and rb: "RowBlob s = Some r" and cA: "c \<in> set (Blobs s)"
    and cr: "FP (Heap s c) = None"
  shows "Forest (s\<lparr>Heap := Merge_Blobs c r e (Heap s)\<rparr>)"
proof (cases "c = r")
  case True
  with F show ?thesis by (simp add: Merge_Blobs_same)
next
  case False
  note P = Forest_parts[OF F]
  from P(3)[OF rb] have r: "r \<in> set (Blobs s)" "FP (Heap s r) = None" by simp_all
  have fp: "\<forall>x. FP (Merge_Blobs c r e (Heap s) x) = (if x = c then Some r else FP (Heap s x))"
    using False by (simp add: Merge_Blobs_FP)
  from Linked_merge[OF P(2) cA r(1) cr r(2) False fp]
  have L: "Linked (Merge_Blobs c r e (Heap s)) (set (Blobs s))" .
  have "FP (Merge_Blobs c r e (Heap s) r) = None" using False r(2) by (simp add: Merge_Blobs_FP)
  with L P(1) P(4) rb r(1) show ?thesis by (simp add: Forest_def)
qed

lemma Touch_merge_Timed:
  fixes s :: "'a Scan_scheme"
  assumes F: "Forest s" and T: "Timed Y X s" and rb: "RowBlob s = Some r"
    and cA: "c \<in> set (Blobs s)" and cr: "FP (Heap s c) = None"
  shows "Timed Y X (s\<lparr>Heap := Merge_Blobs c r (int Y + 1) (Heap s)\<rparr>)"
proof (cases "c = r")
  case True
  with T show ?thesis by (simp add: Merge_Blobs_same)
next
  case False
  note P = Forest_parts[OF F]
  note Q = Timed_parts[OF T]
  from P(3)[OF rb] have r: "r \<in> set (Blobs s)" "FP (Heap s r) = None" by simp_all
  let ?h = "Merge_Blobs c r (int Y + 1) (Heap s)"
  have fp: "\<forall>x. FP (?h x) = (if x = c then Some r else FP (Heap s x))"
    using False by (simp add: Merge_Blobs_FP)
  have ex: "\<forall>x. Expire (?h x) = (if x = c then int Y + 1 else Expire (Heap s x))"
    using False by (simp add: Merge_Blobs_Expire)
  from Stamped_merge[OF Q(1) cA r(1) cr r(2) False fp ex]
  have S: "Stamped ?h (set (Blobs s)) (int Y)" .
  have "\<forall>x<X. \<forall>b. x < length (ColBlobs s) \<longrightarrow> ColBlobs s ! x = Some b \<longrightarrow>
         FP (?h b) \<noteq> None \<longrightarrow> Expire (?h b) = int Y + 1"
  proof (intro allI impI)
    fix x b assume x: "x < X" "x < length (ColBlobs s)" "ColBlobs s ! x = Some b" "FP (?h b) \<noteq> None"
    show "Expire (?h b) = int Y + 1"
    proof (cases "b = c")
      case True
      with ex show ?thesis by simp
    next
      case False
      with x(4) fp have "FP (Heap s b) \<noteq> None" by simp
      from Q(2)[OF x(1,2,3) this] False ex show ?thesis by simp
    qed
  qed
  with S show ?thesis by (simp add: Timed_def)
qed

lemma Touch_new:
  fixes s :: "'a Scan_scheme"
  assumes F: "Forest s" and fm: "FreeBlobs s @ BlobMem s = a # free @ mem" and fa: "FP nb = None"
  shows "Forest (s\<lparr>Heap := (Heap s)(a := nb), FreeBlobs := free, BlobMem := mem,
                   Blobs := a # Blobs s, RowBlob := Some a\<rparr>)"
proof -
  note P = Forest_parts[OF F]
  from P(1) fm have d: "distinct (Blobs s @ a # free @ mem)" by simp
  then have aA: "a \<notin> set (Blobs s)" by auto
  from d have d': "distinct ((a # Blobs s) @ free @ mem)" by auto
  have "\<forall>x\<in>set (Blobs s). FP (((Heap s)(a := nb)) x) = FP (Heap s x)" using aA by auto
  moreover have "FP (((Heap s)(a := nb)) a) = None" using fa by simp
  ultimately have "Linked ((Heap s)(a := nb)) (insert a (set (Blobs s)))"
    by (intro Linked_insert[OF P(2) aA])
  then have L: "Linked ((Heap s)(a := nb)) (set (a # Blobs s))" by simp
  from P(4) have C: "\<forall>b. Some b \<in> set (ColBlobs s) \<longrightarrow> b \<in> set (a # Blobs s)" by auto
  from d' L C fa show ?thesis by (simp add: Forest_def)
qed

lemma Touch_new_Timed:
  fixes s :: "'a Scan_scheme"
  assumes F: "Forest s" and T: "Timed Y X s" and fm: "FreeBlobs s @ BlobMem s = a # free @ mem"
    and fa: "FP nb = None" "Expire nb = - 1"
  shows "Timed Y X (s\<lparr>Heap := (Heap s)(a := nb), FreeBlobs := free, BlobMem := mem,
                   Blobs := a # Blobs s, RowBlob := Some a\<rparr>)"
proof -
  note P = Forest_parts[OF F]
  note Q = Timed_parts[OF T]
  from P(1) fm have d: "distinct (Blobs s @ a # free @ mem)" by simp
  then have aA: "a \<notin> set (Blobs s)" by auto
  let ?h = "(Heap s)(a := nb)"
  have same: "\<forall>x\<in>set (Blobs s). FP (?h x) = FP (Heap s x) \<and> Expire (?h x) = Expire (Heap s x)"
    using aA by auto
  have "FP (?h a) = None" "Expire (?h a) = - 1" using fa by simp_all
  then have "Stamped ?h (insert a (set (Blobs s))) (int Y)"
    by (intro Stamped_insert[OF Q(1) aA _ _ same Linked_closed[OF P(2)]])
  then have S: "Stamped ?h (set (a # Blobs s)) (int Y)" by simp
  have "\<forall>x<X. \<forall>b. x < length (ColBlobs s) \<longrightarrow> ColBlobs s ! x = Some b \<longrightarrow>
         FP (?h b) \<noteq> None \<longrightarrow> Expire (?h b) = int Y + 1"
  proof (intro allI impI)
    fix x b assume x: "x < X" "x < length (ColBlobs s)" "ColBlobs s ! x = Some b" "FP (?h b) \<noteq> None"
    from x(2,3) have "Some b \<in> set (ColBlobs s)" by (metis nth_mem)
    from P(4)[OF this] aA have ne: "b \<noteq> a" by auto
    with x(4) have "FP (Heap s b) \<noteq> None" by simp
    from Q(2)[OF x(1,2,3) this] ne show "Expire (?h b) = int Y + 1" by simp
  qed
  with S show ?thesis by (simp add: Timed_def)
qed

lemma Touch_ok:
  fixes s :: "'a Scan_scheme"
  assumes F: "Forest s" and X: "X < length (ColBlobs s)"
    and R: "\<forall>c. ColBlobs s ! X = Some c \<longrightarrow> FP (Heap s c) = None"
  shows "(Touch X Y e s = Inl AllocFail \<and> FreeBlobs s = [] \<and>
            length (BlobMem s) < FREEBLOBSBLOCKSIZE)
       \<or> (\<exists>s1 r. Touch X Y e s = Inr s1 \<and> RowBlob s1 = Some r \<and> Forest s1 \<and>
             ColBlobs s1 = ColBlobs s \<and> MapI s1 = MapI s \<and> Scan.more s1 = Scan.more s \<and>
             length (Blobs s1) + length (FreeBlobs s1) + length (BlobMem s1)
               = length (Blobs s) + length (FreeBlobs s) + length (BlobMem s) \<and>
             length (Blobs s1) \<le> Suc (length (Blobs s)) \<and>
             (e = int Y + 1 \<longrightarrow> (\<forall>X'. Timed Y X' s \<longrightarrow> Timed Y X' s1)))"
proof (cases "ColBlobs s ! X")
  case (Some c)
  with X have "Some c \<in> set (ColBlobs s)" by (metis nth_mem)
  from Forest_parts(4)[OF F this] have cA: "c \<in> set (Blobs s)" .
  from R Some have cr: "FP (Heap s c) = None" by simp
  show ?thesis
  proof (cases "RowBlob s")
    case None
    let ?s1 = "s\<lparr>RowBlob := Some c\<rparr>"
    have run: "Touch X Y e s = Inr ?s1" using None Some by (simp add: Touch_def)
    have F1: "Forest ?s1" using F cA cr by (simp add: Forest_def)
    have T1: "\<forall>X'. Timed Y X' s \<longrightarrow> Timed Y X' ?s1" by (simp add: Timed_def)
    from run F1 T1 show ?thesis
      by (intro disjI2 exI[of _ ?s1] exI[of _ c]) simp
  next
    case (Some r)
    let ?s1 = "s\<lparr>Heap := Merge_Blobs c r e (Heap s)\<rparr>"
    have run: "Touch X Y e s = Inr ?s1"
      using Some \<open>ColBlobs s ! X = Some c\<close> by (simp add: Touch_def)
    from Touch_merge[OF F Some cA cr] have F1: "Forest ?s1" .
    have T1: "e = int Y + 1 \<longrightarrow> (\<forall>X'. Timed Y X' s \<longrightarrow> Timed Y X' ?s1)"
      using Touch_merge_Timed[OF F _ Some cA cr] by blast
    from run F1 T1 Some show ?thesis
      by (intro disjI2 exI[of _ ?s1] exI[of _ r]) simp
  qed
next
  case None
  show ?thesis
  proof (cases "RowBlob s")
    case (Some r)
    have run: "Touch X Y e s = Inr s" using Some None by (simp add: Touch_def)
    from run F Some show ?thesis
      by (intro disjI2 exI[of _ s] exI[of _ r]) simp
  next
    case rn: None
    let ?nb = "\<lparr>ID = 0, Xsum = 0, Ysum = 0, Xmin = 0, Ymin = 0, Xmax = 0, Ymax = 0,
                 Blob.Count = 0, Xreg = int X, Yreg = int Y, Expire = - 1, FP = None\<rparr>"
    from New_Blob_cases[of "int X" "int Y" 0 s]
    consider (fail) "New_Blob (int X) (int Y) 0 s = Inl AllocFail" "FreeBlobs s = []"
        "length (BlobMem s) < FREEBLOBSBLOCKSIZE"
      | (ok) a free mem where
        "New_Blob (int X) (int Y) 0 s =
           Inr (a, s\<lparr>Heap := (Heap s)(a := ?nb), FreeBlobs := free, BlobMem := mem\<rparr>)"
        "FreeBlobs s @ BlobMem s = a # free @ mem"
      by blast
    then show ?thesis
    proof cases
      case fail
      with None rn show ?thesis by (simp add: Touch_def)
    next
      case ok
      let ?s1 = "s\<lparr>Heap := (Heap s)(a := ?nb), FreeBlobs := free, BlobMem := mem,
                   Blobs := a # Blobs s, RowBlob := Some a\<rparr>"
      have run: "Touch X Y e s = Inr ?s1" using None rn ok(1) by (simp add: Touch_def)
      have F1: "Forest ?s1" by (rule Touch_new[OF F ok(2)]) simp
      have T1: "\<forall>X'. Timed Y X' s \<longrightarrow> Timed Y X' ?s1"
        using Touch_new_Timed[OF F _ ok(2), of Y _ ?nb] by simp
      have "length (FreeBlobs s) + length (BlobMem s) = Suc (length free + length mem)"
        using arg_cong[OF ok(2), of length] by simp
      with run F1 T1 show ?thesis
        by (intro disjI2 exI[of _ ?s1] exI[of _ a]) simp
    qed
  qed
qed

lemma Forest_tail:
  fixes s :: "'a Scan_scheme"
  assumes F: "Forest s" and rb: "RowBlob s = Some r"
  shows "Forest (s\<lparr>Heap := Add_Position r x y (Heap s), ColBlobs := (ColBlobs s)[X := Some r],
                    MapI := m\<rparr>)"
proof -
  note P = Forest_parts[OF F]
  from P(3)[OF rb] have r: "r \<in> set (Blobs s)" "FP (Heap s r) = None" by simp_all
  have L: "Linked (Add_Position r x y (Heap s)) (set (Blobs s))"
    by (rule Linked_frame[OF P(2)]) (simp add: Add_Position_FP)
  have C: "\<forall>b. Some b \<in> set ((ColBlobs s)[X := Some r]) \<longrightarrow> b \<in> set (Blobs s)"
  proof (intro allI impI)
    fix b assume "Some b \<in> set ((ColBlobs s)[X := Some r])"
    then have "Some b \<in> insert (Some r) (set (ColBlobs s))"
      using set_update_subset_insert[of "ColBlobs s" X "Some r"] by blast
    with P(4) r(1) show "b \<in> set (Blobs s)" by auto
  qed
  from P(1) L C rb r show ?thesis by (simp add: Forest_def Add_Position_FP)
qed

lemma Timed_tail:
  fixes s :: "'a Scan_scheme"
  assumes F: "Forest s" and T: "Timed Y X s" and rb: "RowBlob s = Some r"
  shows "Timed Y (Suc X) (s\<lparr>Heap := Add_Position r x y (Heap s),
                             ColBlobs := (ColBlobs s)[X := Some r], MapI := m\<rparr>)"
proof -
  note P = Forest_parts[OF F]
  note Q = Timed_parts[OF T]
  from P(3)[OF rb] have r: "r \<in> set (Blobs s)" "FP (Heap s r) = None" by simp_all
  let ?h = "Add_Position r x y (Heap s)"
  have S: "Stamped ?h (set (Blobs s)) (int Y)"
    by (rule Stamped_frame[OF Q(1) _ Linked_closed[OF P(2)]])
       (simp add: Add_Position_FP Add_Position_Expire)
  have "\<forall>k<Suc X. \<forall>b. k < length (ColBlobs s) \<longrightarrow> (ColBlobs s)[X := Some r] ! k = Some b \<longrightarrow>
         FP (?h b) \<noteq> None \<longrightarrow> Expire (?h b) = int Y + 1"
  proof (intro allI impI)
    fix k b assume k: "k < Suc X" "k < length (ColBlobs s)" "(ColBlobs s)[X := Some r] ! k = Some b"
      "FP (?h b) \<noteq> None"
    show "Expire (?h b) = int Y + 1"
    proof (cases "k = X")
      case True
      with k(2,3) have "b = r" by simp
      with k(4) r(2) show ?thesis by (simp add: Add_Position_FP)
    next
      case False
      with k have "k < X" "ColBlobs s ! k = Some b" "FP (Heap s b) \<noteq> None"
        by (simp_all add: Add_Position_FP)
      from Q(2)[OF this(1) k(2) this(2,3)] show ?thesis by (simp add: Add_Position_Expire)
    qed
  qed
  with S show ?thesis by (simp add: Timed_def)
qed

lemma Forest_skip:
  fixes s :: "'a Scan_scheme"
  assumes F: "Forest s"
  shows "Forest (s\<lparr>RowBlob := None, ColBlobs := (ColBlobs s)[X := None], MapI := m\<rparr>)"
proof -
  note P = Forest_parts[OF F]
  have C: "\<forall>b. Some b \<in> set ((ColBlobs s)[X := None]) \<longrightarrow> b \<in> set (Blobs s)"
  proof (intro allI impI)
    fix b assume "Some b \<in> set ((ColBlobs s)[X := None])"
    then have "Some b \<in> insert None (set (ColBlobs s))"
      using set_update_subset_insert[of "ColBlobs s" X None] by blast
    with P(4) show "b \<in> set (Blobs s)" by auto
  qed
  from P(1,2) C show ?thesis by (simp add: Forest_def)
qed

lemma Timed_skip:
  fixes s :: "'a Scan_scheme"
  assumes T: "Timed Y X s"
  shows "Timed Y (Suc X) (s\<lparr>RowBlob := None, ColBlobs := (ColBlobs s)[X := None], MapI := m\<rparr>)"
proof -
  note Q = Timed_parts[OF T]
  have "\<forall>k<Suc X. \<forall>b. k < length (ColBlobs s) \<longrightarrow> (ColBlobs s)[X := None] ! k = Some b \<longrightarrow>
         FP (Heap s b) \<noteq> None \<longrightarrow> Expire (Heap s b) = int Y + 1"
  proof (intro allI impI)
    fix k b assume k: "k < Suc X" "k < length (ColBlobs s)" "(ColBlobs s)[X := None] ! k = Some b"
      "FP (Heap s b) \<noteq> None"
    from k(2,3) have ne: "k \<noteq> X" by auto
    with k have "k < X" "ColBlobs s ! k = Some b" by simp_all
    from Q(2)[OF this(1) k(2) this(2) k(4)] show "Expire (Heap s b) = int Y + 1" .
  qed
  with Q(1) show ?thesis by (simp add: Timed_def)
qed

lemma Timed_cols:
  fixes s :: "'a Scan_scheme"
  assumes T: "Timed Y X s" and "length cb = length (ColBlobs s)"
    and "\<forall>x. x \<noteq> X \<longrightarrow> cb ! x = ColBlobs s ! x"
  shows "Timed Y X (s\<lparr>ColBlobs := cb\<rparr>)"
  using assms by (simp add: Timed_def)

lemma BF_Pixel_inv:
  assumes I: "BF_Inv W N Y X s" and X: "X < W" and dm: "Y * W + X < length dm"
  shows "(\<exists>s'. BF_Pixel dm Bth Y X s = Inr s' \<and> BF_Inv W N Y (Suc X) s')
       \<or> (BF_Pixel dm Bth Y X s = Inl AllocFail \<and> N < Y * W + X + FREEBLOBSBLOCKSIZE)"
proof -
  from I have F: "Forest s" and T: "Timed Y X s" and C: "Counted W N Y X s"
    by (simp_all add: BF_Inv_def)
  from C have Cp: "length (ColBlobs s) = W" "MapI s = Y * W + X"
    "length (Blobs s) + length (FreeBlobs s) + length (BlobMem s) = N" "length (Blobs s) \<le> MapI s"
    by (simp_all add: Counted_def)
  from X Cp(1) have X': "X < length (ColBlobs s)" by simp
  from Reduce_Col_ok[OF F X'] obtain cb where
    red: "Reduce_Col X s = Inr (s\<lparr>ColBlobs := cb\<rparr>)" and F2: "Forest (s\<lparr>ColBlobs := cb\<rparr>)"
    and lcb: "length cb = length (ColBlobs s)" and oth: "\<forall>x. x \<noteq> X \<longrightarrow> cb ! x = ColBlobs s ! x"
    and rt: "\<forall>c. cb ! X = Some c \<longrightarrow> c \<in> set (Blobs s) \<and> FP (Heap s c) = None"
    by blast
  let ?s = "s\<lparr>ColBlobs := cb\<rparr>"
  from Timed_cols[OF T lcb oth] have T2: "Timed Y X ?s" .
  have inb: "MapI ?s < length dm" using Cp(2) dm by simp
  show ?thesis
  proof (cases "Bth \<le> dm ! MapI s")
    case False
    let ?s' = "?s\<lparr>RowBlob := None, ColBlobs := (ColBlobs ?s)[X := None], MapI := Suc (MapI ?s)\<rparr>"
    have run: "BF_Pixel dm Bth Y X s = Inr ?s'"
      using red inb False by (simp add: BF_Pixel_def)
    have "Forest ?s'" by (rule Forest_skip[OF F2])
    moreover have "Timed Y (Suc X) ?s'" by (rule Timed_skip[OF T2])
    moreover have "Counted W N Y (Suc X) ?s'" using Cp lcb by (simp add: Counted_def)
    ultimately show ?thesis using run by (simp add: BF_Inv_def)
  next
    case True
    have X2: "X < length (ColBlobs ?s)" using X' lcb by simp
    have R2: "\<forall>c. ColBlobs ?s ! X = Some c \<longrightarrow> FP (Heap ?s c) = None" using rt by simp
    from Touch_ok[OF F2 X2 R2, of Y "int Y + 1"]
    consider (fail) "Touch X Y (int Y + 1) ?s = Inl AllocFail" "FreeBlobs ?s = []"
        "length (BlobMem ?s) < FREEBLOBSBLOCKSIZE"
      | (ok) s1 r where "Touch X Y (int Y + 1) ?s = Inr s1" "RowBlob s1 = Some r" "Forest s1"
        "ColBlobs s1 = ColBlobs ?s" "MapI s1 = MapI ?s"
        "length (Blobs s1) + length (FreeBlobs s1) + length (BlobMem s1)
               = length (Blobs ?s) + length (FreeBlobs ?s) + length (BlobMem ?s)"
        "length (Blobs s1) \<le> Suc (length (Blobs ?s))"
        "\<forall>X'. Timed Y X' ?s \<longrightarrow> Timed Y X' s1"
      by blast
    then show ?thesis
    proof cases
      case fail
      have run: "BF_Pixel dm Bth Y X s = Inl AllocFail"
        using red inb True fail(1) by (simp add: BF_Pixel_def)
      from fail(2,3) Cp have "N < Y * W + X + FREEBLOBSBLOCKSIZE" by simp
      with run show ?thesis by simp
    next
      case ok
      let ?s' = "s1\<lparr>Heap := Add_Position r (int X) (int Y) (Heap s1),
                    ColBlobs := (ColBlobs s1)[X := Some r], MapI := Suc (MapI s1)\<rparr>"
      have run: "BF_Pixel dm Bth Y X s = Inr ?s'"
        using red inb True ok(1,2) by (simp add: BF_Pixel_def)
      from ok(8) T2 have T1: "Timed Y X s1" by blast
      have "Forest ?s'" by (rule Forest_tail[OF ok(3,2)])
      moreover have "Timed Y (Suc X) ?s'" by (rule Timed_tail[OF ok(3) T1 ok(2)])
      moreover have "Counted W N Y (Suc X) ?s'"
        using Cp lcb ok(4,5,6,7) by (simp add: Counted_def)
      ultimately show ?thesis using run by (simp add: BF_Inv_def)
    qed
  qed
qed

lemma distinct_reap:
  "distinct (bs @ rest) \<Longrightarrow> distinct (filter P bs @ rev (filter (\<lambda>x. \<not> P x) bs) @ rest)"
  by (induction bs) auto

lemma Reap_Row_eq:
  "Reap_Row Y s = s\<lparr>Blobs := filter (\<lambda>b. Expire (Heap s b) \<noteq> int Y) (Blobs s),
                    FreeBlobs := rev (filter (\<lambda>b. \<not> Expire (Heap s b) \<noteq> int Y) (Blobs s)) @ FreeBlobs s\<rparr>"
  by (simp add: Reap_Row_def Reap_Expired_Blobs_filter)

lemma Reap_Row_inv:
  assumes I: "BF_Inv W N Y W s"
  shows "BF_Inv W N (Suc Y) 0 (Reap_Row Y s)"
proof -
  from I have F: "Forest s" and T: "Timed Y W s" and C: "Counted W N Y W s"
    by (simp_all add: BF_Inv_def)
  note P = Forest_parts[OF F]
  note Q = Timed_parts[OF T]
  from C have Cp: "length (ColBlobs s) = W" "MapI s = Y * W + W"
    "length (Blobs s) + length (FreeBlobs s) + length (BlobMem s) = N" "length (Blobs s) \<le> MapI s"
    by (simp_all add: Counted_def)
  let ?keep = "\<lambda>b. Expire (Heap s b) \<noteq> int Y"
  let ?A = "set (Blobs s)"
  let ?bs = "filter ?keep (Blobs s)"
  let ?fr = "rev (filter (\<lambda>b. \<not> ?keep b) (Blobs s)) @ FreeBlobs s"
  have A': "set ?bs = {b \<in> ?A. Expire (Heap s b) \<noteq> int Y}" by auto
  have Y0: "0 \<le> int Y" by simp
  note R = Stamped_reap[OF Q(1) Y0 Linked_closed[OF P(2)]]
  have d: "distinct (?bs @ ?fr @ BlobMem s)"
    using distinct_reap[OF P(1), of ?keep] by (simp only: append_assoc)
  have sub: "{b \<in> ?A. Expire (Heap s b) \<noteq> int Y} \<subseteq> ?A" by blast
  have L: "Linked (Heap s) (set ?bs)"
    unfolding A' by (rule Linked_subset[OF P(2) sub R(2)])
  have rb: "\<forall>r. RowBlob s = Some r \<longrightarrow> r \<in> set ?bs \<and> FP (Heap s r) = None"
  proof (intro allI impI)
    fix r assume "RowBlob s = Some r"
    from P(3)[OF this] have r: "r \<in> ?A" "FP (Heap s r) = None" by simp_all
    with R(3) have "Expire (Heap s r) \<noteq> int Y" by blast
    with r show "r \<in> set ?bs \<and> FP (Heap s r) = None" by simp
  qed
  have cb: "\<forall>b. Some b \<in> set (ColBlobs s) \<longrightarrow> b \<in> set ?bs"
  proof (intro allI impI)
    fix b assume m: "Some b \<in> set (ColBlobs s)"
    from P(4)[OF m] have bA: "b \<in> ?A" .
    from m obtain x where x: "x < length (ColBlobs s)" "ColBlobs s ! x = Some b"
      by (auto simp: in_set_conv_nth)
    have "Expire (Heap s b) \<noteq> int Y"
    proof (cases "FP (Heap s b)")
      case None
      with R(3) bA show ?thesis by blast
    next
      case (Some c)
      from x(1) Cp(1) have "x < W" by simp
      from Q(2)[OF this x] Some show ?thesis by simp
    qed
    with bA show "b \<in> set ?bs" by simp
  qed
  have F': "Forest (Reap_Row Y s)"
    unfolding Reap_Row_eq using d L rb cb by (simp add: Forest_def)
  have "int (Suc Y) = int Y + 1" by simp
  with R(1) have S: "Stamped (Heap s) (set ?bs) (int (Suc Y))"
    unfolding A' by (simp only:)
  have T': "Timed (Suc Y) 0 (Reap_Row Y s)"
    unfolding Reap_Row_eq using S by (simp add: Timed_def)
  have len: "length ?bs + length (filter (\<lambda>b. \<not> ?keep b) (Blobs s)) = length (Blobs s)"
    by (rule sum_length_filter_compl)
  have "length ?bs \<le> length (Blobs s)" by simp
  with len Cp have C': "Counted W N (Suc Y) 0 (Reap_Row Y s)"
    unfolding Reap_Row_eq by (simp add: Counted_def)
  from F' T' C' show ?thesis by (simp add: BF_Inv_def)
qed

lemma BF_Inv_row_start:
  "BF_Inv W N Y X s \<Longrightarrow> BF_Inv W N Y X (s\<lparr>RowBlob := None\<rparr>)"
  by (simp add: BF_Inv_def Forest_def Timed_def Counted_def)

lemma Scan_Init_inv:
  assumes "Pool_OK pool"
  shows "BF_Inv (nat W') (length (FreeBlobs pool) + length (BlobMem pool)) 0 0 (Scan_Init W' pool)"
proof -
  have "Linked (Heap pool) {}" by (rule LinkedI) simp_all
  moreover have "Stamped (Heap pool) {} 0" by (simp add: Stamped_def)
  ultimately show ?thesis using assms
    by (simp add: BF_Inv_def Forest_def Timed_def Counted_def Scan_Init_def Pool_OK_def)
qed

lemma BF_cols_inv:
  assumes I: "BF_Inv W N Y 0 s0" and X: "X \<le> W" and dm: "Y * W + X \<le> length dm"
  shows "(\<exists>s. For_Each (BF_Pixel dm Bth Y) [0..<X] s0 = Inr s \<and> BF_Inv W N Y X s)
       \<or> (For_Each (BF_Pixel dm Bth Y) [0..<X] s0 = Inl AllocFail \<and> N < Y * W + X + 19)"
  using X dm
proof (induction X)
  case 0
  with I show ?case by simp
next
  case (Suc X)
  then have "(\<exists>s. For_Each (BF_Pixel dm Bth Y) [0..<X] s0 = Inr s \<and> BF_Inv W N Y X s)
       \<or> (For_Each (BF_Pixel dm Bth Y) [0..<X] s0 = Inl AllocFail \<and> N < Y * W + X + 19)"
    by simp
  then show ?case
  proof
    assume "For_Each (BF_Pixel dm Bth Y) [0..<X] s0 = Inl AllocFail \<and> N < Y * W + X + 19"
    then show ?thesis by (simp add: For_Each_append)
  next
    assume "\<exists>s. For_Each (BF_Pixel dm Bth Y) [0..<X] s0 = Inr s \<and> BF_Inv W N Y X s"
    then obtain s where s: "For_Each (BF_Pixel dm Bth Y) [0..<X] s0 = Inr s" "BF_Inv W N Y X s"
      by blast
    from Suc.prems have "X < W" "Y * W + X < length dm" by simp_all
    from BF_Pixel_inv[OF s(2) this, of Bth] show ?thesis
    proof
      assume "\<exists>s'. BF_Pixel dm Bth Y X s = Inr s' \<and> BF_Inv W N Y (Suc X) s'"
      with s(1) show ?thesis by (auto simp: For_Each_append)
    next
      assume "BF_Pixel dm Bth Y X s = Inl AllocFail \<and> N < Y * W + X + FREEBLOBSBLOCKSIZE"
      with s(1) show ?thesis by (simp add: For_Each_append FREEBLOBSBLOCKSIZE_def)
    qed
  qed
qed

lemma BF_rows_inv:
  assumes P: "Pool_OK pool" and dm: "Y * nat W' \<le> length dm"
    and N: "N = length (FreeBlobs pool) + length (BlobMem pool)"
  shows "(\<exists>s. BF_Scan dm W' Bth [0..<Y] pool = Inr s \<and> BF_Inv (nat W') N Y 0 s)
       \<or> (BF_Scan dm W' Bth [0..<Y] pool = Inl AllocFail \<and> N < Y * nat W' + 19)"
  using dm
proof (induction Y)
  case 0
  from Scan_Init_inv[OF P, of W'] N show ?case by (simp add: BF_Scan_def)
next
  case (Suc Y)
  let ?W = "nat W'"
  from Suc.prems have le: "Y * ?W \<le> length dm" "Y * ?W + ?W \<le> length dm" by simp_all
  from Suc.IH[OF le(1)] show ?case
  proof
    assume "BF_Scan dm W' Bth [0..<Y] pool = Inl AllocFail \<and> N < Y * ?W + 19"
    then show ?thesis by (simp add: BF_Scan_def For_Each_append)
  next
    assume "\<exists>s. BF_Scan dm W' Bth [0..<Y] pool = Inr s \<and> BF_Inv ?W N Y 0 s"
    then obtain s where s: "BF_Scan dm W' Bth [0..<Y] pool = Inr s" "BF_Inv ?W N Y 0 s" by blast
    from BF_cols_inv[OF BF_Inv_row_start[OF s(2)] le_refl le(2), of Bth] show ?thesis
    proof
      assume "\<exists>t. For_Each (BF_Pixel dm Bth Y) [0..<?W] (s\<lparr>RowBlob := None\<rparr>) = Inr t
                \<and> BF_Inv ?W N Y ?W t"
      then obtain t where t: "For_Each (BF_Pixel dm Bth Y) [0..<?W] (s\<lparr>RowBlob := None\<rparr>) = Inr t"
        "BF_Inv ?W N Y ?W t" by blast
      from Reap_Row_inv[OF t(2)] have "BF_Inv ?W N (Suc Y) 0 (Reap_Row Y t)" .
      moreover have "BF_Scan dm W' Bth [0..<Suc Y] pool = Inr (Reap_Row Y t)"
        using s(1) t(1) by (simp add: BF_Scan_def For_Each_append BF_Row_def)
      ultimately show ?thesis by simp
    next
      assume "For_Each (BF_Pixel dm Bth Y) [0..<?W] (s\<lparr>RowBlob := None\<rparr>) = Inl AllocFail
                \<and> N < Y * ?W + ?W + 19"
      with s(1) show ?thesis by (simp add: BF_Scan_def For_Each_append BF_Row_def)
    qed
  qed
qed

lemma BF_Prefix_inv:
  assumes P: "Pool_OK pool" and X: "X \<le> nat W'" and dm: "Y * nat W' + X \<le> length dm"
    and N: "N = length (FreeBlobs pool) + length (BlobMem pool)"
  shows "(\<exists>s. BF_Prefix dm W' Bth Y X pool = Inr s \<and> BF_Inv (nat W') N Y X s)
       \<or> (BF_Prefix dm W' Bth Y X pool = Inl AllocFail \<and> N < Y * nat W' + X + 19)"
proof -
  from dm have le: "Y * nat W' \<le> length dm" "Y * nat W' + X \<le> length dm" by simp_all
  from BF_rows_inv[OF P le(1) N, of Bth] show ?thesis
  proof
    assume "BF_Scan dm W' Bth [0..<Y] pool = Inl AllocFail \<and> N < Y * nat W' + 19"
    then show ?thesis by (simp add: BF_Prefix_def)
  next
    assume "\<exists>s. BF_Scan dm W' Bth [0..<Y] pool = Inr s \<and> BF_Inv (nat W') N Y 0 s"
    then obtain s where s: "BF_Scan dm W' Bth [0..<Y] pool = Inr s" "BF_Inv (nat W') N Y 0 s" by blast
    from BF_cols_inv[OF BF_Inv_row_start[OF s(2)] X le(2), of Bth] s(1)
    show ?thesis by (simp add: BF_Prefix_def)
  qed
qed

subsection \<open>Reclaiming forwarding stubs\<close>

lemma Reduce_Col_Heap:
  fixes s :: "'a Scan_scheme"
  shows "Reduce_Col X s = Inr s1 \<Longrightarrow> Heap s1 = Heap s \<and> RowBlob s1 = RowBlob s"
  by (auto simp: Reduce_Col_def split: if_splits option.splits)

lemma Touch_stub:
  fixes s :: "'a Scan_scheme"
  assumes "Touch X Y e s = Inr s1" "FP (Heap s b) = None" "FP (Heap s1 b) \<noteq> None"
  shows "Expire (Heap s1 b) = e"
proof (cases "ColBlobs s ! X")
  case (Some c)
  show ?thesis
  proof (cases "RowBlob s")
    case None
    with Some assms(1) have "s1 = s\<lparr>RowBlob := Some c\<rparr>" by (simp add: Touch_def)
    with assms(2,3) show ?thesis by simp
  next
    case (Some r)
    with \<open>ColBlobs s ! X = Some c\<close> assms(1) have "s1 = s\<lparr>Heap := Merge_Blobs c r e (Heap s)\<rparr>"
      by (simp add: Touch_def)
    with assms(2,3) show ?thesis
      by (simp add: Merge_Blobs_FP Merge_Blobs_Expire split: if_splits)
  qed
next
  case None
  show ?thesis
  proof (cases "RowBlob s")
    case (Some r)
    with None assms(1) have "s1 = s" by (simp add: Touch_def)
    with assms(2,3) show ?thesis by simp
  next
    case rn: None
    from New_Blob_cases[of "int X" "int Y" 0 s] None rn assms(1)
    obtain a nb free mem where
      "s1 = s\<lparr>Heap := (Heap s)(a := nb), FreeBlobs := free, BlobMem := mem,
              Blobs := a # Blobs s, RowBlob := Some a\<rparr>" "FP nb = None"
      by (auto simp: Touch_def)
    with assms(2,3) show ?thesis by (simp split: if_splits)
  qed
qed

lemma BF_Pixel_stub:
  assumes "BF_Pixel dm Bth Y X s = Inr s'" "FP (Heap s b) = None" "FP (Heap s' b) \<noteq> None"
  shows "Expire (Heap s' b) = int Y + 1"
proof -
  from assms(1) obtain s0 where r: "Reduce_Col X s = Inr s0"
    by (auto simp: BF_Pixel_def split: sum.splits)
  from Reduce_Col_Heap[OF r] have h0: "Heap s0 = Heap s" by simp
  show ?thesis
  proof (cases "Bth \<le> dm ! MapI s0")
    case False
    with assms(1) r have "Heap s' = Heap s0"
      by (auto simp: BF_Pixel_def split: if_splits)
    with h0 assms(2,3) show ?thesis by simp
  next
    case True
    with assms(1) r obtain s1 t where t: "Touch X Y (int Y + 1) s0 = Inr s1"
      and h': "Heap s' = Add_Position t (int X) (int Y) (Heap s1)"
      by (auto simp: BF_Pixel_def split: if_splits sum.splits option.splits)
    from assms(3) h' have "FP (Heap s1 b) \<noteq> None" by (simp add: Add_Position_FP)
    from Touch_stub[OF t _ this] assms(2) h0 have "Expire (Heap s1 b) = int Y + 1" by simp
    with h' show ?thesis by (simp add: Add_Position_Expire)
  qed
qed

lemma BF_Inv_reclaimed:
  assumes I: "BF_Inv W N Y W s" and b: "b \<in> set (Blobs s)" "Expire (Heap s b) = int Y"
  shows "FP (Heap s b) \<noteq> None \<and> Some b \<notin> set (ColBlobs s) \<and> RowBlob s \<noteq> Some b \<and>
         (\<forall>c\<in>set (Blobs s). FP (Heap s c) = Some b \<longrightarrow> Expire (Heap s c) = int Y)"
proof -
  from I have F: "Forest s" and T: "Timed Y W s" and C: "Counted W N Y W s"
    by (simp_all add: BF_Inv_def)
  note P = Forest_parts[OF F]
  note Q = Timed_parts[OF T]
  from C have len: "length (ColBlobs s) = W" by (simp add: Counted_def)
  have st: "\<And>x. x \<in> set (Blobs s) \<Longrightarrow> case FP (Heap s x) of None \<Rightarrow> Expire (Heap s x) = - 1
             | Some d \<Rightarrow> (Expire (Heap s x) = int Y \<or> Expire (Heap s x) = int Y + 1) \<and>
                         (FP (Heap s d) \<noteq> None \<longrightarrow> Expire (Heap s x) \<le> Expire (Heap s d))"
    using Q(1) by (simp add: Stamped_def)
  from st[OF b(1)] b(2) have stub: "FP (Heap s b) \<noteq> None" by (cases "FP (Heap s b)") auto
  have nocol: "Some b \<notin> set (ColBlobs s)"
  proof
    assume "Some b \<in> set (ColBlobs s)"
    then obtain x where x: "x < length (ColBlobs s)" "ColBlobs s ! x = Some b"
      by (auto simp: in_set_conv_nth)
    from x(1) len have "x < W" by simp
    from Q(2)[OF this x stub] b(2) show False by simp
  qed
  have norow: "RowBlob s \<noteq> Some b"
  proof
    assume "RowBlob s = Some b"
    from P(3)[OF this] stub show False by simp
  qed
  have "\<forall>c\<in>set (Blobs s). FP (Heap s c) = Some b \<longrightarrow> Expire (Heap s c) = int Y"
  proof (intro ballI impI)
    fix c assume c: "c \<in> set (Blobs s)" "FP (Heap s c) = Some b"
    from st[OF c(1)] c(2) stub b(2) show "Expire (Heap s c) = int Y" by auto
  qed
  with stub nocol norow show ?thesis by simp
qed

text \<open>
  Claim C2. In \<open>Blob_Finder\<close>, a blob that becomes a forwarding stub while a pixel of row
  \<open>Y\<close> is processed has its \<open>Expire\<close> set to \<open>Y + 1\<close>; the reap step after row \<open>Y\<close>
  keeps exactly the active blobs whose \<open>Expire\<close> differs from \<open>Y\<close> and pushes the others on
  the free list, touching neither the blobs' contents nor the column references; and when
  row \<open>Y\<close> of a scan has been processed (unless the allocator ran out of memory before),
  every active blob about to be reclaimed is a forwarding stub that no column reference
  and not the row reference points to, and only blobs reclaimed with it forward to it.
\<close>

theorem Blob_Finder_reclaim_after_row:
  assumes P: "Pool_OK pool" and dm: "nat W' * nat H' \<le> length dm" and Y: "Y < nat H'"
  shows "(\<forall>X s s' b. BF_Pixel dm Bth Y X s = Inr s' \<and> FP (Heap s b) = None \<and> FP (Heap s' b) \<noteq> None
            \<longrightarrow> Expire (Heap s' b) = int Y + 1)
       \<and> (\<forall>s. Blobs (Reap_Row Y s) = filter (\<lambda>b. Expire (Heap s b) \<noteq> int Y) (Blobs s) \<and>
               FreeBlobs (Reap_Row Y s)
                 = rev (filter (\<lambda>b. Expire (Heap s b) = int Y) (Blobs s)) @ FreeBlobs s \<and>
               Heap (Reap_Row Y s) = Heap s \<and> ColBlobs (Reap_Row Y s) = ColBlobs s)
       \<and> (case BF_Prefix dm W' Bth Y (nat W') pool of
            Inl e \<Rightarrow> e = AllocFail \<and>
                     length (FreeBlobs pool) + length (BlobMem pool) < Y * nat W' + nat W' + 19
          | Inr s \<Rightarrow>
              BF_Scan dm W' Bth [0..<Suc Y] pool = Inr (Reap_Row Y s) \<and>
              (\<forall>b\<in>set (Blobs s). Expire (Heap s b) = int Y \<longrightarrow>
                 FP (Heap s b) \<noteq> None \<and> Some b \<notin> set (ColBlobs s) \<and> RowBlob s \<noteq> Some b \<and>
                 (\<forall>c\<in>set (Blobs s). FP (Heap s c) = Some b \<longrightarrow> Expire (Heap s c) = int Y)))"
proof (intro conjI)
  show "\<forall>X s s' b. BF_Pixel dm Bth Y X s = Inr s' \<and> FP (Heap s b) = None \<and> FP (Heap s' b) \<noteq> None
            \<longrightarrow> Expire (Heap s' b) = int Y + 1"
    using BF_Pixel_stub by blast
next
  show "\<forall>s. Blobs (Reap_Row Y s) = filter (\<lambda>b. Expire (Heap s b) \<noteq> int Y) (Blobs s) \<and>
               FreeBlobs (Reap_Row Y s)
                 = rev (filter (\<lambda>b. Expire (Heap s b) = int Y) (Blobs s)) @ FreeBlobs s \<and>
               Heap (Reap_Row Y s) = Heap s \<and> ColBlobs (Reap_Row Y s) = ColBlobs s"
    by (simp add: Reap_Row_eq)
next
  let ?W = "nat W'"
  let ?N = "length (FreeBlobs pool) + length (BlobMem pool)"
  from Y have "Suc Y \<le> nat H'" by simp
  then have "Suc Y * ?W \<le> nat H' * ?W" by (rule mult_le_mono1)
  with dm have le: "Y * ?W + ?W \<le> length dm" by (simp add: mult.commute)
  from BF_Prefix_inv[OF P le_refl le refl, of Bth]
  show "case BF_Prefix dm W' Bth Y ?W pool of
            Inl e \<Rightarrow> e = AllocFail \<and> ?N < Y * ?W + ?W + 19
          | Inr s \<Rightarrow>
              BF_Scan dm W' Bth [0..<Suc Y] pool = Inr (Reap_Row Y s) \<and>
              (\<forall>b\<in>set (Blobs s). Expire (Heap s b) = int Y \<longrightarrow>
                 FP (Heap s b) \<noteq> None \<and> Some b \<notin> set (ColBlobs s) \<and> RowBlob s \<noteq> Some b \<and>
                 (\<forall>c\<in>set (Blobs s). FP (Heap s c) = Some b \<longrightarrow> Expire (Heap s c) = int Y))"
  proof
    assume "BF_Prefix dm W' Bth Y ?W pool = Inl AllocFail \<and> ?N < Y * ?W + ?W + 19"
    then show ?thesis by simp
  next
    assume "\<exists>s. BF_Prefix dm W' Bth Y ?W pool = Inr s \<and> BF_Inv ?W ?N Y ?W s"
    then obtain s where s: "BF_Prefix dm W' Bth Y ?W pool = Inr s" "BF_Inv ?W ?N Y ?W s" by blast
    from s(1) obtain s0 where s0: "BF_Scan dm W' Bth [0..<Y] pool = Inr s0"
      "For_Each (BF_Pixel dm Bth Y) [0..<?W] (s0\<lparr>RowBlob := None\<rparr>) = Inr s"
      by (auto simp: BF_Prefix_def split: sum.splits)
    have run: "BF_Scan dm W' Bth [0..<Suc Y] pool = Inr (Reap_Row Y s)"
      using s0 by (simp add: BF_Scan_def For_Each_append BF_Row_def)
    have "\<forall>b\<in>set (Blobs s). Expire (Heap s b) = int Y \<longrightarrow>
                 FP (Heap s b) \<noteq> None \<and> Some b \<notin> set (ColBlobs s) \<and> RowBlob s \<noteq> Some b \<and>
                 (\<forall>c\<in>set (Blobs s). FP (Heap s c) = Some b \<longrightarrow> Expire (Heap s c) = int Y)"
      using BF_Inv_reclaimed[OF s(2)] by blast
    with run s(1) show ?thesis by simp
  qed
qed

theorem Blob_Finder_reclaim_after_row_witness:
  "map_sum id (Reclaim_View 2) (BF_Prefix [1,0,1, 1,1,1, 0,0,0, 1,0,1] 3 1 2 3 Pool0)
     = Inr ([2, 1], [None, None, None], [(2, Some 1), (- 1, None)], [1])"
  (is "map_sum id (Reclaim_View 2) ?run = Inr ?v")
proof -
  have p: "Pool_OK Pool0" by (simp add: Pool_OK_def Pool0_def)
  have d: "nat 3 * nat 4 \<le> length [1,0,1, 1,1,1, 0,0,0, 1,0,1::int]" and y: "(2::nat) < nat 4"
    by simp_all
  note t = Blob_Finder_reclaim_after_row[OF p d y, of 1, THEN conjunct2, THEN conjunct2]
  have e: "map_sum id (Reclaim_View 2) ?run = Inr ?v" by code_simp
  then obtain s where s: "?run = Inr s" by (cases ?run) auto
  from t s have "\<forall>b\<in>set (Blobs s). Expire (Heap s b) = int 2 \<longrightarrow> Some b \<notin> set (ColBlobs s)"
    by simp
  with e show ?thesis by simp
qed

subsection \<open>Merging blobs that touch\<close>

lemma Merge_Blobs_union:
  assumes "c \<noteq> r"
  shows "Xmin (Merge_Blobs c r e h r) = min (Xmin (h c)) (Xmin (h r))"
    and "Ymin (Merge_Blobs c r e h r) = min (Ymin (h c)) (Ymin (h r))"
    and "Xmax (Merge_Blobs c r e h r) = max (Xmax (h c)) (Xmax (h r))"
    and "Ymax (Merge_Blobs c r e h r) = max (Ymax (h c)) (Ymax (h r))"
    and "Blob.Count (Merge_Blobs c r e h r) = Blob.Count (h r) + Blob.Count (h c)"
    and "Xsum (Merge_Blobs c r e h r) = Xsum (h r) + Xsum (h c)"
    and "Ysum (Merge_Blobs c r e h r) = Ysum (h r) + Ysum (h c)"
    and "FP (Merge_Blobs c r e h r) = FP (h r)"
    and "Merge_Blobs c r e h c = (h c)\<lparr>FP := Some r, Expire := e\<rparr>"
    and "\<forall>b. b \<noteq> c \<and> b \<noteq> r \<longrightarrow> Merge_Blobs c r e h b = h b"
  using assms by (simp_all add: Merge_Blobs_def Let_def)

lemma Number_Blobs_from_frame:
  "(Number_Blobs_from i bs h b)\<lparr>ID := x\<rparr> = (h b)\<lparr>ID := x\<rparr>"
  by (induction bs arbitrary: i h) auto

lemma Number_Blobs_from_FP: "FP (Number_Blobs_from i bs h b) = FP (h b)"
  by (induction bs arbitrary: i h) auto

lemma Number_Blobs_from_notin:
  "b \<notin> set bs \<Longrightarrow> Number_Blobs_from i bs h b = h b"
  by (induction bs arbitrary: i h) auto

lemma upt_ids: "map (\<lambda>k. i + int k) [0..<Suc n] = i # map (\<lambda>k. i + 1 + int k) [0..<n]"
proof -
  have "[0..<Suc n] = 0 # map Suc [0..<n]" by (simp add: upt_conv_Cons map_Suc_upt del: upt_Suc)
  then show ?thesis by (simp add: o_def add.assoc del: upt_Suc)
qed

lemma Number_Blobs_from_ids:
  "distinct bs \<Longrightarrow> \<forall>b\<in>set bs. FP (h b) = None \<Longrightarrow>
   map (\<lambda>b. ID (Number_Blobs_from i bs h b)) bs = map (\<lambda>k. i + int k) [0..<length bs]"
proof (induction bs arbitrary: i h)
  case Nil
  show ?case by simp
next
  case (Cons a bs)
  let ?h = "h(a := (h a)\<lparr>ID := i\<rparr>)"
  from Cons.prems have a: "a \<notin> set bs" "distinct bs" "FP (h a) = None"
    and fp: "\<forall>b\<in>set bs. FP (?h b) = None" by auto
  have hd: "ID (Number_Blobs_from (i + 1) bs ?h a) = i"
    using Number_Blobs_from_notin[OF a(1), of "i + 1" ?h] by simp
  have step: "Number_Blobs_from i (a # bs) h = Number_Blobs_from (i + 1) bs ?h"
    using a(3) by simp
  have "map (\<lambda>b. ID (Number_Blobs_from i (a # bs) h b)) (a # bs)
        = i # map (\<lambda>b. ID (Number_Blobs_from (i + 1) bs ?h b)) bs"
    unfolding step using hd by simp
  also have "\<dots> = i # map (\<lambda>k. i + 1 + int k) [0..<length bs]"
    using Cons.IH[of ?h "i + 1", OF a(2) fp] by (simp only:)
  also have "\<dots> = map (\<lambda>k. i + int k) [0..<length (a # bs)]"
    using upt_ids[of i "length bs"] by simp
  finally show ?case .
qed

lemma Blob_Finder_result:
  assumes P: "Pool_OK pool" and dm: "nat W' * nat H' \<le> length dm"
  shows "case Blob_Finder dm W' H' Bth pool of
           Inl e \<Rightarrow> e = AllocFail \<and>
                    length (FreeBlobs pool) + length (BlobMem pool) < nat H' * nat W' + 19
         | Inr (bs, pool') \<Rightarrow>
             (case BF_Scan dm W' Bth [0..<nat H'] pool of
                Inl e \<Rightarrow> False
              | Inr s \<Rightarrow>
                  bs = filter (\<lambda>b. FP (Heap s b) = None) (Blobs s) \<and> distinct bs \<and>
                  (\<forall>b\<in>set (Blobs s). FP (Heap s b) \<noteq> None \<longrightarrow>
                     b \<notin> set bs \<and> b \<in> set (FreeBlobs pool')) \<and>
                  (\<forall>b\<in>set bs. FP (Heap pool' b) = None) \<and>
                  map (\<lambda>b. ID (Heap pool' b)) bs = map (\<lambda>k. 1 + int k) [0..<length bs] \<and>
                  (\<forall>b x. (Heap pool' b)\<lparr>ID := x\<rparr> = (Heap s b)\<lparr>ID := x\<rparr>))"
proof -
  let ?N = "length (FreeBlobs pool) + length (BlobMem pool)"
  from dm have le: "nat H' * nat W' \<le> length dm" by (simp add: mult.commute)
  from BF_rows_inv[OF P le refl, of Bth]
  show ?thesis
  proof
    assume "BF_Scan dm W' Bth [0..<nat H'] pool = Inl AllocFail \<and> ?N < nat H' * nat W' + 19"
    then show ?thesis by (simp add: Blob_Finder_def)
  next
    assume "\<exists>s. BF_Scan dm W' Bth [0..<nat H'] pool = Inr s \<and> BF_Inv (nat W') ?N (nat H') 0 s"
    then obtain s where s: "BF_Scan dm W' Bth [0..<nat H'] pool = Inr s"
      and inv: "BF_Inv (nat W') ?N (nat H') 0 s" by blast
    let ?bs = "filter (\<lambda>b. FP (Heap s b) = None) (Blobs s)"
    let ?h = "Number_Blobs ?bs (Heap s)"
    let ?free = "rev (filter (\<lambda>b. FP (Heap s b) \<noteq> None) (Blobs s)) @ FreeBlobs s"
    from inv have "distinct (Blobs s @ FreeBlobs s @ BlobMem s)"
      by (simp add: BF_Inv_def Forest_def)
    then have d: "distinct ?bs" by simp
    have fp: "\<forall>b\<in>set ?bs. FP (Heap s b) = None" by simp
    have bf: "Blob_Finder dm W' H' Bth pool
                = Inr (?bs, \<lparr>Heap = ?h, FreeBlobs = ?free, BlobMem = BlobMem s\<rparr>)"
      using s by (simp add: Blob_Finder_def Reap_FP_Blobs_filter)
    have 1: "\<forall>b\<in>set (Blobs s). FP (Heap s b) \<noteq> None \<longrightarrow> b \<notin> set ?bs \<and> b \<in> set ?free"
      by simp
    have 2: "\<forall>b\<in>set ?bs. FP (?h b) = None"
      by (simp add: Number_Blobs_def Number_Blobs_from_FP)
    have 3: "map (\<lambda>b. ID (?h b)) ?bs = map (\<lambda>k. 1 + int k) [0..<length ?bs]"
      unfolding Number_Blobs_def by (rule Number_Blobs_from_ids[OF d fp])
    have 4: "\<forall>b x. (?h b)\<lparr>ID := x\<rparr> = (Heap s b)\<lparr>ID := x\<rparr>"
      by (simp add: Number_Blobs_def Number_Blobs_from_frame)
    from d 1 2 3 4 show ?thesis unfolding bf by (simp add: s)
  qed
qed

subsection \<open>Blobs and the regions of the map\<close>

lemma finite_Region [simp]: "finite (Region dm Bth n own r)"
  by (simp add: Region_def)

lemma Region_skip: "\<not> Worthy dm Bth n \<Longrightarrow> Region dm Bth (Suc n) own r = Region dm Bth n own r"
  by (auto simp: Region_def less_Suc_eq)

lemma Region_add:
  "Worthy dm Bth n \<Longrightarrow>
   Region dm Bth (Suc n) (own(n := r)) r' =
     (if r' = r then insert n (Region dm Bth n own r) else Region dm Bth n own r')"
  by (auto simp: Region_def less_Suc_eq)

lemma Region_notin: "n \<notin> Region dm Bth n own r"
  by (simp add: Region_def)

lemma Region_rename:
  assumes "c \<noteq> r"
  shows "Region dm Bth n (\<lambda>i. if own i = c then r else own i) r' =
           (if r' = c then {} else if r' = r then Region dm Bth n own r \<union> Region dm Bth n own c
            else Region dm Bth n own r')"
  using assms by (auto simp: Region_def)

lemma Region_disjoint: "c \<noteq> r \<Longrightarrow> Region dm Bth n own r \<inter> Region dm Bth n own c = {}"
  by (auto simp: Region_def)

lemma Stats_add:
  assumes S: "Stats W C (h r)" and f: "finite C" and n: "n \<notin> C"
    and x: "x = int (n mod W)" and y: "y = int (n div W)"
  shows "Stats W (insert n C) (Add_Position r x y h r)"
proof (cases "C = {}")
  case True
  with S have "Blob.Count (h r) = 0" "Xsum (h r) = 0" "Ysum (h r) = 0" by (simp_all add: Stats_def)
  with True x y show ?thesis by (simp add: Stats_def Add_Position_def)
next
  case False
  with S f have c: "Blob.Count (h r) \<noteq> 0" by (simp add: Stats_def)
  let ?fx = "\<lambda>i. int (i mod W)" and ?fy = "\<lambda>i. int (i div W)"
  from f False have fin: "finite (?fx ` C)" "?fx ` C \<noteq> {}" "finite (?fy ` C)" "?fy ` C \<noteq> {}"
    by simp_all
  have mx: "Min (?fx ` insert n C) = min x (Min (?fx ` C))" "Max (?fx ` insert n C) = max x (Max (?fx ` C))"
    using fin x by simp_all
  have my: "Min (?fy ` insert n C) = min y (Min (?fy ` C))" "Max (?fy ` insert n C) = max y (Max (?fy ` C))"
    using fin y by simp_all
  from S False have b: "Xmin (h r) = Min (?fx ` C)" "Xmax (h r) = Max (?fx ` C)"
    "Ymin (h r) = Min (?fy ` C)" "Ymax (h r) = Max (?fy ` C)"
    and s: "Blob.Count (h r) = int (card C)" "Xsum (h r) = sum ?fx C" "Ysum (h r) = sum ?fy C"
    by (simp_all add: Stats_def)
  have cnt: "Blob.Count (Add_Position r x y h r) = int (card (insert n C))"
    and xs: "Xsum (Add_Position r x y h r) = sum ?fx (insert n C)"
    and ys: "Ysum (Add_Position r x y h r) = sum ?fy (insert n C)"
    using s f n x y by (simp_all add: Add_Position_def Let_def)
  have bx: "Xmin (Add_Position r x y h r) = min x (Xmin (h r))"
    "Xmax (Add_Position r x y h r) = max x (Xmax (h r))"
    "Ymin (Add_Position r x y h r) = min y (Ymin (h r))"
    "Ymax (Add_Position r x y h r) = max y (Ymax (h r))"
    using c by (simp_all add: Add_Position_def Let_def min_def max_def)
  show ?thesis unfolding Stats_def mx my using cnt xs ys bx b by simp
qed

lemma Stats_merge:
  assumes S1: "Stats W C1 (h c)" and S2: "Stats W C2 (h r)" and f: "finite C1" "finite C2"
    and d: "C2 \<inter> C1 = {}" and ne: "C1 \<noteq> {}" "C2 \<noteq> {}" and cr: "c \<noteq> r"
  shows "Stats W (C2 \<union> C1) (Merge_Blobs c r e h r)"
proof -
  let ?fx = "\<lambda>i. int (i mod W)" and ?fy = "\<lambda>i. int (i div W)"
  from f ne have fin: "finite (?fx ` C1)" "?fx ` C1 \<noteq> {}" "finite (?fy ` C1)" "?fy ` C1 \<noteq> {}"
    "finite (?fx ` C2)" "?fx ` C2 \<noteq> {}" "finite (?fy ` C2)" "?fy ` C2 \<noteq> {}"
    by simp_all
  have mx: "Min (?fx ` (C2 \<union> C1)) = min (Min (?fx ` C1)) (Min (?fx ` C2))"
    "Max (?fx ` (C2 \<union> C1)) = max (Max (?fx ` C1)) (Max (?fx ` C2))"
    using fin by (simp_all add: image_Un Min_Un Max_Un min.commute max.commute)
  have my: "Min (?fy ` (C2 \<union> C1)) = min (Min (?fy ` C1)) (Min (?fy ` C2))"
    "Max (?fy ` (C2 \<union> C1)) = max (Max (?fy ` C1)) (Max (?fy ` C2))"
    using fin by (simp_all add: image_Un Min_Un Max_Un min.commute max.commute)
  have cnt: "int (card (C2 \<union> C1)) = int (card C2) + int (card C1)"
    using f d by (simp add: card_Un_disjoint)
  have sm: "sum ?fx (C2 \<union> C1) = sum ?fx C2 + sum ?fx C1" "sum ?fy (C2 \<union> C1) = sum ?fy C2 + sum ?fy C1"
    using f d by (simp_all add: sum.union_disjoint)
  note M = Merge_Blobs_union[OF cr, of e h]
  from S1 S2 ne show ?thesis
    unfolding Stats_def mx my cnt sm M(1-7) by simp
qed

lemma Links_mono: "Links W dm Bth n \<subseteq> Links W dm Bth (Suc n)"
  by (auto simp: Links_def)

lemma Links_sym: "sym (Links W dm Bth n)"
  by (auto simp: Links_def sym_def)

lemma Joined_mono: "(i, j) \<in> (Links W dm Bth n)\<^sup>* \<Longrightarrow> (i, j) \<in> (Links W dm Bth (Suc n))\<^sup>*"
  using rtrancl_mono[OF Links_mono] by blast

lemma Joined_sym: "(i, j) \<in> (Links W dm Bth n)\<^sup>* \<Longrightarrow> (j, i) \<in> (Links W dm Bth n)\<^sup>*"
  using sym_rtrancl[OF Links_sym] by (simp add: sym_def)

subsection \<open>A cell that is not blob-worthy\<close>

lemma Rooted_skip:
  "Rooted dm Bth n h A own \<Longrightarrow> \<not> Worthy dm Bth n \<Longrightarrow> Rooted dm Bth (Suc n) h A own"
  by (auto simp: Rooted_def less_Suc_eq)

lemma Agree_skip:
  "Agree W dm Bth n own \<Longrightarrow> \<not> Worthy dm Bth n \<Longrightarrow> Agree W dm Bth (Suc n) own"
  by (auto simp: Agree_def less_Suc_eq)

lemma Connected_skip:
  assumes "Connected W dm Bth n own" "\<not> Worthy dm Bth n"
  shows "Connected W dm Bth (Suc n) own"
  unfolding Connected_def
proof (intro allI impI)
  fix i j assume "i < Suc n" "j < Suc n"
    and w: "Worthy dm Bth i \<and> Worthy dm Bth j \<and> own i = own j"
  with assms(2) have "i < n" "j < n" by (auto simp: less_Suc_eq)
  with assms(1) w have "(i, j) \<in> (Links W dm Bth n)\<^sup>*" by (simp add: Connected_def)
  then show "(i, j) \<in> (Links W dm Bth (Suc n))\<^sup>*" by (rule Joined_mono)
qed

lemma Measured_skip:
  "Measured W dm Bth n h A own \<Longrightarrow> \<not> Worthy dm Bth n \<Longrightarrow> Measured W dm Bth (Suc n) h A own"
  by (simp add: Measured_def Region_skip)

lemma Inhabited_skip:
  "Inhabited dm Bth n h A own \<Longrightarrow> \<not> Worthy dm Bth n \<Longrightarrow> Inhabited dm Bth (Suc n) h A own"
  by (simp add: Inhabited_def Region_skip)

subsection \<open>Merging the column blob into the row blob\<close>

lemma Rooted_merge:
  assumes R: "Rooted dm Bth n h A own" and r: "r \<in> A" "FP (h r) = None" and cr: "c \<noteq> r"
  shows "Rooted dm Bth n (Merge_Blobs c r e h) A (\<lambda>i. if own i = c then r else own i)"
  unfolding Rooted_def
proof (intro allI impI)
  fix i assume "i < n" "Worthy dm Bth i"
  with R have o: "own i \<in> A" "FP (h (own i)) = None" by (simp_all add: Rooted_def)
  with r cr show "(if own i = c then r else own i) \<in> A \<and>
      FP (Merge_Blobs c r e h (if own i = c then r else own i)) = None"
    by (simp add: Merge_Blobs_FP)
qed

lemma Agree_rename:
  "Agree W dm Bth n own \<Longrightarrow> Agree W dm Bth n (\<lambda>i. f (own i))"
  by (simp add: Agree_def)

lemma Measured_merge:
  assumes M: "Measured W dm Bth n h A own" and I: "Inhabited dm Bth n h A own"
    and c: "c \<in> A" "FP (h c) = None" and r: "r \<in> A" "FP (h r) = None" and cr: "c \<noteq> r"
  shows "Measured W dm Bth n (Merge_Blobs c r e h) A (\<lambda>i. if own i = c then r else own i)"
  unfolding Measured_def
proof (intro ballI impI)
  fix x assume x: "x \<in> A" and fp: "FP (Merge_Blobs c r e h x) = None"
  let ?own = "\<lambda>i. if own i = c then r else own i"
  from fp cr have xc: "x \<noteq> c" and fx: "FP (h x) = None" by (auto simp: Merge_Blobs_FP split: if_splits)
  show "Stats W (Region dm Bth n ?own x) (Merge_Blobs c r e h x)"
  proof (cases "x = r")
    case True
    from M c have S1: "Stats W (Region dm Bth n own c) (h c)" by (simp add: Measured_def)
    from M r have S2: "Stats W (Region dm Bth n own r) (h r)" by (simp add: Measured_def)
    from I c r have ne: "Region dm Bth n own c \<noteq> {}" "Region dm Bth n own r \<noteq> {}"
      by (simp_all add: Inhabited_def)
    from Stats_merge[OF S1 S2 finite_Region finite_Region Region_disjoint[OF cr] ne cr, of e]
    show ?thesis using True cr by (simp add: Region_rename)
  next
    case False
    with xc have same: "Merge_Blobs c r e h x = h x" using Merge_Blobs_union(10)[OF cr, of e h] by simp
    from M x fx have "Stats W (Region dm Bth n own x) (h x)" by (simp add: Measured_def)
    with False xc cr same show ?thesis by (simp add: Region_rename)
  qed
qed

lemma Inhabited_merge:
  assumes I: "Inhabited dm Bth n h A own" and cr: "c \<noteq> r"
  shows "Inhabited dm Bth n (Merge_Blobs c r e h) A (\<lambda>i. if own i = c then r else own i)"
  unfolding Inhabited_def
proof (intro ballI impI)
  fix x assume x: "x \<in> A" and fp: "FP (Merge_Blobs c r e h x) = None"
  from fp cr have xc: "x \<noteq> c" and fx: "FP (h x) = None" by (auto simp: Merge_Blobs_FP split: if_splits)
  from I x fx have "Region dm Bth n own x \<noteq> {}" by (simp add: Inhabited_def)
  with xc cr show "Region dm Bth n (\<lambda>i. if own i = c then r else own i) x \<noteq> {}"
    by (auto simp: Region_rename)
qed

subsection \<open>Allocating a blob\<close>

lemma Rooted_new:
  assumes R: "Rooted dm Bth n h A own" and a: "a \<notin> A"
  shows "Rooted dm Bth n (h(a := nb)) (insert a A) own"
  using assms by (auto simp: Rooted_def)

lemma Region_fresh:
  assumes R: "Rooted dm Bth n h A own" and a: "a \<notin> A"
  shows "Region dm Bth n own a = {}"
  using assms by (auto simp: Rooted_def Region_def)

lemma Measured_new:
  assumes M: "Measured W dm Bth n h A own" and R: "Rooted dm Bth n h A own" and a: "a \<notin> A"
    and nb: "Blob.Count nb = 0" "Xsum nb = 0" "Ysum nb = 0"
  shows "Measured W dm Bth n (h(a := nb)) (insert a A) own"
  unfolding Measured_def
proof (intro ballI impI)
  fix x assume x: "x \<in> insert a A" and fp: "FP ((h(a := nb)) x) = None"
  show "Stats W (Region dm Bth n own x) ((h(a := nb)) x)"
  proof (cases "x = a")
    case True
    with nb Region_fresh[OF R a] show ?thesis by (simp add: Stats_def)
  next
    case False
    with x fp M show ?thesis by (simp add: Measured_def)
  qed
qed

subsection \<open>Adding the cell to the row blob\<close>

lemma Rooted_add:
  assumes R: "Rooted dm Bth n h A own" and r: "r \<in> A" "FP (h r) = None"
  shows "Rooted dm Bth (Suc n) (Add_Position r x y h) A (own(n := r))"
  using assms by (auto simp: Rooted_def less_Suc_eq Add_Position_FP)

lemma Measured_add:
  assumes M: "Measured W dm Bth n h A own" and r: "r \<in> A" "FP (h r) = None"
    and w: "Worthy dm Bth n" and x: "x = int (n mod W)" and y: "y = int (n div W)"
  shows "Measured W dm Bth (Suc n) (Add_Position r x y h) A (own(n := r))"
  unfolding Measured_def
proof (intro ballI impI)
  fix b assume b: "b \<in> A" and fp: "FP (Add_Position r x y h b) = None"
  then have fb: "FP (h b) = None" by (simp add: Add_Position_FP)
  show "Stats W (Region dm Bth (Suc n) (own(n := r)) b) (Add_Position r x y h b)"
  proof (cases "b = r")
    case True
    from M r have "Stats W (Region dm Bth n own r) (h r)" by (simp add: Measured_def)
    then have "Stats W (insert n (Region dm Bth n own r)) (Add_Position r x y h r)"
      using x y by (intro Stats_add) (simp_all add: Region_notin)
    with True w show ?thesis by (simp add: Region_add)
  next
    case False
    then have "Add_Position r x y h b = h b" by (simp add: Add_Position_def Let_def)
    with M b fb False w show ?thesis by (simp add: Measured_def Region_add)
  qed
qed

lemma Inhabited_add:
  assumes I: "\<forall>b\<in>A. FP (h b) = None \<longrightarrow> b = r \<or> Region dm Bth n own b \<noteq> {}"
    and w: "Worthy dm Bth n"
  shows "Inhabited dm Bth (Suc n) (Add_Position r x y h) A (own(n := r))"
  unfolding Inhabited_def
proof (intro ballI impI)
  fix b assume b: "b \<in> A" and fp: "FP (Add_Position r x y h b) = None"
  then have "FP (h b) = None" by (simp add: Add_Position_FP)
  with I b have "b = r \<or> Region dm Bth n own b \<noteq> {}" by blast
  with w show "Region dm Bth (Suc n) (own(n := r)) b \<noteq> {}" by (auto simp: Region_add)
qed

lemma Agree_add:
  assumes A: "Agree W dm Bth n own" and N: "\<forall>i<n. Worthy dm Bth i \<and> Adjacent W i n \<longrightarrow> own i = r"
  shows "Agree W dm Bth (Suc n) (own(n := r))"
  unfolding Agree_def
proof (intro allI impI)
  fix i j assume i: "i < Suc n" and j: "j < Suc n"
    and w: "Worthy dm Bth i \<and> Worthy dm Bth j \<and> Adjacent W i j"
  show "(own(n := r)) i = (own(n := r)) j"
  proof (cases "j = n")
    case True
    show ?thesis
    proof (cases "i = n")
      case False
      with i have "i < n" by simp
      with N w True have "own i = r" by blast
      with True False show ?thesis by simp
    qed (simp add: True)
  next
    case False
    with j have jn: "j < n" by simp
    from w have "i \<le> j" by (auto simp: Adjacent_def)
    with jn have "i < n" by simp
    with A jn w have "own i = own j" by (simp add: Agree_def)
    with False \<open>i < n\<close> show ?thesis by simp
  qed
qed

lemma Connected_add:
  assumes C: "Connected W dm Bth n own" and w: "Worthy dm Bth n" and o: "own' n = r"
    and near: "\<forall>i<n. Worthy dm Bth i \<and> own' i = r \<longrightarrow>
                 (\<exists>m<n. Worthy dm Bth m \<and> own m = own i \<and> Adjacent W m n)"
    and far: "\<forall>i<n. \<forall>j<n. Worthy dm Bth i \<and> Worthy dm Bth j \<and> own' i = own' j \<and> own' i \<noteq> r
                 \<longrightarrow> own i = own j"
  shows "Connected W dm Bth (Suc n) own'"
proof -
  have hub: "(i, n) \<in> (Links W dm Bth (Suc n))\<^sup>*"
    if i: "i < Suc n" "Worthy dm Bth i" "own' i = r" for i
  proof (cases "i = n")
    case True
    then show ?thesis by simp
  next
    case False
    with i have "i < n" by simp
    with near i obtain m where m: "m < n" "Worthy dm Bth m" "own m = own i" "Adjacent W m n"
      by blast
    from C \<open>i < n\<close> m i have "(i, m) \<in> (Links W dm Bth n)\<^sup>*" by (simp add: Connected_def)
    then have "(i, m) \<in> (Links W dm Bth (Suc n))\<^sup>*" by (rule Joined_mono)
    moreover from m w have "(m, n) \<in> Links W dm Bth (Suc n)" by (simp add: Links_def)
    ultimately show ?thesis by (rule rtrancl_into_rtrancl)
  qed
  show ?thesis unfolding Connected_def
  proof (intro allI impI)
    fix i j assume i: "i < Suc n" and j: "j < Suc n"
      and w2: "Worthy dm Bth i \<and> Worthy dm Bth j \<and> own' i = own' j"
    show "(i, j) \<in> (Links W dm Bth (Suc n))\<^sup>*"
    proof (cases "own' i = r")
      case True
      with w2 i j have "(i, n) \<in> (Links W dm Bth (Suc n))\<^sup>*" "(j, n) \<in> (Links W dm Bth (Suc n))\<^sup>*"
        by (simp_all add: hub)
      from this(1) Joined_sym[OF this(2)] show ?thesis by (rule rtrancl_trans)
    next
      case False
      with o w2 have "i \<noteq> n" "j \<noteq> n" by auto
      with i j have "i < n" "j < n" by simp_all
      with far w2 False have "own i = own j" by blast
      with C \<open>i < n\<close> \<open>j < n\<close> w2 have "(i, j) \<in> (Links W dm Bth n)\<^sup>*" by (simp add: Connected_def)
      then show ?thesis by (rule Joined_mono)
    qed
  qed
qed

subsection \<open>The column table and the row blob\<close>

lemma resolves_root: "resolves h c r \<Longrightarrow> FP (h c) = None \<Longrightarrow> r = c"
  by (induction rule: resolves.induct) auto

lemma resolves_unique: "resolves h c r \<Longrightarrow> resolves h c r' \<Longrightarrow> r' = r"
  using resolves_Reduce_FP[of h c r] resolves_Reduce_FP[of h c r'] by simp

lemma resolves_same_FP:
  assumes "resolves h b r" and "\<forall>x. FP (h' x) = FP (h x)"
  shows "resolves h' b r"
  using resolves_frame[OF assms(1), of UNIV h'] assms(2) by simp

lemma Col_Cell_cases:
  assumes "x < W"
  shows "Col_Cell W Y (Suc X) x = (if x = X then Some (Y * W + X) else Col_Cell W Y X x)"
  by (auto simp: Col_Cell_def)

lemma Col_Cell_less:
  assumes "Col_Cell W Y X x = Some i" "x < W" "X \<le> W"
  shows "i < Y * W + X \<and> (x \<noteq> X \<or> i + W = Y * W + X)"
proof (cases "x < X")
  case True
  with assms show ?thesis by (simp add: Col_Cell_def)
next
  case False
  with assms have Y: "0 < Y" and i: "i = (Y - 1) * W + x"
    by (auto simp: Col_Cell_def split: if_splits)
  from Y obtain y where y: "Y = Suc y" by (cases Y) auto
  with i assms(2) show ?thesis by auto
qed

lemma Cols_reduce:
  assumes C: "Cols_OK W dm Bth Y X own h cols"
    and oth: "\<forall>x. x \<noteq> X \<longrightarrow> cb ! x = cols ! x"
    and atX: "case cols ! X of None \<Rightarrow> cb ! X = None
              | Some c \<Rightarrow> \<exists>r. cb ! X = Some r \<and> resolves h c r"
  shows "Cols_OK W dm Bth Y X own h cb"
  unfolding Cols_OK_def
proof (intro allI impI)
  fix x assume x: "x < W"
  from C x have old: "case Col_Cell W Y X x of
               None \<Rightarrow> cols ! x = None
             | Some i \<Rightarrow> if Worthy dm Bth i then (\<exists>c. cols ! x = Some c \<and> resolves h c (own i))
                         else cols ! x = None"
    by (simp add: Cols_OK_def)
  show "case Col_Cell W Y X x of
               None \<Rightarrow> cb ! x = None
             | Some i \<Rightarrow> if Worthy dm Bth i then (\<exists>c. cb ! x = Some c \<and> resolves h c (own i))
                         else cb ! x = None"
  proof (cases "x = X")
    case False
    with oth have e: "cb ! x = cols ! x" by simp
    show ?thesis unfolding e by (rule old)
  next
    case True
    show ?thesis
    proof (cases "cols ! X")
      case None
      with atX have "cb ! X = None" by simp
      with old True None show ?thesis by (auto split: option.splits if_splits)
    next
      case (Some c)
      with atX obtain r where r: "cb ! X = Some r" "resolves h c r" by auto
      from resolves_Reduce_FP[OF r(2)] have "FP (h r) = None" by simp
      then have rr: "resolves h r r" by (rule resolves.root)
      show ?thesis
      proof (cases "Col_Cell W Y X x")
        case None
        with old True Some show ?thesis by simp
      next
        case (Some i)
        show ?thesis
        proof (cases "Worthy dm Bth i")
          case False
          with old Some True \<open>cols ! X = Some c\<close> show ?thesis by simp
        next
          case w: True
          with old Some True \<open>cols ! X = Some c\<close> have "resolves h c (own i)" by simp
          from resolves_unique[OF r(2) this] have "own i = r" .
          with rr r(1) Some w True show ?thesis by simp
        qed
      qed
    qed
  qed
qed

lemma Cols_map:
  assumes C: "Cols_OK W dm Bth Y X own h cols"
    and res: "\<And>c i. resolves h c (own i) \<Longrightarrow> (\<exists>x<W. cols ! x = Some c) \<Longrightarrow> resolves h' c (own' i)"
  shows "Cols_OK W dm Bth Y X own' h' cols"
  unfolding Cols_OK_def
proof (intro allI impI)
  fix x assume x: "x < W"
  from C x have old: "case Col_Cell W Y X x of
               None \<Rightarrow> cols ! x = None
             | Some i \<Rightarrow> if Worthy dm Bth i then (\<exists>c. cols ! x = Some c \<and> resolves h c (own i))
                         else cols ! x = None"
    by (simp add: Cols_OK_def)
  show "case Col_Cell W Y X x of
               None \<Rightarrow> cols ! x = None
             | Some i \<Rightarrow> if Worthy dm Bth i then (\<exists>c. cols ! x = Some c \<and> resolves h' c (own' i))
                         else cols ! x = None"
  proof (cases "Col_Cell W Y X x")
    case None
    with old show ?thesis by simp
  next
    case (Some i)
    show ?thesis
    proof (cases "Worthy dm Bth i")
      case False
      with old Some show ?thesis by simp
    next
      case True
      with old Some obtain c where c: "cols ! x = Some c" "resolves h c (own i)" by auto
      from res[OF c(2)] x c(1) have "resolves h' c (own' i)" by blast
      with c(1) Some True show ?thesis by simp
    qed
  qed
qed

lemma Cols_merge:
  assumes C: "Cols_OK W dm Bth Y X own h cols"
    and c: "FP (h c) = None" and r: "FP (h r) = None" and cr: "c \<noteq> r"
  shows "Cols_OK W dm Bth Y X (\<lambda>i. if own i = c then r else own i) (Merge_Blobs c r e h) cols"
proof (rule Cols_map[OF C])
  fix b i assume "resolves h b (own i)"
  from resolves_merge[OF this c r cr, of "Merge_Blobs c r e h"] cr
  show "resolves (Merge_Blobs c r e h) b (if own i = c then r else own i)"
    by (simp add: Merge_Blobs_FP)
qed

lemma Cols_new:
  assumes C: "Cols_OK W dm Bth Y X own h cols"
    and A: "\<forall>x<W. \<forall>b. cols ! x = Some b \<longrightarrow> b \<in> A" and L: "Linked h A" and a: "a \<notin> A"
  shows "Cols_OK W dm Bth Y X own (h(a := nb)) cols"
proof (rule Cols_map[OF C])
  fix b i assume res: "resolves h b (own i)" and "\<exists>x<W. cols ! x = Some b"
  with A have b: "b \<in> A" by blast
  have "\<forall>x\<in>A. FP ((h(a := nb)) x) = FP (h x)" using a by auto
  from resolves_frame[OF res b Linked_closed[OF L] this]
  show "resolves (h(a := nb)) b (own i)" .
qed

lemma Cols_add:
  assumes C: "Cols_OK W dm Bth Y X own h cols" and X: "X < W" and r: "FP (h r) = None"
    and fp: "\<forall>x. FP (h' x) = FP (h x)" and len: "length cols = W"
    and w: "Worthy dm Bth (Y * W + X)"
  shows "Cols_OK W dm Bth Y (Suc X) (own(Y * W + X := r)) h' (cols[X := Some r])"
  unfolding Cols_OK_def
proof (intro allI impI)
  fix x assume x: "x < W"
  let ?own = "own(Y * W + X := r)"
  from C x have old: "case Col_Cell W Y X x of
               None \<Rightarrow> cols ! x = None
             | Some i \<Rightarrow> if Worthy dm Bth i then (\<exists>c. cols ! x = Some c \<and> resolves h c (own i))
                         else cols ! x = None"
    by (simp add: Cols_OK_def)
  show "case Col_Cell W Y (Suc X) x of
               None \<Rightarrow> cols[X := Some r] ! x = None
             | Some i \<Rightarrow> if Worthy dm Bth i
                         then (\<exists>c. cols[X := Some r] ! x = Some c \<and> resolves h' c (?own i))
                         else cols[X := Some r] ! x = None"
  proof (cases "x = X")
    case True
    from r fp have "FP (h' r) = None" by simp
    then have "resolves h' r r" by (rule resolves.root)
    with True X len w show ?thesis by (simp add: Col_Cell_cases)
  next
    case False
    then have cc: "Col_Cell W Y (Suc X) x = Col_Cell W Y X x" using x by (simp add: Col_Cell_cases)
    from False have nx: "cols[X := Some r] ! x = cols ! x" by simp
    show ?thesis
    proof (cases "Col_Cell W Y X x")
      case None
      with old cc nx show ?thesis by simp
    next
      case (Some i)
      from Col_Cell_less[OF Some x] X have "i < Y * W + X" by simp
      then have oi: "?own i = own i" by simp
      show ?thesis
      proof (cases "Worthy dm Bth i")
        case False
        with old Some cc nx show ?thesis by simp
      next
        case True
        with old Some obtain c where c: "cols ! x = Some c" "resolves h c (own i)" by auto
        from resolves_same_FP[OF c(2) fp] have "resolves h' c (own i)" .
        with c(1) Some True cc nx oi show ?thesis by simp
      qed
    qed
  qed
qed

lemma Cols_skip:
  assumes C: "Cols_OK W dm Bth Y X own h cols" and X: "X < W" and len: "length cols = W"
    and w: "\<not> Worthy dm Bth (Y * W + X)"
  shows "Cols_OK W dm Bth Y (Suc X) own h (cols[X := None])"
  unfolding Cols_OK_def
proof (intro allI impI)
  fix x assume x: "x < W"
  from C x have old: "case Col_Cell W Y X x of
               None \<Rightarrow> cols ! x = None
             | Some i \<Rightarrow> if Worthy dm Bth i then (\<exists>c. cols ! x = Some c \<and> resolves h c (own i))
                         else cols ! x = None"
    by (simp add: Cols_OK_def)
  show "case Col_Cell W Y (Suc X) x of
               None \<Rightarrow> cols[X := None] ! x = None
             | Some i \<Rightarrow> if Worthy dm Bth i
                         then (\<exists>c. cols[X := None] ! x = Some c \<and> resolves h c (own i))
                         else cols[X := None] ! x = None"
  proof (cases "x = X")
    case True
    with X len w show ?thesis by (simp add: Col_Cell_cases)
  next
    case False
    then have e: "cols[X := None] ! x = cols ! x" by simp
    from False x have cc: "Col_Cell W Y (Suc X) x = Col_Cell W Y X x" by (simp add: Col_Cell_cases)
    show ?thesis unfolding e cc by (rule old)
  qed
qed

lemma Cols_next_row:
  assumes "Cols_OK W dm Bth Y W own h cols"
  shows "Cols_OK W dm Bth (Suc Y) 0 own h cols"
  using assms by (simp add: Cols_OK_def Col_Cell_def)

lemma Row_left:
  assumes R: "Row_OK W dm Bth Y X own row" and X: "X < W"
  shows "\<forall>i. Worthy dm Bth i \<and> Y * W + X = Suc i \<and> (Y * W + X) mod W \<noteq> 0 \<longrightarrow> row = Some (own i)"
    and "\<forall>r. row = Some r \<longrightarrow>
           (\<exists>m<Y * W + X. Worthy dm Bth m \<and> own m = r \<and> Adjacent W m (Y * W + X))"
proof -
  from X have m: "(Y * W + X) mod W = X" by simp
  show "\<forall>i. Worthy dm Bth i \<and> Y * W + X = Suc i \<and> (Y * W + X) mod W \<noteq> 0 \<longrightarrow> row = Some (own i)"
  proof (intro allI impI)
    fix i assume i: "Worthy dm Bth i \<and> Y * W + X = Suc i \<and> (Y * W + X) mod W \<noteq> 0"
    from i have "(Y * W + X) mod W \<noteq> 0" by blast
    then have "X \<noteq> 0" unfolding m .
    moreover from i have "Y * W + X = Suc i" by blast
    ultimately have "0 < X" "Y * W + X - 1 = i" by simp_all
    with R i show "row = Some (own i)" by (simp add: Row_OK_def)
  qed
  show "\<forall>r. row = Some r \<longrightarrow>
           (\<exists>m<Y * W + X. Worthy dm Bth m \<and> own m = r \<and> Adjacent W m (Y * W + X))"
  proof (intro allI impI)
    fix r assume "row = Some r"
    with R have x: "0 < X" and w: "Worthy dm Bth (Y * W + X - 1)" and o: "own (Y * W + X - 1) = r"
      by (auto simp: Row_OK_def split: if_splits)
    from x m have "Adjacent W (Y * W + X - 1) (Y * W + X)" by (simp add: Adjacent_def)
    with x w o show "\<exists>m<Y * W + X. Worthy dm Bth m \<and> own m = r \<and> Adjacent W m (Y * W + X)"
      by (intro exI[of _ "Y * W + X - 1"]) simp
  qed
qed

lemma Col_up:
  assumes C: "Cols_OK W dm Bth Y X own h cols" and X: "X < W"
    and root: "\<forall>c. cols ! X = Some c \<longrightarrow> FP (h c) = None"
  shows "\<forall>i. Worthy dm Bth i \<and> Y * W + X = i + W \<longrightarrow> cols ! X = Some (own i)"
    and "\<forall>c. cols ! X = Some c \<longrightarrow>
           (\<exists>m<Y * W + X. Worthy dm Bth m \<and> own m = c \<and> Adjacent W m (Y * W + X))"
    and "cols ! X = None \<longrightarrow> (\<forall>i. Worthy dm Bth i \<longrightarrow> Y * W + X \<noteq> i + W)"
proof -
  from C X have old: "case Col_Cell W Y X X of
               None \<Rightarrow> cols ! X = None
             | Some i \<Rightarrow> if Worthy dm Bth i then (\<exists>c. cols ! X = Some c \<and> resolves h c (own i))
                         else cols ! X = None"
    by (simp add: Cols_OK_def)
  have cc: "Col_Cell W Y X X = (if 0 < Y then Some ((Y - 1) * W + X) else None)"
    by (simp add: Col_Cell_def)
  have up: "0 < Y \<and> i = (Y - 1) * W + X" if "Y * W + X = i + W" for i
  proof (cases Y)
    case 0
    with that X show ?thesis by simp
  next
    case (Suc y)
    with that show ?thesis by simp
  qed
  have dn: "(Y - 1) * W + X + W = Y * W + X" if "0 < Y"
    using that by (cases Y) simp_all
  show "\<forall>i. Worthy dm Bth i \<and> Y * W + X = i + W \<longrightarrow> cols ! X = Some (own i)"
  proof (intro allI impI)
    fix i assume i: "Worthy dm Bth i \<and> Y * W + X = i + W"
    with up have "0 < Y" "i = (Y - 1) * W + X" by simp_all
    with old cc i obtain c where c: "cols ! X = Some c" "resolves h c (own i)" by auto
    from root c(1) have "FP (h c) = None" by simp
    from resolves_root[OF c(2) this] c(1) show "cols ! X = Some (own i)" by simp
  qed
  show "\<forall>c. cols ! X = Some c \<longrightarrow>
           (\<exists>m<Y * W + X. Worthy dm Bth m \<and> own m = c \<and> Adjacent W m (Y * W + X))"
  proof (intro allI impI)
    fix c assume c: "cols ! X = Some c"
    with old cc have Y: "0 < Y" and w: "Worthy dm Bth ((Y - 1) * W + X)"
      and res: "resolves h c (own ((Y - 1) * W + X))"
      by (auto split: if_splits)
    from root c have "FP (h c) = None" by simp
    from resolves_root[OF res this] have o: "own ((Y - 1) * W + X) = c" .
    from dn[OF Y] have "Adjacent W ((Y - 1) * W + X) (Y * W + X)" by (simp add: Adjacent_def)
    moreover from X have "0 < W" by simp
    with dn[OF Y] have "(Y - 1) * W + X < Y * W + X" by linarith
    ultimately show "\<exists>m<Y * W + X. Worthy dm Bth m \<and> own m = c \<and> Adjacent W m (Y * W + X)"
      using w o by blast
  qed
  show "cols ! X = None \<longrightarrow> (\<forall>i. Worthy dm Bth i \<longrightarrow> Y * W + X \<noteq> i + W)"
  proof (intro allI impI notI)
    fix i assume n: "cols ! X = None" and w: "Worthy dm Bth i" and e: "Y * W + X = i + W"
    from up[OF e] old cc w n show False by auto
  qed
qed

lemma Reduce_Col_resolves:
  fixes s :: "'a Scan_scheme"
  assumes F: "Forest s" and X: "X < length (ColBlobs s)"
  shows "\<exists>cb. Reduce_Col X s = Inr (s\<lparr>ColBlobs := cb\<rparr>) \<and> length cb = length (ColBlobs s) \<and>
           (\<forall>x. x \<noteq> X \<longrightarrow> cb ! x = ColBlobs s ! x) \<and>
           (case ColBlobs s ! X of
              None \<Rightarrow> cb ! X = None
            | Some c \<Rightarrow> \<exists>r. cb ! X = Some r \<and> resolves (Heap s) c r) \<and>
           (\<forall>c. cb ! X = Some c \<longrightarrow> c \<in> set (Blobs s) \<and> FP (Heap s c) = None)"
proof -
  note P = Forest_parts[OF F]
  show ?thesis
  proof (cases "ColBlobs s ! X")
    case None
    with X show ?thesis
      by (intro exI[of _ "ColBlobs s"]) (simp add: Reduce_Col_def)
  next
    case (Some c)
    with X have "Some c \<in> set (ColBlobs s)" by (metis nth_mem)
    from P(4)[OF this] have cA: "c \<in> set (Blobs s)" .
    show ?thesis
    proof (cases "FP (Heap s c)")
      case None
      then have "resolves (Heap s) c c" by (rule resolves.root)
      with Some X None cA show ?thesis
        by (intro exI[of _ "ColBlobs s"]) (auto simp: Reduce_Col_def)
    next
      case (Some d)
      from Linked_resolves[OF P(2) cA] obtain r where res: "resolves (Heap s) c r" ..
      from resolves_in[OF res cA Linked_closed[OF P(2)]] have rA: "r \<in> set (Blobs s)" .
      from resolves_Reduce_FP[OF res] have red: "Reduce_FP (Heap s) c = Some r" "FP (Heap s r) = None"
        by simp_all
      let ?cb = "(ColBlobs s)[X := Some r]"
      have run: "Reduce_Col X s = Inr (s\<lparr>ColBlobs := ?cb\<rparr>)"
        using X \<open>ColBlobs s ! X = Some c\<close> Some red(1) by (simp add: Reduce_Col_def)
      from run X res rA red(2) \<open>ColBlobs s ! X = Some c\<close> show ?thesis
        by (intro exI[of _ ?cb]) auto
    qed
  qed
qed

subsection \<open>One cell of the scan\<close>

lemma Own_add:
  fixes s' :: "'a Scan_scheme"
  assumes R: "Rooted dm Bth n ht At ownt" and A: "Agree W dm Bth n ownt"
    and M: "Measured W dm Bth n ht At ownt"
    and I: "\<forall>b\<in>At. FP (ht b) = None \<longrightarrow> b = r \<or> Region dm Bth n ownt b \<noteq> {}"
    and C: "Cols_OK W dm Bth Y X ownt ht cols"
    and Cn: "Connected W dm Bth (Suc n) (ownt(n := r))"
    and r: "r \<in> At" "FP (ht r) = None" and w: "Worthy dm Bth n" and X: "X < W"
    and len: "length cols = W" and n: "n = Y * W + X"
    and N: "\<forall>i<n. Worthy dm Bth i \<and> Adjacent W i n \<longrightarrow> ownt i = r"
    and fields: "Heap s' = Add_Position r (int X) (int Y) ht" "set (Blobs s') = At"
      "ColBlobs s' = cols[X := Some r]" "RowBlob s' = Some r"
  shows "BF_Own W dm Bth Y (Suc X) (ownt(n := r)) s'"
proof -
  from X n have xy: "int X = int (n mod W)" "int Y = int (n div W)" by simp_all
  have sn: "Y * W + Suc X = Suc n" using n by simp
  have 1: "Rooted dm Bth (Suc n) (Heap s') (set (Blobs s')) (ownt(n := r))"
    unfolding fields by (rule Rooted_add[OF R r])
  have 2: "Agree W dm Bth (Suc n) (ownt(n := r))" by (rule Agree_add[OF A N])
  have 4: "Measured W dm Bth (Suc n) (Heap s') (set (Blobs s')) (ownt(n := r))"
    unfolding fields by (rule Measured_add[OF M r w xy])
  have 5: "Inhabited dm Bth (Suc n) (Heap s') (set (Blobs s')) (ownt(n := r))"
    unfolding fields by (rule Inhabited_add[OF I w])
  have "\<forall>x. FP (Add_Position r (int X) (int Y) ht x) = FP (ht x)" by (simp add: Add_Position_FP)
  from Cols_add[OF C X r(2) this len] w n
  have 6: "Cols_OK W dm Bth Y (Suc X) (ownt(n := r)) (Heap s') (ColBlobs s')"
    unfolding fields by simp
  have 7: "Row_OK W dm Bth Y (Suc X) (ownt(n := r)) (RowBlob s')"
    unfolding fields using w n by (simp add: Row_OK_def)
  from 1 2 Cn 4 5 6 7 show ?thesis unfolding BF_Own_def sn by simp
qed

lemma Adjacent_before:
  assumes "Adjacent W i n"
  shows "(n = Suc i \<and> n mod W \<noteq> 0) \<or> n = i + W"
  using assms by (simp add: Adjacent_def)

lemma BF_Pixel_own:
  assumes Inv: "BF_Inv W N Y X s" and O: "BF_Own W dm Bth Y X own s" and X: "X < W"
    and dm: "Y * W + X < length dm" and run: "BF_Pixel dm Bth Y X s = Inr s'"
  shows "\<exists>own'. BF_Own W dm Bth Y (Suc X) own' s'"
proof -
  let ?n = "Y * W + X"
  let ?h = "Heap s" and ?A = "set (Blobs s)"
  from Inv have F: "Forest s" and Cn: "Counted W N Y X s" by (simp_all add: BF_Inv_def)
  from Cn have len: "length (ColBlobs s) = W" and MI: "MapI s = ?n" by (simp_all add: Counted_def)
  note P = Forest_parts[OF F]
  from O have R: "Rooted dm Bth ?n ?h ?A own" and A: "Agree W dm Bth ?n own"
    and C: "Connected W dm Bth ?n own" and M: "Measured W dm Bth ?n ?h ?A own"
    and I: "Inhabited dm Bth ?n ?h ?A own" and Co: "Cols_OK W dm Bth Y X own ?h (ColBlobs s)"
    and Ro: "Row_OK W dm Bth Y X own (RowBlob s)"
    by (simp_all add: BF_Own_def)
  from X len have X': "X < length (ColBlobs s)" by simp
  from Reduce_Col_resolves[OF F X'] obtain cb where
    red: "Reduce_Col X s = Inr (s\<lparr>ColBlobs := cb\<rparr>)" and lcb: "length cb = W"
    and oth: "\<forall>x. x \<noteq> X \<longrightarrow> cb ! x = ColBlobs s ! x"
    and atX: "case ColBlobs s ! X of None \<Rightarrow> cb ! X = None
              | Some c \<Rightarrow> \<exists>r. cb ! X = Some r \<and> resolves ?h c r"
    and rt: "\<forall>c. cb ! X = Some c \<longrightarrow> c \<in> ?A \<and> FP (?h c) = None"
    using len by auto
  from Cols_reduce[OF Co oth atX] have Cb: "Cols_OK W dm Bth Y X own ?h cb" .
  from rt have rt': "\<forall>c. cb ! X = Some c \<longrightarrow> FP (?h c) = None" by blast
  note left = Row_left[OF Ro X]
  note up = Col_up[OF Cb X rt']
  have cbA: "\<forall>x<W. \<forall>b. cb ! x = Some b \<longrightarrow> b \<in> ?A"
  proof (intro allI impI)
    fix x b assume x: "x < W" and b: "cb ! x = Some b"
    show "b \<in> ?A"
    proof (cases "x = X")
      case True
      with b rt show ?thesis by simp
    next
      case False
      with oth b have "ColBlobs s ! x = Some b" by simp
      with x len have "Some b \<in> set (ColBlobs s)" by (metis nth_mem)
      then show ?thesis by (rule P(4))
    qed
  qed
  have inb: "MapI s < length dm" using MI dm by simp
  show ?thesis
  proof (cases "Worthy dm Bth ?n")
    case False
    then have nw: "\<not> Bth \<le> dm ! MapI s" by (simp add: Worthy_def MI)
    from run red inb nw
    have s': "s' = s\<lparr>ColBlobs := cb, RowBlob := None, ColBlobs := cb[X := None], MapI := Suc (MapI s)\<rparr>"
      by (simp add: BF_Pixel_def)
    have f: "Heap s' = ?h" "Blobs s' = Blobs s" "ColBlobs s' = cb[X := None]" "RowBlob s' = None"
      by (simp_all add: s')
    have "Row_OK W dm Bth Y (Suc X) own None" using False by (simp add: Row_OK_def)
    with Rooted_skip[OF R False] Agree_skip[OF A False] Connected_skip[OF C False]
      Measured_skip[OF M False] Inhabited_skip[OF I False] Cols_skip[OF Cb X lcb False]
    have "BF_Own W dm Bth Y (Suc X) own s'" unfolding BF_Own_def f by simp
    then show ?thesis by blast
  next
    case True
    then have w: "Bth \<le> dm ! MapI s" by (simp add: Worthy_def MI)
    have Nkeep: "\<forall>i<?n. Worthy dm Bth i \<and> Adjacent W i ?n \<longrightarrow> own i = r"
      if row: "RowBlob s = Some r \<or> RowBlob s = None" and col: "cb ! X = Some r \<or> cb ! X = None"
      for r
    proof (intro allI impI)
      fix i assume "i < ?n" and i: "Worthy dm Bth i \<and> Adjacent W i ?n"
      from Adjacent_before[of W i ?n] i
      consider "?n = Suc i \<and> ?n mod W \<noteq> 0" | "?n = i + W" by blast
      then show "own i = r"
      proof cases
        case 1
        with left(1) i have "RowBlob s = Some (own i)" by blast
        with row show ?thesis by simp
      next
        case 2
        with up(1) i have "cb ! X = Some (own i)" by blast
        with col show ?thesis by simp
      qed
    qed
    have Ikeep: "\<forall>b\<in>?A. FP (?h b) = None \<longrightarrow> b = r \<or> Region dm Bth ?n own b \<noteq> {}" for r
      using I by (simp add: Inhabited_def)
    have near_keep: "\<forall>i<?n. Worthy dm Bth i \<and> (own(?n := r)) i = r \<longrightarrow>
                 (\<exists>m<?n. Worthy dm Bth m \<and> own m = own i \<and> Adjacent W m ?n)"
      if "RowBlob s = Some r \<or> cb ! X = Some r" for r
    proof (intro allI impI)
      fix i assume i: "i < ?n" and "Worthy dm Bth i \<and> (own(?n := r)) i = r"
      with i have oi: "own i = r" by simp
      from that left(2) up(2) obtain m where "m < ?n" "Worthy dm Bth m" "own m = r" "Adjacent W m ?n"
        by blast
      with oi show "\<exists>m<?n. Worthy dm Bth m \<and> own m = own i \<and> Adjacent W m ?n" by auto
    qed
    have far_keep: "\<forall>i<?n. \<forall>j<?n. Worthy dm Bth i \<and> Worthy dm Bth j \<and>
        (own(?n := r)) i = (own(?n := r)) j \<and> (own(?n := r)) i \<noteq> r \<longrightarrow> own i = own j" for r
      by simp
    show ?thesis
    proof (cases "RowBlob s")
      case None
      show ?thesis
      proof (cases "cb ! X")
        case (Some c)
        from rt Some have c: "c \<in> ?A" "FP (?h c) = None" by simp_all
        from run red inb w None Some
        have s': "s' = s\<lparr>ColBlobs := cb, RowBlob := Some c,
                         Heap := Add_Position c (int X) (int Y) ?h,
                         ColBlobs := cb[X := Some c], MapI := Suc (MapI s)\<rparr>"
          by (simp add: BF_Pixel_def Touch_def)
        have f: "Heap s' = Add_Position c (int X) (int Y) ?h" "set (Blobs s') = ?A"
          "ColBlobs s' = cb[X := Some c]" "RowBlob s' = Some c"
          by (simp_all add: s')
        have Cn': "Connected W dm Bth (Suc ?n) (own(?n := c))"
          by (rule Connected_add[OF C True _ near_keep far_keep]) (simp_all add: Some)
        have "BF_Own W dm Bth Y (Suc X) (own(?n := c)) s'"
          by (rule Own_add[OF R A M Ikeep Cb Cn' c True X lcb refl Nkeep f])
             (simp_all add: None Some)
        then show ?thesis by blast
      next
        case N2: None
        from New_Blob_cases[of "int X" "int Y" 0 "s\<lparr>ColBlobs := cb\<rparr>"] run red inb w None N2
        obtain a free mem where
          nb: "New_Blob (int X) (int Y) 0 (s\<lparr>ColBlobs := cb\<rparr>) =
                 Inr (a, s\<lparr>ColBlobs := cb, Heap := (?h)(a :=
                            \<lparr>ID = 0, Xsum = 0, Ysum = 0, Xmin = 0, Ymin = 0, Xmax = 0, Ymax = 0,
                             Blob.Count = 0, Xreg = int X, Yreg = int Y, Expire = - 1, FP = None\<rparr>),
                         FreeBlobs := free, BlobMem := mem\<rparr>)"
          and fm: "FreeBlobs s @ BlobMem s = a # free @ mem"
          by (auto simp: BF_Pixel_def Touch_def)
        let ?nb = "\<lparr>ID = 0, Xsum = 0, Ysum = 0, Xmin = 0, Ymin = 0, Xmax = 0, Ymax = 0,
                   Blob.Count = 0, Xreg = int X, Yreg = int Y, Expire = - 1, FP = None\<rparr>"
        let ?ht = "(?h)(a := ?nb)"
        from P(1) fm have "distinct (Blobs s @ a # free @ mem)" by simp
        then have aA: "a \<notin> ?A" by auto
        from run red inb w None N2 nb
        have f: "Heap s' = Add_Position a (int X) (int Y) ?ht" "set (Blobs s') = insert a ?A"
          "ColBlobs s' = cb[X := Some a]" "RowBlob s' = Some a"
          by (auto simp: BF_Pixel_def Touch_def)
        have R': "Rooted dm Bth ?n ?ht (insert a ?A) own" by (rule Rooted_new[OF R aA])
        have M': "Measured W dm Bth ?n ?ht (insert a ?A) own"
          by (rule Measured_new[OF M R aA]) simp_all
        have I': "\<forall>b\<in>insert a ?A. FP (?ht b) = None \<longrightarrow> b = a \<or> Region dm Bth ?n own b \<noteq> {}"
          using I by (auto simp: Inhabited_def)
        have C': "Cols_OK W dm Bth Y X own ?ht cb" by (rule Cols_new[OF Cb cbA P(2) aA])
        have na: "\<forall>i<?n. Worthy dm Bth i \<longrightarrow> own i \<noteq> a"
          using R aA by (auto simp: Rooted_def)
        have near: "\<forall>i<?n. Worthy dm Bth i \<and> (own(?n := a)) i = a \<longrightarrow>
                 (\<exists>m<?n. Worthy dm Bth m \<and> own m = own i \<and> Adjacent W m ?n)"
          using na by auto
        have Cn': "Connected W dm Bth (Suc ?n) (own(?n := a))"
          by (rule Connected_add[OF C True _ near far_keep]) simp
        have "BF_Own W dm Bth Y (Suc X) (own(?n := a)) s'"
          by (rule Own_add[OF R' A M' I' C' Cn' _ _ True X lcb refl Nkeep f])
             (simp_all add: None N2)
        then show ?thesis by blast
      qed
    next
      case (Some r)
      from P(3)[OF Some] have r: "r \<in> ?A" "FP (?h r) = None" by simp_all
      show ?thesis
      proof (cases "cb ! X")
        case None
        from run red inb w None Some
        have s': "s' = s\<lparr>ColBlobs := cb, Heap := Add_Position r (int X) (int Y) ?h,
                         ColBlobs := cb[X := Some r], MapI := Suc (MapI s)\<rparr>"
          by (simp add: BF_Pixel_def Touch_def)
        have f: "Heap s' = Add_Position r (int X) (int Y) ?h" "set (Blobs s') = ?A"
          "ColBlobs s' = cb[X := Some r]" "RowBlob s' = Some r"
          by (simp_all add: s' Some)
        have Cn': "Connected W dm Bth (Suc ?n) (own(?n := r))"
          by (rule Connected_add[OF C True _ near_keep far_keep]) (simp_all add: Some)
        have "BF_Own W dm Bth Y (Suc X) (own(?n := r)) s'"
          by (rule Own_add[OF R A M Ikeep Cb Cn' r True X lcb refl Nkeep f])
             (simp_all add: None Some)
        then show ?thesis by blast
      next
        case S2: (Some c)
        from rt S2 have c: "c \<in> ?A" "FP (?h c) = None" by simp_all
        from run red inb w S2 Some
        have s': "s' = s\<lparr>ColBlobs := cb, Heap := Merge_Blobs c r (int Y + 1) ?h,
                         Heap := Add_Position r (int X) (int Y) (Merge_Blobs c r (int Y + 1) ?h),
                         ColBlobs := cb[X := Some r], MapI := Suc (MapI s)\<rparr>"
          by (simp add: BF_Pixel_def Touch_def)
        let ?ht = "Merge_Blobs c r (int Y + 1) ?h"
        have f: "Heap s' = Add_Position r (int X) (int Y) ?ht" "set (Blobs s') = ?A"
          "ColBlobs s' = cb[X := Some r]" "RowBlob s' = Some r"
          by (simp_all add: s' Some)
        show ?thesis
        proof (cases "c = r")
          case True
          then have ht: "?ht = ?h" by (simp add: Merge_Blobs_same)
          have Cn': "Connected W dm Bth (Suc ?n) (own(?n := r))"
            by (rule Connected_add[OF C \<open>Worthy dm Bth ?n\<close> _ near_keep far_keep])
               (simp_all add: Some)
          have "BF_Own W dm Bth Y (Suc X) (own(?n := r)) s'"
            by (rule Own_add[OF R A M Ikeep Cb Cn' r \<open>Worthy dm Bth ?n\<close> X lcb refl Nkeep])
               (simp_all add: f Merge_Blobs_same Some S2 True)
          then show ?thesis by blast
        next
          case False
          let ?own = "\<lambda>i. if own i = c then r else own i"
          have R': "Rooted dm Bth ?n ?ht ?A ?own" by (rule Rooted_merge[OF R r False])
          have A': "Agree W dm Bth ?n ?own" by (rule Agree_rename[OF A])
          have M': "Measured W dm Bth ?n ?ht ?A ?own" by (rule Measured_merge[OF M I c r False])
          from Inhabited_merge[OF I False, of "int Y + 1"]
          have I': "\<forall>b\<in>?A. FP (?ht b) = None \<longrightarrow> b = r \<or> Region dm Bth ?n ?own b \<noteq> {}"
            by (simp add: Inhabited_def)
          have C': "Cols_OK W dm Bth Y X ?own ?ht cb" by (rule Cols_merge[OF Cb c(2) r(2) False])
          have rt2: "FP (?ht r) = None" using r(2) False by (simp add: Merge_Blobs_FP)
          have N': "\<forall>i<?n. Worthy dm Bth i \<and> Adjacent W i ?n \<longrightarrow> ?own i = r"
          proof (intro allI impI)
            fix i assume "i < ?n" and i: "Worthy dm Bth i \<and> Adjacent W i ?n"
            from Adjacent_before[of W i ?n] i
            consider "?n = Suc i \<and> ?n mod W \<noteq> 0" | "?n = i + W" by blast
            then show "?own i = r"
            proof cases
              case 1
              with left(1) i have "RowBlob s = Some (own i)" by blast
              with Some show ?thesis by simp
            next
              case 2
              with up(1) i have "cb ! X = Some (own i)" by blast
              with S2 show ?thesis by simp
            qed
          qed
          have near: "\<forall>i<?n. Worthy dm Bth i \<and> (?own(?n := r)) i = r \<longrightarrow>
                 (\<exists>m<?n. Worthy dm Bth m \<and> own m = own i \<and> Adjacent W m ?n)"
          proof (intro allI impI)
            fix i assume i: "i < ?n" and "Worthy dm Bth i \<and> (?own(?n := r)) i = r"
            with i have oi: "own i = c \<or> own i = r" by (auto split: if_splits)
            from left(2) Some obtain m1 where
              m1: "m1 < ?n" "Worthy dm Bth m1" "own m1 = r" "Adjacent W m1 ?n" by blast
            from up(2) S2 obtain m2 where
              m2: "m2 < ?n" "Worthy dm Bth m2" "own m2 = c" "Adjacent W m2 ?n" by blast
            from oi m1 m2 show "\<exists>m<?n. Worthy dm Bth m \<and> own m = own i \<and> Adjacent W m ?n"
              by metis
          qed
          have far: "\<forall>i<?n. \<forall>j<?n. Worthy dm Bth i \<and> Worthy dm Bth j \<and>
              (?own(?n := r)) i = (?own(?n := r)) j \<and> (?own(?n := r)) i \<noteq> r \<longrightarrow> own i = own j"
            by (auto split: if_splits)
          have Cn': "Connected W dm Bth (Suc ?n) (?own(?n := r))"
            by (rule Connected_add[OF C \<open>Worthy dm Bth ?n\<close> _ near far]) simp
          have "BF_Own W dm Bth Y (Suc X) (?own(?n := r)) s'"
            by (rule Own_add[OF R' A' M' I' C' Cn' r(1) rt2 \<open>Worthy dm Bth ?n\<close> X lcb refl N' f])
          then show ?thesis by blast
        qed
      qed
    qed
  qed
qed

subsection \<open>Rows, and the whole scan\<close>

lemma BF_cols_own:
  assumes I: "BF_Inv W N Y 0 s0" and O: "\<exists>own. BF_Own W dm Bth Y 0 own s0"
    and X: "X \<le> W" and dm: "Y * W + X \<le> length dm"
    and run: "For_Each (BF_Pixel dm Bth Y) [0..<X] s0 = Inr s"
  shows "\<exists>own. BF_Own W dm Bth Y X own s"
  using X dm run
proof (induction X arbitrary: s)
  case 0
  with O show ?case by simp
next
  case (Suc X)
  from Suc.prems have le: "X \<le> W" "Y * W + X \<le> length dm" and lt: "X < W" "Y * W + X < length dm"
    by simp_all
  from Suc.prems(3) obtain s1 where s1: "For_Each (BF_Pixel dm Bth Y) [0..<X] s0 = Inr s1"
    and step: "BF_Pixel dm Bth Y X s1 = Inr s"
    by (auto simp: For_Each_append split: sum.splits)
  from Suc.IH[OF le s1] obtain own where own: "BF_Own W dm Bth Y X own s1" ..
  from BF_cols_inv[OF I le, of Bth] s1 have inv: "BF_Inv W N Y X s1" by simp
  from BF_Pixel_own[OF inv own lt step] show ?case .
qed

lemma BF_Own_reap:
  assumes I: "BF_Inv W N Y W t" and O: "BF_Own W dm Bth Y W own t"
  shows "BF_Own W dm Bth (Suc Y) 0 own ((Reap_Row Y t)\<lparr>RowBlob := None\<rparr>)"
proof -
  let ?n = "Y * W + W"
  let ?A = "set (Blobs t)"
  let ?A' = "set (filter (\<lambda>b. Expire (Heap t b) \<noteq> int Y) (Blobs t))"
  from O have R: "Rooted dm Bth ?n (Heap t) ?A own" and A: "Agree W dm Bth ?n own"
    and C: "Connected W dm Bth ?n own" and M: "Measured W dm Bth ?n (Heap t) ?A own"
    and In: "Inhabited dm Bth ?n (Heap t) ?A own" and Co: "Cols_OK W dm Bth Y W own (Heap t) (ColBlobs t)"
    by (simp_all add: BF_Own_def)
  have f: "Heap ((Reap_Row Y t)\<lparr>RowBlob := None\<rparr>) = Heap t"
    "set (Blobs ((Reap_Row Y t)\<lparr>RowBlob := None\<rparr>)) = ?A'"
    "ColBlobs ((Reap_Row Y t)\<lparr>RowBlob := None\<rparr>) = ColBlobs t"
    "RowBlob ((Reap_Row Y t)\<lparr>RowBlob := None\<rparr>) = None"
    by (simp_all add: Reap_Row_eq)
  have sn: "Suc Y * W + 0 = ?n" by simp
  have R': "Rooted dm Bth ?n (Heap t) ?A' own"
    unfolding Rooted_def
  proof (intro allI impI)
    fix i assume "i < ?n" "Worthy dm Bth i"
    with R have o: "own i \<in> ?A" "FP (Heap t (own i)) = None" by (simp_all add: Rooted_def)
    have "Expire (Heap t (own i)) \<noteq> int Y"
      using BF_Inv_reclaimed[OF I o(1)] o(2) by blast
    with o show "own i \<in> ?A' \<and> FP (Heap t (own i)) = None" by simp
  qed
  have M': "Measured W dm Bth ?n (Heap t) ?A' own" using M by (simp add: Measured_def)
  have I': "Inhabited dm Bth ?n (Heap t) ?A' own" using In by (simp add: Inhabited_def)
  have "Row_OK W dm Bth (Suc Y) 0 own None" by (simp add: Row_OK_def)
  with R' A C M' I' Cols_next_row[OF Co] show ?thesis unfolding BF_Own_def f sn by simp
qed

lemma Scan_Init_own: "BF_Own (nat W') dm Bth 0 0 own (Scan_Init W' pool)"
  by (simp add: BF_Own_def Rooted_def Agree_def Connected_def Measured_def Inhabited_def
      Cols_OK_def Col_Cell_def Row_OK_def Scan_Init_def)

lemma BF_Own_row_start:
  "BF_Own W dm Bth Y 0 own s \<Longrightarrow> BF_Own W dm Bth Y 0 own (s\<lparr>RowBlob := None\<rparr>)"
  by (simp add: BF_Own_def Row_OK_def)

lemma BF_rows_own:
  assumes P: "Pool_OK pool" and dm: "Y * nat W' \<le> length dm"
    and run: "BF_Scan dm W' Bth [0..<Y] pool = Inr s"
  shows "\<exists>own. BF_Own (nat W') dm Bth Y 0 own (s\<lparr>RowBlob := None\<rparr>)"
  using dm run
proof (induction Y arbitrary: s)
  case 0
  then have "s = Scan_Init W' pool" by (simp add: BF_Scan_def)
  with BF_Own_row_start[OF Scan_Init_own] show ?case by blast
next
  case (Suc Y)
  let ?W = "nat W'"
  let ?N = "length (FreeBlobs pool) + length (BlobMem pool)"
  from Suc.prems have le: "Y * ?W \<le> length dm" "Y * ?W + ?W \<le> length dm" by simp_all
  from Suc.prems(2) obtain s0 t where s0: "BF_Scan dm W' Bth [0..<Y] pool = Inr s0"
    and t: "For_Each (BF_Pixel dm Bth Y) [0..<?W] (s0\<lparr>RowBlob := None\<rparr>) = Inr t"
    and s: "s = Reap_Row Y t"
    by (auto simp: BF_Scan_def For_Each_append BF_Row_def split: sum.splits)
  from BF_rows_inv[OF P le(1) refl, of Bth] s0 have "BF_Inv ?W ?N Y 0 s0" by simp
  then have inv0: "BF_Inv ?W ?N Y 0 (s0\<lparr>RowBlob := None\<rparr>)" by (rule BF_Inv_row_start)
  from BF_cols_own[OF inv0 Suc.IH[OF le(1) s0] le_refl le(2) t]
  obtain own where own: "BF_Own ?W dm Bth Y ?W own t" ..
  from BF_cols_inv[OF inv0 le_refl le(2), of Bth] t have invt: "BF_Inv ?W ?N Y ?W t" by simp
  from BF_Own_reap[OF invt own] s show ?case by blast
qed

lemma Stats_ID:
  assumes "b'\<lparr>ID := x\<rparr> = b\<lparr>ID := x\<rparr>"
  shows "Stats W C b' = Stats W C b"
proof -
  have "Blob.Count b' = Blob.Count (b'\<lparr>ID := x\<rparr>)" "Xsum b' = Xsum (b'\<lparr>ID := x\<rparr>)"
    "Ysum b' = Ysum (b'\<lparr>ID := x\<rparr>)" "Xmin b' = Xmin (b'\<lparr>ID := x\<rparr>)"
    "Xmax b' = Xmax (b'\<lparr>ID := x\<rparr>)" "Ymin b' = Ymin (b'\<lparr>ID := x\<rparr>)"
    "Ymax b' = Ymax (b'\<lparr>ID := x\<rparr>)" by simp_all
  then have "Blob.Count b' = Blob.Count b" "Xsum b' = Xsum b" "Ysum b' = Ysum b"
    "Xmin b' = Xmin b" "Xmax b' = Xmax b" "Ymin b' = Ymin b" "Ymax b' = Ymax b"
    unfolding assms by simp_all
  then show ?thesis by (simp add: Stats_def)
qed

lemma Blob_Finder_regions:
  assumes P: "Pool_OK pool" and dm: "nat W' * nat H' \<le> length dm"
    and run: "Blob_Finder dm W' H' Bth pool = Inr (bs, pool')"
  shows "\<exists>own. (\<forall>i<nat W' * nat H'. Worthy dm Bth i \<longrightarrow> own i \<in> set bs) \<and>
           Agree (nat W') dm Bth (nat W' * nat H') own \<and>
           Connected (nat W') dm Bth (nat W' * nat H') own \<and>
           (\<forall>b\<in>set bs. Region dm Bth (nat W' * nat H') own b \<noteq> {} \<and>
                        Stats (nat W') (Region dm Bth (nat W' * nat H') own b) (Heap pool' b))"
proof -
  let ?W = "nat W'" and ?H = "nat H'"
  let ?n = "?W * ?H"
  from dm have le: "?H * ?W \<le> length dm" by (simp add: mult.commute)
  from run obtain s where s: "BF_Scan dm W' Bth [0..<?H] pool = Inr s"
    and bs: "bs = filter (\<lambda>b. FP (Heap s b) = None) (Blobs s)"
    and h: "Heap pool' = Number_Blobs bs (Heap s)"
    by (auto simp: Blob_Finder_def Reap_FP_Blobs_filter split: sum.splits)
  from BF_rows_own[OF P le s] obtain own where "BF_Own ?W dm Bth ?H 0 own (s\<lparr>RowBlob := None\<rparr>)" ..
  then have R: "Rooted dm Bth ?n (Heap s) (set (Blobs s)) own" and A: "Agree ?W dm Bth ?n own"
    and C: "Connected ?W dm Bth ?n own" and M: "Measured ?W dm Bth ?n (Heap s) (set (Blobs s)) own"
    and I: "Inhabited dm Bth ?n (Heap s) (set (Blobs s)) own"
    by (simp_all add: BF_Own_def mult.commute)
  have 1: "\<forall>i<?n. Worthy dm Bth i \<longrightarrow> own i \<in> set bs"
    using R by (simp add: Rooted_def bs)
  have 2: "\<forall>b\<in>set bs. Region dm Bth ?n own b \<noteq> {} \<and>
                        Stats ?W (Region dm Bth ?n own b) (Heap pool' b)"
  proof
    fix b assume "b \<in> set bs"
    then have b: "b \<in> set (Blobs s)" "FP (Heap s b) = None" by (simp_all add: bs)
    with M I have "Stats ?W (Region dm Bth ?n own b) (Heap s b)" "Region dm Bth ?n own b \<noteq> {}"
      by (simp_all add: Measured_def Inhabited_def)
    moreover have "(Heap pool' b)\<lparr>ID := 0\<rparr> = (Heap s b)\<lparr>ID := 0\<rparr>"
      by (simp add: h Number_Blobs_def Number_Blobs_from_frame)
    from Stats_ID[OF this]
    have "Stats ?W (Region dm Bth ?n own b) (Heap pool' b) = Stats ?W (Region dm Bth ?n own b) (Heap s b)" .
    ultimately show "Region dm Bth ?n own b \<noteq> {} \<and> Stats ?W (Region dm Bth ?n own b) (Heap pool' b)"
      by simp
  qed
  from 1 A C 2 show ?thesis by blast
qed

text \<open>
  Claim C7. Merging two distinct blobs gives the surviving blob the component-wise union of
  the two bounding boxes (minimum of the minima, maximum of the maxima) and the sums of the
  two \<open>Count\<close>s and of the centre-of-mass sums, and turns the other blob into a stub that
  forwards to it. For the whole of \<open>Blob_Finder\<close>, on a map of at least
  \<open>Width * Height\<close> cells and a pool of distinct blob objects: unless the allocator runs
  out of memory, the blobs returned are distinct, unforwarded and numbered 1, 2, ... in list
  order, and the blob-worthy cells can be assigned to them so that every blob-worthy cell
  belongs to a returned blob, two blob-worthy cells that are horizontal or vertical
  neighbours belong to the same blob (so regions that touch have become one blob and no
  merged-away blob is returned), the cells of one blob are connected through neighbouring
  blob-worthy cells, and every returned blob has at least one cell and records exactly its
  cells: \<open>Count\<close> is their number, \<open>Xsum\<close> and \<open>Ysum\<close> are the sums of their columns and
  rows, and the bounding box is the least and greatest column and row among them.
\<close>

theorem Blob_Finder_merges_touching:
  fixes dm :: "int list" and W' H' Bth :: int and pool :: Blob_Pool
  defines "W \<equiv> nat W'" and "n \<equiv> nat W' * nat H'"
  defines "worthy \<equiv> \<lambda>i. Bth \<le> dm ! i"
  defines "beside \<equiv> \<lambda>i j. (j = Suc i \<and> j mod W \<noteq> 0) \<or> j = i + W"
  defines "links \<equiv> {(i, j). i < n \<and> j < n \<and> worthy i \<and> worthy j \<and> (beside i j \<or> beside j i)}"
  defines "col \<equiv> \<lambda>i. int (i mod W)" and "row \<equiv> \<lambda>i. int (i div W)"
  assumes P: "Pool_OK pool" and dm: "nat W' * nat H' \<le> length dm"
  shows "(\<forall>c r e h. c \<noteq> r \<longrightarrow>
            Xmin (Merge_Blobs c r e h r) = min (Xmin (h c)) (Xmin (h r)) \<and>
            Ymin (Merge_Blobs c r e h r) = min (Ymin (h c)) (Ymin (h r)) \<and>
            Xmax (Merge_Blobs c r e h r) = max (Xmax (h c)) (Xmax (h r)) \<and>
            Ymax (Merge_Blobs c r e h r) = max (Ymax (h c)) (Ymax (h r)) \<and>
            Blob.Count (Merge_Blobs c r e h r) = Blob.Count (h r) + Blob.Count (h c) \<and>
            Xsum (Merge_Blobs c r e h r) = Xsum (h r) + Xsum (h c) \<and>
            Ysum (Merge_Blobs c r e h r) = Ysum (h r) + Ysum (h c) \<and>
            FP (Merge_Blobs c r e h r) = FP (h r) \<and>
            Merge_Blobs c r e h c = (h c)\<lparr>FP := Some r, Expire := e\<rparr> \<and>
            (\<forall>b. b \<noteq> c \<and> b \<noteq> r \<longrightarrow> Merge_Blobs c r e h b = h b))
       \<and> (case Blob_Finder dm W' H' Bth pool of
            Inl e \<Rightarrow> e = AllocFail \<and>
                     length (FreeBlobs pool) + length (BlobMem pool) < nat H' * nat W' + 19
          | Inr (bs, pool') \<Rightarrow>
              distinct bs \<and>
              map (\<lambda>b. ID (Heap pool' b)) bs = map (\<lambda>k. 1 + int k) [0..<length bs] \<and>
              (\<exists>own.
                 (\<forall>i<n. worthy i \<longrightarrow> own i \<in> set bs) \<and>
                 (\<forall>i<n. \<forall>j<n. worthy i \<and> worthy j \<and> beside i j \<longrightarrow> own i = own j) \<and>
                 (\<forall>i<n. \<forall>j<n. worthy i \<and> worthy j \<and> own i = own j \<longrightarrow> (i, j) \<in> links\<^sup>*) \<and>
                 (\<forall>b\<in>set bs.
                    FP (Heap pool' b) = None \<and>
                    (\<exists>i<n. worthy i \<and> own i = b) \<and>
                    Blob.Count (Heap pool' b) = int (card {i. i < n \<and> worthy i \<and> own i = b}) \<and>
                    Xsum (Heap pool' b) = (\<Sum>i\<in>{i. i < n \<and> worthy i \<and> own i = b}. col i) \<and>
                    Ysum (Heap pool' b) = (\<Sum>i\<in>{i. i < n \<and> worthy i \<and> own i = b}. row i) \<and>
                    Xmin (Heap pool' b) = Min (col ` {i. i < n \<and> worthy i \<and> own i = b}) \<and>
                    Xmax (Heap pool' b) = Max (col ` {i. i < n \<and> worthy i \<and> own i = b}) \<and>
                    Ymin (Heap pool' b) = Min (row ` {i. i < n \<and> worthy i \<and> own i = b}) \<and>
                    Ymax (Heap pool' b) = Max (row ` {i. i < n \<and> worthy i \<and> own i = b}))))"
  (is "_ \<and> ?Res")
proof (intro conjI allI impI)
  fix c r :: nat and e and h :: "nat \<Rightarrow> Blob" and b
  assume "b \<noteq> c \<and> b \<noteq> r"
  then show "Merge_Blobs c r e h b = h b" by (simp add: Merge_Blobs_def Let_def)
next
  have wd: "worthy = Worthy dm Bth" by (simp add: worthy_def Worthy_def fun_eq_iff)
  have bd: "beside = Adjacent W" by (simp add: beside_def Adjacent_def fun_eq_iff)
  have ld: "links = Links W dm Bth n" by (simp add: links_def Links_def wd bd)
  have rd: "{i. i < n \<and> worthy i \<and> own i = b} = Region dm Bth n own b" for own b
    by (simp add: Region_def wd)
  note R = Blob_Finder_result[OF P dm, of Bth]
  show ?Res
  proof (cases "Blob_Finder dm W' H' Bth pool")
    case (Inl e)
    with R show ?thesis by simp
  next
    case (Inr p)
    obtain bs pool' where p: "p = (bs, pool')" by (cases p)
    with Inr have run: "Blob_Finder dm W' H' Bth pool = Inr (bs, pool')" by simp
    from R run have d: "distinct bs"
      and ids: "map (\<lambda>b. ID (Heap pool' b)) bs = map (\<lambda>k. 1 + int k) [0..<length bs]"
      and fp: "\<forall>b\<in>set bs. FP (Heap pool' b) = None"
      by (auto split: sum.splits)
    from Blob_Finder_regions[OF P dm run] obtain own where
      o1: "\<forall>i<n. Worthy dm Bth i \<longrightarrow> own i \<in> set bs" and o2: "Agree W dm Bth n own"
      and o3: "Connected W dm Bth n own"
      and o4: "\<forall>b\<in>set bs. Region dm Bth n own b \<noteq> {} \<and> Stats W (Region dm Bth n own b) (Heap pool' b)"
      unfolding W_def n_def by blast
    have 4: "\<forall>b\<in>set bs.
                    FP (Heap pool' b) = None \<and>
                    (\<exists>i<n. worthy i \<and> own i = b) \<and>
                    Blob.Count (Heap pool' b) = int (card {i. i < n \<and> worthy i \<and> own i = b}) \<and>
                    Xsum (Heap pool' b) = (\<Sum>i\<in>{i. i < n \<and> worthy i \<and> own i = b}. col i) \<and>
                    Ysum (Heap pool' b) = (\<Sum>i\<in>{i. i < n \<and> worthy i \<and> own i = b}. row i) \<and>
                    Xmin (Heap pool' b) = Min (col ` {i. i < n \<and> worthy i \<and> own i = b}) \<and>
                    Xmax (Heap pool' b) = Max (col ` {i. i < n \<and> worthy i \<and> own i = b}) \<and>
                    Ymin (Heap pool' b) = Min (row ` {i. i < n \<and> worthy i \<and> own i = b}) \<and>
                    Ymax (Heap pool' b) = Max (row ` {i. i < n \<and> worthy i \<and> own i = b})"
      (is "\<forall>b\<in>set bs. ?S b")
    proof
      fix b assume b: "b \<in> set bs"
      with o4 have ne: "Region dm Bth n own b \<noteq> {}"
        and st: "Stats W (Region dm Bth n own b) (Heap pool' b)" by simp_all
      from ne have ex: "\<exists>i<n. worthy i \<and> own i = b" by (auto simp: Region_def wd)
      from st ne fp b ex show "?S b"
        unfolding rd by (simp add: Stats_def col_def row_def)
    qed
    from o1 have 1: "\<forall>i<n. worthy i \<longrightarrow> own i \<in> set bs" by (simp add: wd)
    from o2 have 2: "\<forall>i<n. \<forall>j<n. worthy i \<and> worthy j \<and> beside i j \<longrightarrow> own i = own j"
      by (simp add: Agree_def wd bd)
    from o3 have 3: "\<forall>i<n. \<forall>j<n. worthy i \<and> worthy j \<and> own i = own j \<longrightarrow> (i, j) \<in> links\<^sup>*"
      by (simp add: Connected_def wd ld)
    from 1 2 3 4 d ids show ?thesis unfolding run by (simp only: sum.case prod.case) blast
  qed
qed (simp_all add: Merge_Blobs_union)

theorem Blob_Finder_merges_touching_witness:
  "map_sum id Blob_View (BF_Prefix [1,0,1, 1,1,1] 3 1 1 2 Pool0)
     = Inr ([2, 1], Some 1, [Some 1, Some 1, Some 2],
            [\<lparr>ID = 0, Xsum = 2, Ysum = 0, Xmin = 2, Ymin = 0, Xmax = 2, Ymax = 0,
              Blob.Count = 1, Xreg = 2, Yreg = 0, Expire = - 1, FP = None\<rparr>,
             \<lparr>ID = 0, Xsum = 1, Ysum = 2, Xmin = 0, Ymin = 0, Xmax = 1, Ymax = 1,
              Blob.Count = 3, Xreg = 0, Yreg = 0, Expire = - 1, FP = None\<rparr>]) \<and>
   map_sum id Blob_View (BF_Prefix [1,0,1, 1,1,1] 3 1 1 3 Pool0)
     = Inr ([2, 1], Some 1, [Some 1, Some 1, Some 1],
            [\<lparr>ID = 0, Xsum = 2, Ysum = 0, Xmin = 2, Ymin = 0, Xmax = 2, Ymax = 0,
              Blob.Count = 1, Xreg = 2, Yreg = 0, Expire = 2, FP = Some 1\<rparr>,
             \<lparr>ID = 0, Xsum = 5, Ysum = 3, Xmin = 0, Ymin = 0, Xmax = 2, Ymax = 1,
              Blob.Count = 5, Xreg = 0, Yreg = 0, Expire = - 1, FP = None\<rparr>]) \<and>
   Found (Blob_Finder [1,0,1, 1,1,1] 3 2 1 Pool0)
     = Inr ([1], [\<lparr>ID = 1, Xsum = 5, Ysum = 3, Xmin = 0, Ymin = 0, Xmax = 2, Ymax = 1,
                   Blob.Count = 5, Xreg = 0, Yreg = 0, Expire = - 1, FP = None\<rparr>]) \<and>
   Found (Blob_Finder [1,0,1,1, 1,1,1,1] 4 2 1 Pool0)
     = Inr ([1], [\<lparr>ID = 1, Xsum = 11, Ysum = 4, Xmin = 0, Ymin = 0, Xmax = 3, Ymax = 1,
                   Blob.Count = 7, Xreg = 0, Yreg = 0, Expire = - 1, FP = None\<rparr>])"
  (is "?A \<and> ?B \<and> ?C \<and> ?D")
proof -
  have p: "Pool_OK Pool0" by (simp add: Pool_OK_def Pool0_def)
  have d: "nat 3 * nat 2 \<le> length [1,0,1, 1,1,1::int]" by simp
  note t = Blob_Finder_merges_touching[OF p d, of 1, THEN conjunct2]
  have a: ?A by code_simp
  have b: ?B by code_simp
  have c: ?C by code_simp
  have e: ?D by code_simp
  from c obtain bs pool' where r: "Blob_Finder [1,0,1, 1,1,1] 3 2 1 Pool0 = Inr (bs, pool')"
    by (cases "Blob_Finder [1,0,1, 1,1,1] 3 2 1 Pool0") (auto simp: Found_def)
  from t have "distinct bs" unfolding r by (simp only: sum.case prod.case)
  with a b c e show ?thesis by simp
qed

subsection \<open>The map variant and the end of every forwarding chain\<close>

lemma Forest_DMap [simp]: "Forest (s\<lparr>DMap := m\<rparr>) = Forest s"
  by (simp add: Forest_def)

lemma Counted_DMap [simp]: "Counted W N Y X (s\<lparr>DMap := m\<rparr>) = Counted W N Y X s"
  by (simp add: Counted_def)

lemma Mapped_step:
  assumes M: "Mapped s" and sub: "set (Blobs s) \<subseteq> set (Blobs s1)"
    and v: "v \<noteq> 0 \<longrightarrow> nat v \<in> set (Blobs s1)"
    and D: "DMap s1 = DMap s" and I: "MapI s1 = MapI s"
  shows "Mapped (s1\<lparr>Heap := h, ColBlobs := cb, MapI := Suc (MapI s1),
                    DMap := (DMap s1)[MapI s1 := v]\<rparr>)"
  unfolding Mapped_def
proof (intro allI impI)
  fix i
  let ?s' = "s1\<lparr>Heap := h, ColBlobs := cb, MapI := Suc (MapI s1), DMap := (DMap s1)[MapI s1 := v]\<rparr>"
  assume i: "i < MapI ?s'" "i < length (DMap ?s')" "DMap ?s' ! i \<noteq> 0"
  show "nat (DMap ?s' ! i) \<in> set (Blobs ?s')"
  proof (cases "i = MapI s")
    case True
    with i v D I show ?thesis by simp
  next
    case False
    with i D I have "i < MapI s" "i < length (DMap s)" "DMap s ! i \<noteq> 0" by simp_all
    with M have "nat (DMap s ! i) \<in> set (Blobs s)" by (simp add: Mapped_def)
    with sub False D I show ?thesis by auto
  qed
qed

lemma Mapped_cols:
  "Mapped (s\<lparr>ColBlobs := cb\<rparr>) = Mapped s"
  by (simp add: Mapped_def)

lemma Touch_Blobs:
  fixes s :: "'a Scan_scheme"
  assumes T: "Touch X Y e s = Inr s1"
  shows "set (Blobs s) \<subseteq> set (Blobs s1)"
proof (cases "RowBlob s")
  case None
  show ?thesis
  proof (cases "ColBlobs s ! X")
    case (Some c)
    with None T have "s1 = s\<lparr>RowBlob := Some c\<rparr>" by (simp add: Touch_def)
    then show ?thesis by simp
  next
    case N2: None
    with None T obtain b s' where n: "New_Blob (int X) (int Y) 0 s = Inr (b, s')"
      and s1: "s1 = s'\<lparr>Blobs := b # Blobs s', RowBlob := Some b\<rparr>"
      by (auto simp: Touch_def split: sum.splits)
    from New_Blob_cases[of "int X" "int Y" 0 s] n have "Blobs s' = Blobs s" by auto
    with s1 show ?thesis by auto
  qed
next
  case (Some r)
  show ?thesis
  proof (cases "ColBlobs s ! X")
    case None
    with Some T have "s1 = s" by (simp add: Touch_def)
    then show ?thesis by simp
  next
    case S2: (Some c)
    with Some T have "s1 = s\<lparr>Heap := Merge_Blobs c r e (Heap s)\<rparr>" by (simp add: Touch_def)
    then show ?thesis by simp
  qed
qed

lemma more_DMap:
  fixes s s1 :: Map_Scan
  assumes "Scan.more s1 = Scan.more s"
  shows "DMap s1 = DMap s"
  using assms by (cases s, cases s1) simp

lemma BFM_Pixel_inv:
  assumes I: "BFM_Inv W N L Y X s" and X: "X < W" and dm: "Y * W + X < L"
  shows "(\<exists>s'. BFM_Pixel Bth Y X s = Inr s' \<and> BFM_Inv W N L Y (Suc X) s')
       \<or> (BFM_Pixel Bth Y X s = Inl AllocFail \<and> N < Y * W + X + FREEBLOBSBLOCKSIZE)"
proof -
  from I have F: "Forest s" and C: "Counted W N Y X s" and L: "length (DMap s) = L"
    and M: "Mapped s"
    by (simp_all add: BFM_Inv_def)
  from C have Cp: "length (ColBlobs s) = W" "MapI s = Y * W + X"
    "length (Blobs s) + length (FreeBlobs s) + length (BlobMem s) = N" "length (Blobs s) \<le> MapI s"
    by (simp_all add: Counted_def)
  from X Cp(1) have X': "X < length (ColBlobs s)" by simp
  from Reduce_Col_ok[OF F X'] obtain cb where
    red: "Reduce_Col X s = Inr (s\<lparr>ColBlobs := cb\<rparr>)" and F2: "Forest (s\<lparr>ColBlobs := cb\<rparr>)"
    and lcb: "length cb = length (ColBlobs s)" and oth: "\<forall>x. x \<noteq> X \<longrightarrow> cb ! x = ColBlobs s ! x"
    and rt: "\<forall>c. cb ! X = Some c \<longrightarrow> c \<in> set (Blobs s) \<and> FP (Heap s c) = None"
    by blast
  let ?s = "s\<lparr>ColBlobs := cb\<rparr>"
  have M2: "Mapped ?s" using M by (simp add: Mapped_cols)
  have inb: "MapI ?s < length (DMap ?s)" using Cp(2) dm L by simp
  show ?thesis
  proof (cases "Bth \<le> DMap s ! MapI s")
    case False
    let ?s' = "?s\<lparr>RowBlob := None, ColBlobs := (ColBlobs ?s)[X := None], MapI := Suc (MapI ?s),
                  DMap := (DMap ?s)[MapI ?s := 0]\<rparr>"
    have run: "BFM_Pixel Bth Y X s = Inr ?s'"
      using red inb False by (simp add: BFM_Pixel_def)
    have "Forest (?s\<lparr>RowBlob := None, ColBlobs := (ColBlobs ?s)[X := None], MapI := Suc (MapI ?s)\<rparr>)"
      by (rule Forest_skip[OF F2])
    then have "Forest ?s'" by simp
    moreover have "Counted W N Y (Suc X) ?s'" using Cp lcb by (simp add: Counted_def)
    moreover have "length (DMap ?s') = L" using L by simp
    moreover have "Mapped ?s'"
    proof -
      have "Mapped ((?s\<lparr>RowBlob := None\<rparr>)\<lparr>Heap := Heap s, ColBlobs := (ColBlobs ?s)[X := None],
                      MapI := Suc (MapI (?s\<lparr>RowBlob := None\<rparr>)),
                      DMap := (DMap (?s\<lparr>RowBlob := None\<rparr>))[MapI (?s\<lparr>RowBlob := None\<rparr>) := 0]\<rparr>)"
        by (rule Mapped_step[OF M]) simp_all
      then show ?thesis by simp
    qed
    ultimately show ?thesis using run by (simp add: BFM_Inv_def)
  next
    case True
    have X2: "X < length (ColBlobs ?s)" using X' lcb by simp
    have R2: "\<forall>c. ColBlobs ?s ! X = Some c \<longrightarrow> FP (Heap ?s c) = None" using rt by simp
    from Touch_ok[OF F2 X2 R2, of Y 0] show ?thesis
    proof (elim disjE exE conjE)
      assume fail: "Touch X Y 0 ?s = Inl AllocFail" "FreeBlobs ?s = []"
        "length (BlobMem ?s) < FREEBLOBSBLOCKSIZE"
      have run: "BFM_Pixel Bth Y X s = Inl AllocFail"
        using red inb True fail(1) by (simp add: BFM_Pixel_def)
      from fail(2,3) Cp have "N < Y * W + X + FREEBLOBSBLOCKSIZE" by simp
      with run show ?thesis by simp
    next
      fix s1 r
      assume ok: "Touch X Y 0 ?s = Inr s1" "RowBlob s1 = Some r" "Forest s1"
        "ColBlobs s1 = ColBlobs ?s" "MapI s1 = MapI ?s"
        "length (Blobs s1) + length (FreeBlobs s1) + length (BlobMem s1)
               = length (Blobs ?s) + length (FreeBlobs ?s) + length (BlobMem ?s)"
        "length (Blobs s1) \<le> Suc (length (Blobs ?s))"
        "Scan.more s1 = Scan.more ?s"
      let ?h = "Add_Position r (int X) (int Y) (Heap s1)"
      let ?cb = "(ColBlobs s1)[X := Some r]"
      let ?s' = "s1\<lparr>Heap := ?h, ColBlobs := ?cb, MapI := Suc (MapI s1),
                    DMap := (DMap s1)[MapI s1 := int r]\<rparr>"
      have "Scan.more s1 = Scan.more s" using ok(8) by simp
      then have D1: "DMap s1 = DMap s" by (rule more_DMap)
      have inb1: "MapI s1 < length (DMap s1)" using inb ok(5) D1 by simp
      have w1: "Bth \<le> DMap s1 ! MapI s1" using True ok(5) D1 by simp
      have run: "BFM_Pixel Bth Y X s = Inr ?s'"
        using red inb True ok(1,2) by (simp add: BFM_Pixel_def)
      have "Forest (s1\<lparr>Heap := ?h, ColBlobs := ?cb, MapI := Suc (MapI s1)\<rparr>)"
        by (rule Forest_tail[OF ok(3,2)])
      then have 1: "Forest ?s'" by simp
      have 2: "Counted W N Y (Suc X) ?s'"
        using Cp lcb ok(4,5,6,7) by (simp add: Counted_def)
      have 3: "length (DMap ?s') = L" using L D1 by simp
      have 4: "Mapped ?s'"
      proof (rule Mapped_step[OF M])
        from Touch_Blobs[OF ok(1)] show "set (Blobs s) \<subseteq> set (Blobs s1)" by simp
        from Forest_parts(3)[OF ok(3,2)] show "int r \<noteq> 0 \<longrightarrow> nat (int r) \<in> set (Blobs s1)"
          by simp
        show "DMap s1 = DMap s" by (rule D1)
        show "MapI s1 = MapI s" using ok(5) by simp
      qed
      from 1 2 3 4 have inv: "BFM_Inv W N L Y (Suc X) ?s'" unfolding BFM_Inv_def by (intro conjI)
      show ?thesis by (intro disjI1 exI[of _ ?s'] conjI run inv)
    qed
  qed
qed

lemma BFM_cols_inv:
  assumes I: "BFM_Inv W N L Y 0 s0" and X: "X \<le> W" and dm: "Y * W + X \<le> L"
  shows "(\<exists>s. For_Each (BFM_Pixel Bth Y) [0..<X] s0 = Inr s \<and> BFM_Inv W N L Y X s)
       \<or> (For_Each (BFM_Pixel Bth Y) [0..<X] s0 = Inl AllocFail \<and> N < Y * W + X + 19)"
  using X dm
proof (induction X)
  case 0
  with I show ?case by simp
next
  case (Suc X)
  then have "(\<exists>s. For_Each (BFM_Pixel Bth Y) [0..<X] s0 = Inr s \<and> BFM_Inv W N L Y X s)
       \<or> (For_Each (BFM_Pixel Bth Y) [0..<X] s0 = Inl AllocFail \<and> N < Y * W + X + 19)"
    by simp
  then show ?case
  proof
    assume "For_Each (BFM_Pixel Bth Y) [0..<X] s0 = Inl AllocFail \<and> N < Y * W + X + 19"
    then show ?thesis by (simp add: For_Each_append)
  next
    assume "\<exists>s. For_Each (BFM_Pixel Bth Y) [0..<X] s0 = Inr s \<and> BFM_Inv W N L Y X s"
    then obtain s where s: "For_Each (BFM_Pixel Bth Y) [0..<X] s0 = Inr s" "BFM_Inv W N L Y X s"
      by blast
    from Suc.prems have "X < W" "Y * W + X < L" by simp_all
    from BFM_Pixel_inv[OF s(2) this, of Bth] show ?thesis
    proof
      assume "\<exists>s'. BFM_Pixel Bth Y X s = Inr s' \<and> BFM_Inv W N L Y (Suc X) s'"
      with s(1) show ?thesis by (auto simp: For_Each_append)
    next
      assume "BFM_Pixel Bth Y X s = Inl AllocFail \<and> N < Y * W + X + FREEBLOBSBLOCKSIZE"
      with s(1) show ?thesis by (simp add: For_Each_append FREEBLOBSBLOCKSIZE_def)
    qed
  qed
qed

lemma BFM_Inv_row_start:
  assumes "BFM_Inv W N L Y 0 s"
  shows "BFM_Inv W N L Y 0 (s\<lparr>RowBlob := None\<rparr>)"
  using assms by (simp add: BFM_Inv_def Forest_def Counted_def Mapped_def)

lemma BFM_Inv_row_end:
  assumes "BFM_Inv W N L Y W s"
  shows "BFM_Inv W N L (Suc Y) 0 s"
  using assms by (simp add: BFM_Inv_def Counted_def)

lemma Map_Init_inv:
  assumes "Pool_OK pool"
  shows "BFM_Inv (nat W') (length (FreeBlobs pool) + length (BlobMem pool)) (length dm) 0 0
           (Map_Init dm W' pool)"
proof -
  have "Linked (Heap pool) {}" by (rule LinkedI) simp_all
  then show ?thesis using assms
    by (simp add: BFM_Inv_def Forest_def Counted_def Mapped_def Map_Init_def Pool_OK_def)
qed

lemma BFM_rows_inv:
  assumes P: "Pool_OK pool" and dm: "Y * nat W' \<le> length dm"
    and N: "N = length (FreeBlobs pool) + length (BlobMem pool)"
  shows "(\<exists>s. BFM_Scan dm W' Bth [0..<Y] pool = Inr s \<and> BFM_Inv (nat W') N (length dm) Y 0 s)
       \<or> (BFM_Scan dm W' Bth [0..<Y] pool = Inl AllocFail \<and> N < Y * nat W' + 19)"
  using dm
proof (induction Y)
  case 0
  from Map_Init_inv[OF P, of W' dm] N show ?case by (simp add: BFM_Scan_def)
next
  case (Suc Y)
  let ?W = "nat W'"
  from Suc.prems have le: "Y * ?W \<le> length dm" "Y * ?W + ?W \<le> length dm" by simp_all
  from Suc.IH[OF le(1)] show ?case
  proof
    assume "BFM_Scan dm W' Bth [0..<Y] pool = Inl AllocFail \<and> N < Y * ?W + 19"
    then show ?thesis by (simp add: BFM_Scan_def For_Each_append)
  next
    assume "\<exists>s. BFM_Scan dm W' Bth [0..<Y] pool = Inr s \<and> BFM_Inv ?W N (length dm) Y 0 s"
    then obtain s where s: "BFM_Scan dm W' Bth [0..<Y] pool = Inr s"
      "BFM_Inv ?W N (length dm) Y 0 s" by blast
    from BFM_cols_inv[OF BFM_Inv_row_start[OF s(2)] le_refl le(2), of Bth] show ?thesis
    proof
      assume "\<exists>t. For_Each (BFM_Pixel Bth Y) [0..<?W] (s\<lparr>RowBlob := None\<rparr>) = Inr t
                \<and> BFM_Inv ?W N (length dm) Y ?W t"
      then obtain t where t: "For_Each (BFM_Pixel Bth Y) [0..<?W] (s\<lparr>RowBlob := None\<rparr>) = Inr t"
        "BFM_Inv ?W N (length dm) Y ?W t" by blast
      from BFM_Inv_row_end[OF t(2)] have "BFM_Inv ?W N (length dm) (Suc Y) 0 t" .
      moreover have "BFM_Scan dm W' Bth [0..<Suc Y] pool = Inr t"
        using s(1) t(1) by (simp add: BFM_Scan_def For_Each_append BFM_Row_def)
      ultimately show ?thesis by simp
    next
      assume "For_Each (BFM_Pixel Bth Y) [0..<?W] (s\<lparr>RowBlob := None\<rparr>) = Inl AllocFail
                \<and> N < Y * ?W + ?W + 19"
      with s(1) show ?thesis by (simp add: BFM_Scan_def For_Each_append BFM_Row_def)
    qed
  qed
qed

lemma BFM_Prefix_inv:
  assumes P: "Pool_OK pool" and X: "X \<le> nat W'" and dm: "Y * nat W' + X \<le> length dm"
    and N: "N = length (FreeBlobs pool) + length (BlobMem pool)"
  shows "(\<exists>s. BFM_Prefix dm W' Bth Y X pool = Inr s \<and> BFM_Inv (nat W') N (length dm) Y X s)
       \<or> (BFM_Prefix dm W' Bth Y X pool = Inl AllocFail \<and> N < Y * nat W' + X + 19)"
proof -
  from dm have le: "Y * nat W' \<le> length dm" "Y * nat W' + X \<le> length dm" by simp_all
  from BFM_rows_inv[OF P le(1) N, of Bth] show ?thesis
  proof
    assume "BFM_Scan dm W' Bth [0..<Y] pool = Inl AllocFail \<and> N < Y * nat W' + 19"
    then show ?thesis by (simp add: BFM_Prefix_def)
  next
    assume "\<exists>s. BFM_Scan dm W' Bth [0..<Y] pool = Inr s \<and> BFM_Inv (nat W') N (length dm) Y 0 s"
    then obtain s where s: "BFM_Scan dm W' Bth [0..<Y] pool = Inr s"
      "BFM_Inv (nat W') N (length dm) Y 0 s" by blast
    from BFM_cols_inv[OF BFM_Inv_row_start[OF s(2)] X le(2), of Bth] s(1)
    show ?thesis by (simp add: BFM_Prefix_def)
  qed
qed

lemma Forest_Chains_End:
  fixes s :: "'a Scan_scheme"
  assumes F: "Forest s"
  shows "Chains_End s"
proof -
  note P = Forest_parts[OF F]
  have 1: "\<forall>b\<in>set (Blobs s).
        (\<forall>c. FP (Heap s b) = Some c \<longrightarrow> c \<in> set (Blobs s) \<and> c \<noteq> b) \<and>
        (\<exists>r\<in>set (Blobs s). Reduce_FP (Heap s) b = Some r \<and> FP (Heap s r) = None)"
  proof (intro ballI conjI allI impI)
    fix b c assume "b \<in> set (Blobs s)" "FP (Heap s b) = Some c"
    from Linked_target[OF P(2) this] show "c \<in> set (Blobs s)" "c \<noteq> b" by simp_all
  next
    fix b assume "b \<in> set (Blobs s)"
    from Linked_Reduce_FP[OF P(2) this]
    show "\<exists>r\<in>set (Blobs s). Reduce_FP (Heap s) b = Some r \<and> FP (Heap s r) = None" .
  qed
  have 2: "\<forall>b. Some b \<in> set (ColBlobs s) \<or> RowBlob s = Some b \<longrightarrow> b \<in> set (Blobs s)"
  proof (intro allI impI)
    fix b assume "Some b \<in> set (ColBlobs s) \<or> RowBlob s = Some b"
    then show "b \<in> set (Blobs s)"
    proof
      assume "Some b \<in> set (ColBlobs s)"
      then show ?thesis by (rule P(4))
    next
      assume "RowBlob s = Some b"
      from P(3)[OF this] show ?thesis by simp
    qed
  qed
  from 1 2 show ?thesis unfolding Chains_End_def by (rule conjI)
qed

lemma Mark_loop:
  assumes L: "Linked h A"
    and ok: "\<forall>i<n. m0 ! i \<noteq> 0 \<longrightarrow> nat (m0 ! i) \<in> A"
    and k: "k \<le> n" and n: "n \<le> length m0"
  shows "\<exists>m. For_Each (Mark_Pixel h) [0..<k] m0 = Inr m \<and> length m = length m0 \<and>
             (\<forall>i. k \<le> i \<longrightarrow> m ! i = m0 ! i)"
  using k
proof (induction k)
  case 0
  show ?case by simp
next
  case (Suc k)
  then obtain m where m: "For_Each (Mark_Pixel h) [0..<k] m0 = Inr m" "length m = length m0"
    "\<forall>i. k \<le> i \<longrightarrow> m ! i = m0 ! i" by auto
  from Suc.prems n m(2) have kl: "k < length m" "k < n" by simp_all
  from m(3) have mk: "m ! k = m0 ! k" by simp
  have "\<exists>m'. Mark_Pixel h k m = Inr m' \<and> length m' = length m \<and> (\<forall>i. Suc k \<le> i \<longrightarrow> m' ! i = m ! i)"
  proof (cases "m ! k = 0")
    case True
    with kl show ?thesis by (simp add: Mark_Pixel_def)
  next
    case False
    with ok kl(2) mk have "nat (m ! k) \<in> A" by simp
    from Linked_Reduce_FP[OF L this] obtain r where "Reduce_FP h (nat (m ! k)) = Some r" by blast
    with False kl show ?thesis by (simp add: Mark_Pixel_def)
  qed
  then obtain m' where m': "Mark_Pixel h k m = Inr m'" "length m' = length m"
    "\<forall>i. Suc k \<le> i \<longrightarrow> m' ! i = m ! i" by blast
  have "For_Each (Mark_Pixel h) [0..<Suc k] m0 = Inr m'"
    using m(1) m'(1) by (simp add: For_Each_append)
  moreover have "\<forall>i. Suc k \<le> i \<longrightarrow> m' ! i = m0 ! i" using m(3) m'(3) by simp
  ultimately show ?case using m'(2) m(2) by simp
qed

lemma Blob_Finder_Map_returns:
  assumes P: "Pool_OK pool" and W: "0 \<le> W'" and dm: "nat W' * nat H' \<le> length dm"
  shows "(\<exists>bs m pool'. Blob_Finder_Map dm W' H' Bth pool = Inr (bs, m, pool'))
       \<or> (Blob_Finder_Map dm W' H' Bth pool = Inl AllocFail \<and>
            length (FreeBlobs pool) + length (BlobMem pool) < nat H' * nat W' + 19)"
proof -
  let ?N = "length (FreeBlobs pool) + length (BlobMem pool)"
  from dm have le: "nat H' * nat W' \<le> length dm" by (simp add: mult.commute)
  from BFM_rows_inv[OF P le refl, of Bth] show ?thesis
  proof
    assume "BFM_Scan dm W' Bth [0..<nat H'] pool = Inl AllocFail \<and> ?N < nat H' * nat W' + 19"
    then show ?thesis by (simp add: Blob_Finder_Map_def)
  next
    assume "\<exists>s. BFM_Scan dm W' Bth [0..<nat H'] pool = Inr s \<and>
                BFM_Inv (nat W') ?N (length dm) (nat H') 0 s"
    then obtain s where s: "BFM_Scan dm W' Bth [0..<nat H'] pool = Inr s"
      and inv: "BFM_Inv (nat W') ?N (length dm) (nat H') 0 s" by blast
    from inv have F: "Forest s" and C: "Counted (nat W') ?N (nat H') 0 s"
      and L: "length (DMap s) = length dm" and M: "Mapped s" by (simp_all add: BFM_Inv_def)
    from C have MI: "MapI s = nat H' * nat W'" by (simp add: Counted_def)
    let ?h = "Number_Blobs (Blobs s) (Heap s)"
    have Lk: "Linked ?h (set (Blobs s))"
      by (rule Linked_frame[OF Forest_parts(2)[OF F]])
         (simp add: Number_Blobs_def Number_Blobs_from_FP)
    have "nat (W' * H') = nat W' * nat H'" using W by (rule nat_mult_distrib)
    then have num: "nat (W' * H') = nat H' * nat W'" by (simp only: mult.commute)
    have ok: "\<forall>i<nat H' * nat W'. DMap s ! i \<noteq> 0 \<longrightarrow> nat (DMap s ! i) \<in> set (Blobs s)"
      using M MI L le by (simp add: Mapped_def)
    from Mark_loop[OF Lk ok le_refl] le L
    obtain m where m: "Mark_Blob_ID_Map ?h (DMap s) (W' * H') = Inr m"
      unfolding Mark_Blob_ID_Map_def num by auto
    show ?thesis using s m
      by (simp add: Blob_Finder_Map_def Let_def split: prod.splits)
  qed
qed

text \<open>
  Claim C10. \<open>Merge_Blobs\<close> called with the same blob for both arguments changes nothing, so
  it never makes a blob forward to itself. In every state of a \<open>Blob_Finder\<close> scan and of a
  \<open>Blob_Finder_Map\<close> scan, taken after any number of rows and cells from a pool of distinct
  blob objects, the forwarding pointer of an active blob leads to a different active blob,
  \<open>Reduce_FP\<close> returns on every active blob, and the blob it returns is active and has no
  forwarding pointer; the column table and the row blob refer to active blobs only, and these
  are the blobs \<open>Reduce_FP\<close> is called on. (Within one cell the forwarding pointers are those
  of the state before or after it.) Neither finder, nor the pass of \<open>Mark_Blob_ID_Map\<close> over
  the finished map, ends in a recursion that does not return: the only failure is the
  allocator running out of memory.
\<close>

theorem Reduce_FP_ends_in_every_scan:
  fixes dm :: "int list" and W' H' Bth :: int and pool :: Blob_Pool and Y X :: nat
  defines "ends \<equiv> \<lambda>h A. \<forall>b\<in>A. (\<forall>c. FP (h b) = Some c \<longrightarrow> c \<in> A \<and> c \<noteq> b) \<and>
                                  (\<exists>r\<in>A. Reduce_FP h b = Some r \<and> FP (h r) = None)"
  defines "kept \<equiv> \<lambda>A cols row. \<forall>b. Some b \<in> set cols \<or> row = Some b \<longrightarrow> b \<in> A"
  assumes P: "Pool_OK pool" and W: "0 \<le> W'" and X: "X \<le> nat W'"
    and YX: "Y * nat W' + X \<le> length dm" and dm: "nat W' * nat H' \<le> length dm"
  shows "(\<forall>b e h. Merge_Blobs b b e h = h)
       \<and> (case BF_Prefix dm W' Bth Y X pool of
            Inl e \<Rightarrow> e = AllocFail \<and>
                     length (FreeBlobs pool) + length (BlobMem pool) < Y * nat W' + X + 19
          | Inr s \<Rightarrow> ends (Heap s) (set (Blobs s)) \<and>
                     kept (set (Blobs s)) (ColBlobs s) (RowBlob s))
       \<and> (case BFM_Prefix dm W' Bth Y X pool of
            Inl e \<Rightarrow> e = AllocFail \<and>
                     length (FreeBlobs pool) + length (BlobMem pool) < Y * nat W' + X + 19
          | Inr s \<Rightarrow> ends (Heap s) (set (Blobs s)) \<and>
                     kept (set (Blobs s)) (ColBlobs s) (RowBlob s))
       \<and> (case Blob_Finder dm W' H' Bth pool of Inl e \<Rightarrow> e = AllocFail | Inr r \<Rightarrow> True)
       \<and> (case Blob_Finder_Map dm W' H' Bth pool of Inl e \<Rightarrow> e = AllocFail | Inr r \<Rightarrow> True)"
  (is "?A \<and> ?B \<and> ?C \<and> ?D \<and> ?E")
proof -
  have ce: "ends (Heap s) (set (Blobs s)) \<and> kept (set (Blobs s)) (ColBlobs s) (RowBlob s)"
    if "Forest s" for s :: "'a Scan_scheme"
    using Forest_Chains_End[OF that] unfolding Chains_End_def ends_def kept_def .
  have a: ?A by (simp add: Merge_Blobs_same)
  have b: ?B
    using BF_Prefix_inv[OF P X YX refl, of Bth]
  proof
    assume "\<exists>s. BF_Prefix dm W' Bth Y X pool = Inr s \<and>
              BF_Inv (nat W') (length (FreeBlobs pool) + length (BlobMem pool)) Y X s"
    then obtain s where s: "BF_Prefix dm W' Bth Y X pool = Inr s" and "Forest s"
      by (auto simp: BF_Inv_def)
    from ce[OF this(2)] show ?thesis unfolding s by simp
  next
    assume "BF_Prefix dm W' Bth Y X pool = Inl AllocFail \<and>
              length (FreeBlobs pool) + length (BlobMem pool) < Y * nat W' + X + 19"
    then show ?thesis by simp
  qed
  have c: ?C
    using BFM_Prefix_inv[OF P X YX refl, of Bth]
  proof
    assume "\<exists>s. BFM_Prefix dm W' Bth Y X pool = Inr s \<and>
              BFM_Inv (nat W') (length (FreeBlobs pool) + length (BlobMem pool)) (length dm) Y X s"
    then obtain s where s: "BFM_Prefix dm W' Bth Y X pool = Inr s" and "Forest s"
      by (auto simp: BFM_Inv_def)
    from ce[OF this(2)] show ?thesis unfolding s by simp
  next
    assume "BFM_Prefix dm W' Bth Y X pool = Inl AllocFail \<and>
              length (FreeBlobs pool) + length (BlobMem pool) < Y * nat W' + X + 19"
    then show ?thesis by simp
  qed
  have d: ?D using Blob_Finder_result[OF P dm, of Bth] by (simp split: sum.splits)
  have e: ?E using Blob_Finder_Map_returns[OF P W dm, of Bth] by auto
  from a b c d e show ?thesis by (intro conjI)
qed

theorem Reduce_FP_ends_in_every_scan_witness:
  "map_sum id Chain_View (BF_Prefix [1,0,1, 1,1,1] 3 1 1 3 Pool0)
     = Inr ([2, 1], [(Some 1, Some 1), (None, Some 1)]) \<and>
   map_sum id Chain_View (BFM_Prefix [1,0,1, 1,1,1] 3 1 1 3 Pool0)
     = Inr ([2, 1], [(Some 1, Some 1), (None, Some 1)]) \<and>
   map_sum id (\<lambda>(bs, m, p). (bs, m)) (Blob_Finder_Map [1,0,1, 1,1,1] 3 2 1 Pool0)
     = Inr ([1], [1, 0, 1, 1, 1, 1])"
  (is "?A \<and> ?B \<and> ?C")
proof -
  have p: "Pool_OK Pool0" by (simp add: Pool_OK_def Pool0_def)
  have w: "(0::int) \<le> 3" and x: "(3::nat) \<le> nat 3"
    and yx: "1 * nat 3 + 3 \<le> length [1,0,1, 1,1,1::int]"
    and d: "nat 3 * nat 2 \<le> length [1,0,1, 1,1,1::int]" by simp_all
  note t = Reduce_FP_ends_in_every_scan[OF p w x yx d, of 1, THEN conjunct2, THEN conjunct1]
  have a: ?A by code_simp
  have b: ?B by code_simp
  have c: ?C by code_simp
  from a obtain s where s: "BF_Prefix [1,0,1, 1,1,1] 3 1 1 3 Pool0 = Inr s"
    by (cases "BF_Prefix [1,0,1, 1,1,1] 3 1 1 3 Pool0") auto
  from t have "\<forall>b\<in>set (Blobs s). \<exists>r\<in>set (Blobs s). Reduce_FP (Heap s) b = Some r \<and> FP (Heap s r) = None"
    unfolding s by (simp only: sum.case) blast
  with a b c show ?thesis by simp
qed

section \<open>Verified properties: horizontal density scan\<close>

lemma bit_Full: "bit (Full w m) n \<longleftrightarrow> w - m \<le> n \<and> n < w - m + m"
  by (auto simp: Full_def bit_simps)

lemma Full_and_1: "m \<le> w \<Longrightarrow> 0 < w \<Longrightarrow> Full w m AND 1 = (if m = w then 1 else 0)"
  by (auto simp: and_one_eq Full_def mod_2_eq_odd even_mask_iff)

lemma Full_shift_in:
  assumes "m < w"
  shows "drop_bit 1 (Full w m) OR push_bit (w - 1) 1 = Full w (Suc m)"
proof (rule bit_eqI)
  fix n
  show "bit (drop_bit 1 (Full w m) OR push_bit (w - 1) 1) n = bit (Full w (Suc m)) n"
    using assms by (auto simp: bit_Full bit_simps)
qed

lemma Full_shift_full:
  assumes "0 < w"
  shows "drop_bit 1 (Full w w) OR push_bit (w - 1) 1 = Full w w"
proof (rule bit_eqI)
  fix n
  show "bit (drop_bit 1 (Full w w) OR push_bit (w - 1) 1) n = bit (Full w w) n"
    using assms by (auto simp: bit_Full bit_simps)
qed

lemma mask_and_1: "0 < j \<Longrightarrow> (mask j :: int) AND 1 = 1"
  by (auto simp: and_one_eq mod_2_eq_odd even_mask_iff)

lemma drop_mask: "drop_bit 1 (mask j :: int) = mask (j - 1)"
  by (rule bit_eqI) (auto simp: bit_simps)

lemma Full_full: "Full w w = mask w"
  by (simp add: Full_def)

lemma Full_0: "Full w 0 = 0"
  by (simp add: Full_def)



lemma smod_nat: "0 < L \<Longrightarrow> int I smod int L = int (I mod L)"
  by (cases "I = 0") (simp_all add: signed_modulo_int_def zmod_int)

lemma upto_snoc: "[1..int (Suc j)] = [1..int j] @ [int (Suc j)]"
  using upto_rec2[of 1 "int (Suc j)"] by simp

lemma Roll_Out_frame:
  assumes "j \<le> h" "h \<le> Suc I" "I < length dm"
  shows "\<exists>S' Wh' dm'. For_Each (Roll_Out (int I) (int h)) [1..int j] (S, Wh, dm) = Inr (S', Wh', dm')
           \<and> length dm' = length dm \<and> (\<forall>i. i + h \<le> I \<longrightarrow> dm' ! i = dm ! i)"
  using assms
proof (induction j)
  case 0
  then show ?case by simp
next
  case (Suc j)
  then obtain S1 Wh1 dm1 where
    r: "For_Each (Roll_Out (int I) (int h)) [1..int j] (S, Wh, dm) = Inr (S1, Wh1, dm1)"
    and l: "length dm1 = length dm" and f: "\<forall>i. i + h \<le> I \<longrightarrow> dm1 ! i = dm ! i"
    by auto
  from Suc.prems have idx: "0 \<le> int I - int h + int (Suc j)" "int I - int h + int (Suc j) < int (length dm1)"
    "nat (int I - int h + int (Suc j)) = I + Suc j - h"
    using l by auto
  show ?case
    unfolding upto_snoc For_Each_append r
    using idx l f Suc.prems
    by (auto simp: Roll_Out_def Store_def Let_def nth_list_update)
qed

lemma Roll_Out_full:
  assumes "j \<le> h" "j \<le> w" "h \<le> Suc I" "I < length dm"
  shows "\<exists>dm'. For_Each (Roll_Out (int I) (int h)) [1..int j] (int w, mask w, dm)
             = Inr (int w - int j, mask (w - j), dm')
           \<and> length dm' = length dm
           \<and> (\<forall>i<length dm. dm' ! i = (if I < i + h \<and> i + h \<le> I + j
                                         then int w - (int i + int h - int I) else dm ! i))"
  using assms
proof (induction j)
  case 0
  then show ?case by simp
next
  case (Suc j)
  then obtain dm1 where
    r: "For_Each (Roll_Out (int I) (int h)) [1..int j] (int w, mask w, dm)
          = Inr (int w - int j, mask (w - j), dm1)"
    and l: "length dm1 = length dm"
    and f: "\<forall>i<length dm. dm1 ! i = (if I < i + h \<and> i + h \<le> I + j
                                         then int w - (int i + int h - int I) else dm ! i)"
    by auto
  from Suc.prems have idx: "0 \<le> int I - int h + int (Suc j)" "int I - int h + int (Suc j) < int (length dm1)"
    "nat (int I - int h + int (Suc j)) = I + Suc j - h"
    using l by auto
  have m: "(mask (w - j) :: int) AND 1 = 1" using Suc.prems by (simp add: mask_and_1)
  have d: "drop_bit 1 (mask (w - j) :: int) = mask (w - Suc j)"
    using drop_mask[of "w - j"] by simp
  have d': "drop_bit (Suc 0) (mask (w - j) :: int) = mask (w - Suc j)"
    using d by simp
  have step: "Roll_Out (int I) (int h) (int (Suc j)) (int w - int j, mask (w - j), dm1)
       = Inr (int w - int (Suc j), mask (w - Suc j), dm1[I + Suc j - h := int w - int (Suc j)])"
  proof -
    have e: "int w - int j - 1 = int w - (1 + int j)" by simp
    show ?thesis using idx by (simp add: Roll_Out_def Store_def Let_def m d' e)
  qed
  have run: "For_Each (Roll_Out (int I) (int h)) [1..int (Suc j)] (int w, mask w, dm)
       = Inr (int w - int (Suc j), mask (w - Suc j), dm1[I + Suc j - h := int w - int (Suc j)])"
    by (simp only: upto_snoc For_Each_append r sum.case step For_Each.simps)
  have "\<forall>i<length dm. dm1[I + Suc j - h := int w - int (Suc j)] ! i
          = (if I < i + h \<and> i + h \<le> I + Suc j
             then int w - (int i + int h - int I) else dm ! i)"
  proof (intro allI impI)
    fix i assume i: "i < length dm"
    show "dm1[I + Suc j - h := int w - int (Suc j)] ! i
          = (if I < i + h \<and> i + h \<le> I + Suc j
             then int w - (int i + int h - int I) else dm ! i)"
    proof (cases "i = I + Suc j - h")
      case True
      with i l Suc.prems show ?thesis by (auto simp: nth_list_update)
    next
      case False
      with i l f Suc.prems show ?thesis by (auto simp: nth_list_update)
    qed
  qed
  with run l show ?case by simp
qed

lemma HID_Pixel_unfold:
  assumes "Width FB = int L" "0 < L" "I < length (Frm FB)"
  shows "HID_Pixel FB (int h) E I (S, Wh, dm) =
     (let S1 = S - (Wh AND 1) + (if NonBlack (Frm FB ! I) then 1 else 0);
          Wh1 = (if NonBlack (Frm FB ! I) then drop_bit 1 Wh OR E else drop_bit 1 Wh)
      in case (if h \<le> I mod L then Store dm (int I - int h) S1 else Inr dm) of
           Inl e \<Rightarrow> Inl e
         | Inr dm1 \<Rightarrow>
             if I mod L = L - 1 then
               (case For_Each (Roll_Out (int I) (int h)) [1..int h] (S1, Wh1, dm1) of
                  Inl e \<Rightarrow> Inl e
                | Inr (S2, Wh2, dm2) \<Rightarrow> Inr (0, 0, dm2))
             else Inr (S1, Wh1, dm1))"
proof -
  have a: "int I smod int L = int (I mod L)" using assms(2) by (rule smod_nat)
  have b: "(int (I mod L) = int L - 1) = (I mod L = L - 1)" using assms(2) by auto
  show ?thesis
    using assms(2,3) unfolding HID_Pixel_def Let_def assms(1) a b
    by (simp cong: sum.case_cong)
qed

lemma Store_ok: "h \<le> I \<Longrightarrow> I < length dm \<Longrightarrow> Store dm (int I - int h) v = Inr (dm[I - h := v])"
  by (auto simp: Store_def nat_diff_distrib')

lemma row_base_le: "h \<le> I mod L \<Longrightarrow> (I div L) * L \<le> I - (h::nat)"
proof -
  assume a: "h \<le> I mod L"
  have "I = (I div L) * L + I mod L" by simp
  with a show ?thesis by linarith
qed

lemma HID_Pixel_frame:
  assumes "Width FB = int L" "0 < L" "h < L" "I < length (Frm FB)" "I < length dm"
  shows "\<exists>S' Wh' dm'. HID_Pixel FB (int h) E I (S, Wh, dm) = Inr (S', Wh', dm')
           \<and> length dm' = length dm \<and> (\<forall>i. i < (I div L) * L \<longrightarrow> dm' ! i = dm ! i)
           \<and> (I mod L = L - 1 \<longrightarrow> S' = 0 \<and> Wh' = 0)"
proof -
  define S1 where "S1 = S - (Wh AND 1) + (if NonBlack (Frm FB ! I) then 1 else 0)"
  define Wh1 where "Wh1 = (if NonBlack (Frm FB ! I) then drop_bit 1 Wh OR E else drop_bit 1 Wh)"
  define dm1 where "dm1 = (if h \<le> I mod L then dm[I - h := S1] else dm)"
  have modle: "I mod L \<le> I" by simp
  have st: "(if h \<le> I mod L then Store dm (int I - int h) S1 else Inr dm) = Inr dm1"
  proof (cases "h \<le> I mod L")
    case True
    with modle have "h \<le> I" by linarith
    with True assms(5) show ?thesis by (simp add: dm1_def Store_ok)
  next
    case False
    then show ?thesis by (simp add: dm1_def)
  qed
  have l1: "length dm1 = length dm" by (simp add: dm1_def)
  have f1: "\<forall>i. i < (I div L) * L \<longrightarrow> dm1 ! i = dm ! i"
    using row_base_le[of h I L] by (auto simp: dm1_def)
  have u: "HID_Pixel FB (int h) E I (S, Wh, dm) =
      (if I mod L = L - 1 then
               (case For_Each (Roll_Out (int I) (int h)) [1..int h] (S1, Wh1, dm1) of
                  Inl e \<Rightarrow> Inl e
                | Inr (S2, Wh2, dm2) \<Rightarrow> Inr (0, 0, dm2))
             else Inr (S1, Wh1, dm1))"
    unfolding HID_Pixel_unfold[OF assms(1,2,4)] Let_def S1_def[symmetric] Wh1_def[symmetric] st
    by simp
  show ?thesis
  proof (cases "I mod L = L - 1")
    case False
    with u l1 f1 show ?thesis by simp
  next
    case True
    with assms(3) modle have hI: "h \<le> Suc I" by linarith
    from Roll_Out_frame[OF le_refl hI, of dm1 S1 Wh1] assms(5) l1
    obtain S2 Wh2 dm2 where
      r: "For_Each (Roll_Out (int I) (int h)) [1..int h] (S1, Wh1, dm1) = Inr (S2, Wh2, dm2)"
      and l2: "length dm2 = length dm1" and f2: "\<forall>i. i + h \<le> I \<longrightarrow> dm2 ! i = dm1 ! i"
      by auto
    have "\<forall>i. i < (I div L) * L \<longrightarrow> dm2 ! i = dm ! i"
    proof (intro allI impI)
      fix i assume i: "i < (I div L) * L"
      have "I = (I div L) * L + I mod L" by simp
      with i True assms(3) have "i + h \<le> I" by linarith
      with f2 f1 i show "dm2 ! i = dm ! i" by simp
    qed
    with u True r l1 l2 show ?thesis by simp
  qed
qed

lemma HID_rows_frame:
  assumes "Width FB = int L" "0 < L" "h < L" "n \<le> length (Frm FB)" "n \<le> length dm"
  shows "\<exists>S' Wh' dm'. For_Each (HID_Pixel FB (int h) E) [m..<n] (S, Wh, dm) = Inr (S', Wh', dm')
           \<and> length dm' = length dm \<and> (\<forall>i. i < (m div L) * L \<longrightarrow> dm' ! i = dm ! i)
           \<and> (n mod L = 0 \<longrightarrow> m < n \<or> (S = 0 \<and> Wh = 0) \<longrightarrow> S' = 0 \<and> Wh' = 0)"
  using assms(4,5)
proof (induction n)
  case 0
  then show ?case by simp
next
  case (Suc n)
  show ?case
  proof (cases "m \<le> n")
    case False
    then show ?thesis by auto
  next
    case True
    from Suc obtain S1 Wh1 dm1 where
      r: "For_Each (HID_Pixel FB (int h) E) [m..<n] (S, Wh, dm) = Inr (S1, Wh1, dm1)"
      and l1: "length dm1 = length dm" and f1: "\<forall>i. i < (m div L) * L \<longrightarrow> dm1 ! i = dm ! i"
      by auto
    from Suc.prems l1 have n: "n < length (Frm FB)" "n < length dm1" by auto
    from HID_Pixel_frame[OF assms(1,2,3) n, of E S1 Wh1]
    obtain S2 Wh2 dm2 where
      p: "HID_Pixel FB (int h) E n (S1, Wh1, dm1) = Inr (S2, Wh2, dm2)"
      and l2: "length dm2 = length dm1" and f2: "\<forall>i. i < (n div L) * L \<longrightarrow> dm2 ! i = dm1 ! i"
      and z: "n mod L = L - 1 \<longrightarrow> S2 = 0 \<and> Wh2 = 0"
      by blast
    have run: "For_Each (HID_Pixel FB (int h) E) [m..<Suc n] (S, Wh, dm) = Inr (S2, Wh2, dm2)"
      using True by (simp add: For_Each_append r p)
    have mono: "(m div L) * L \<le> (n div L) * L"
      using True by (simp add: div_le_mono)
    have fr: "\<forall>i. i < (m div L) * L \<longrightarrow> dm2 ! i = dm ! i"
    proof (intro allI impI)
      fix i assume i: "i < (m div L) * L"
      with mono have "i < (n div L) * L" by linarith
      with f1 f2 i show "dm2 ! i = dm ! i" by simp
    qed
    have "Suc n mod L = 0 \<longrightarrow> n mod L = L - 1"
      using assms(2) by (metis mod_Suc diff_Suc_1 nat.distinct(1))
    with run l1 l2 fr z show ?thesis by auto
  qed
qed

lemma HID_row_prefix:
  assumes W: "Width FB = int L" "0 < L" and w: "0 < w" "w < L" "h < L"
    and E: "E = push_bit (w - 1) 1"
    and base: "base mod L = 0" "base + L \<le> length (Frm FB)" "base + L \<le> length dm"
    and nb: "\<forall>x<L. NonBlack (Frm FB ! (base + x))"
    and k: "k < L"
  shows "\<exists>dm'. For_Each (HID_Pixel FB (int h) E) [base..<base + k] (0, 0, dm)
             = Inr (int (min k w), Full w (min k w), dm')
           \<and> length dm' = length dm
           \<and> (\<forall>i<length dm. dm' ! i = (if base \<le> i \<and> i + h < base + k
                                         then int (min w (i - base + h + 1)) else dm ! i))"
  using k
proof (induction k)
  case 0
  then show ?case by (simp add: Full_0)
next
  case (Suc k)
  let ?m = "min k w"
  from Suc obtain dm1 where
    r: "For_Each (HID_Pixel FB (int h) E) [base..<base + k] (0, 0, dm)
          = Inr (int ?m, Full w ?m, dm1)"
    and l1: "length dm1 = length dm"
    and f1: "\<forall>i<length dm. dm1 ! i = (if base \<le> i \<and> i + h < base + k
                                         then int (min w (i - base + h + 1)) else dm ! i)"
    by auto
  let ?I = "base + k"
  from Suc.prems base have I: "?I < length (Frm FB)" "?I < length dm" by auto
  from Suc.prems nb have NB: "NonBlack (Frm FB ! ?I)" by simp
  from base(1) Suc.prems have md: "?I mod L = k"
    by (simp add: mod_add_left_eq[symmetric])
  from Suc.prems have ne: "k \<noteq> L - 1" by simp
  have S1: "int ?m - (Full w ?m AND 1) + 1 = int (min (Suc k) w)"
    using w(1) by (auto simp: Full_and_1 min_def)
  have W1: "drop_bit 1 (Full w ?m) OR E = Full w (min (Suc k) w)"
  proof (cases "k < w")
    case True
    then show ?thesis using Full_shift_in[of k w] by (simp add: min_def E)
  next
    case False
    then show ?thesis using Full_shift_full[OF w(1)] by (simp add: min_def E)
  qed
  define dm2 where "dm2 = (if h \<le> k then dm1[?I - h := int (min (Suc k) w)] else dm1)"
  have st: "(if h \<le> k then Store dm1 (int ?I - int h) (int (min (Suc k) w)) else Inr dm1) = Inr dm2"
  proof (cases "h \<le> k")
    case True
    then have "h \<le> ?I" by simp
    from Store_ok[OF this, of dm1 "int (min (Suc k) w)"] I l1
    have "Store dm1 (int ?I - int h) (int (min (Suc k) w)) = Inr (dm1[?I - h := int (min (Suc k) w)])"
      by simp
    with True show ?thesis by (simp only: dm2_def if_True)
  next
    case False
    then show ?thesis by (simp only: dm2_def if_False)
  qed
  have p: "HID_Pixel FB (int h) E ?I (int ?m, Full w ?m, dm1)
             = Inr (int (min (Suc k) w), Full w (min (Suc k) w), dm2)"
    unfolding HID_Pixel_unfold[OF W I(1)] Let_def
    using NB ne by (simp only: if_True S1 W1 st sum.case md if_False)
  have run: "For_Each (HID_Pixel FB (int h) E) [base..<base + Suc k] (0, 0, dm)
             = Inr (int (min (Suc k) w), Full w (min (Suc k) w), dm2)"
  proof -
    have sp: "[base..<base + Suc k] = [base..<base + k] @ [base + k]" by simp
    show ?thesis by (simp only: sp For_Each_append r sum.case For_Each.simps p)
  qed
  have l2: "length dm2 = length dm" by (simp add: dm2_def l1)
  have "\<forall>i<length dm. dm2 ! i = (if base \<le> i \<and> i + h < base + Suc k
                                         then int (min w (i - base + h + 1)) else dm ! i)"
  proof (intro allI impI)
    fix i assume i: "i < length dm"
    show "dm2 ! i = (if base \<le> i \<and> i + h < base + Suc k
                                         then int (min w (i - base + h + 1)) else dm ! i)"
    proof (cases "h \<le> k \<and> i = ?I - h")
      case True
      then have a: "base \<le> i" "i + h < base + Suc k" "i - base + h + 1 = Suc k" by auto
      from True i l1 have "dm2 ! i = int (min (Suc k) w)" by (simp add: dm2_def)
      with a show ?thesis by (simp only: min.commute simp_thms if_True)
    next
      case False
      then have "dm2 ! i = dm1 ! i" by (auto simp: dm2_def)
      moreover from False have "(base \<le> i \<and> i + h < base + Suc k) = (base \<le> i \<and> i + h < base + k)"
        by auto
      ultimately show ?thesis using f1 i by simp
    qed
  qed
  with run l2 show ?case by blast
qed

lemma HID_row_full:
  assumes W: "Width FB = int L" "0 < L" and w: "0 < w" "w < L" "w = 2 * h"
    and E: "E = push_bit (w - 1) 1"
    and base: "base mod L = 0" "base + L \<le> length (Frm FB)" "base + L \<le> length dm"
    and nb: "\<forall>x<L. NonBlack (Frm FB ! (base + x))"
  shows "\<exists>dm'. For_Each (HID_Pixel FB (int h) E) [base..<base + L] (0, 0, dm)
             = Inr (0, 0, dm')
           \<and> length dm' = length dm
           \<and> (\<forall>i<base. dm' ! i = dm ! i)
           \<and> (\<forall>p<L. dm' ! (base + p) =
                 min (int w) (min (int p + int h + 1) (int L - 1 - int p + int h)))"
proof -
  from w have h: "h < L" "h \<le> w" by auto
  from W(2) have k: "L - 1 < L" by simp
  from w(2) have mw: "min (L - 1) w = w" by simp
  from HID_row_prefix[OF W w(1,2) h(1) E base nb k, unfolded mw] obtain dm1 where
    r: "For_Each (HID_Pixel FB (int h) E) [base..<base + (L - 1)] (0, 0, dm)
          = Inr (int w, Full w w, dm1)"
    and l1: "length dm1 = length dm"
    and f1: "\<forall>i<length dm. dm1 ! i = (if base \<le> i \<and> i + h < base + (L - 1)
                                         then int (min w (i - base + h + 1)) else dm ! i)"
    by blast
  let ?I = "base + (L - 1)"
  from base W(2) have I: "?I < length (Frm FB)" "?I < length dm" by auto
  from nb[rule_format, OF k] have NB: "NonBlack (Frm FB ! ?I)" .
  have "?I mod L = (base mod L + (L - 1)) mod L" by (rule mod_add_left_eq[symmetric])
  also have "\<dots> = L - 1" using base(1) W(2) by simp
  finally have md: "?I mod L = L - 1" .
  have S1: "int w - (Full w w AND 1) + 1 = int w"
    using w(1) by (simp add: Full_and_1)
  have W1: "drop_bit 1 (Full w w) OR E = mask w"
    using Full_shift_full[OF w(1)] by (simp add: Full_full E)
  define dm2 where "dm2 = dm1[?I - h := int w]"
  have hI: "h \<le> ?I" "h \<le> Suc ?I" using h(1) by auto
  have st: "(if h \<le> L - 1 then Store dm1 (int ?I - int h) (int w) else Inr dm1) = Inr dm2"
  proof -
    from Store_ok[OF hI(1), of dm1 "int w"] I l1
    have "Store dm1 (int ?I - int h) (int w) = Inr (dm1[?I - h := int w])" by simp
    moreover from h(1) have "h \<le> L - 1" by simp
    ultimately show ?thesis by (simp only: dm2_def if_True)
  qed
  have l2: "length dm2 = length dm" by (simp add: dm2_def l1)
  from Roll_Out_full[OF le_refl h(2) hI(2), of dm2] I l2 obtain dm3 where
    d: "For_Each (Roll_Out (int ?I) (int h)) [1..int h] (int w, mask w, dm2)
          = Inr (int w - int h, mask (w - h), dm3)"
    and l3: "length dm3 = length dm2"
    and f3: "\<forall>i<length dm2. dm3 ! i = (if ?I < i + h \<and> i + h \<le> ?I + h
                                         then int w - (int i + int h - int ?I) else dm2 ! i)"
    by auto
  have p: "HID_Pixel FB (int h) E ?I (int w, Full w w, dm1) = Inr (0, 0, dm3)"
    unfolding HID_Pixel_unfold[OF W I(1)] Let_def
    using NB by (simp only: if_True S1 W1 st sum.case md d prod.case simp_thms)
  have sp: "[base..<base + L] = [base..<base + (L - 1)] @ [?I]"
    using W(2) by (metis Suc_diff_1 add_Suc_right upt_Suc_append le_add1)
  have run: "For_Each (HID_Pixel FB (int h) E) [base..<base + L] (0, 0, dm)
               = Inr (0, 0, dm3)"
    by (simp only: sp For_Each_append r sum.case For_Each.simps p)
  have below: "\<forall>i<base. dm3 ! i = dm ! i"
  proof (intro allI impI)
    fix i assume i: "i < base"
    with base have il: "i < length dm" by simp
    from i h(1) have "\<not> ?I < i + h" "i \<noteq> ?I - h" by auto
    with f3 il l2 have "dm3 ! i = dm1 ! i" by (simp add: dm2_def)
    with f1 il i show "dm3 ! i = dm ! i" by simp
  qed
  have vals: "\<forall>p<L. dm3 ! (base + p) =
                 min (int w) (min (int p + int h + 1) (int L - 1 - int p + int h))"
  proof (intro allI impI)
    fix p assume p: "p < L"
    let ?i = "base + p"
    from p base have il: "?i < length dm" by simp
    have il2: "?i < length dm2" using il l2 by simp
    note f3i = f3[rule_format, OF il2]
    have iw: "int w = 2 * int h" using w(3) by simp
    have iI: "int ?I = int base + int L - 1" using W(2) by (simp add: of_nat_diff)
    have wL: "int w < int L" using w(2) by simp
    consider (left) "p + h < L - 1" | (mid) "p + h = L - 1" | (right) "L - 1 < p + h" by linarith
    then show "dm3 ! ?i = min (int w) (min (int p + int h + 1) (int L - 1 - int p + int h))"
    proof cases
      case left
      then have nc: "\<not> (?I < ?i + h \<and> ?i + h \<le> ?I + h)" and ne: "?i \<noteq> ?I - h" by linarith+
      from f3i nc have "dm3 ! ?i = dm2 ! ?i" by (simp only: if_False simp_thms)
      also have "\<dots> = dm1 ! ?i" using ne by (simp add: dm2_def)
      also have "\<dots> = int (min w (p + h + 1))"
      proof -
        from left have c: "base \<le> ?i \<and> ?i + h < base + (L - 1)" by linarith
        from f1[rule_format, OF il] c have "dm1 ! ?i = int (min w (?i - base + h + 1))"
          by (simp only: if_True simp_thms)
        then show ?thesis by simp
      qed
      finally have v: "dm3 ! ?i = int (min w (p + h + 1))" .
      from left have "int p + int h + 1 < int L" by linarith
      with v iw show ?thesis unfolding min_def by (auto simp: of_nat_diff)
    next
      case mid
      then have nc: "\<not> (?I < ?i + h \<and> ?i + h \<le> ?I + h)" and e: "?i = ?I - h" by linarith+
      from f3i nc have "dm3 ! ?i = dm2 ! ?i" by (simp only: if_False simp_thms)
      also have "\<dots> = int w" using e il l1 by (simp add: dm2_def)
      finally have v: "dm3 ! ?i = int w" .
      from mid W(2) have "int p + int h + 1 = int L" by linarith
      with v iw wL show ?thesis unfolding min_def by auto
    next
      case right
      with p have c: "?I < ?i + h \<and> ?i + h \<le> ?I + h" by linarith
      from f3i c have v: "dm3 ! ?i = int w - (int ?i + int h - int ?I)" by (simp only: if_True simp_thms)
      from right W(2) have "int L - 1 < int p + int h" by linarith
      with v iw iI wL show ?thesis unfolding min_def by auto
    qed
  qed
  from run l3 l2 below vals show ?thesis by auto
qed

text \<open>
  Claim C8, as the code has it. For a frame whose row \<open>y\<close> of length \<open>L\<close> is
  entirely non-black and an even \<open>WheelSize\<close> \<open>W\<close> with \<open>2 \<le> W \<le> 31\<close> and
  \<open>W < L\<close>, \<open>Horizontal_Image_Density\<close> writes into position \<open>p\<close> of that row the
  number of row positions in the window \<open>p - W/2 + 1 .. p + W/2\<close>, that is
  \<open>min W (min (p + W/2 + 1) (L - 1 - p + W/2))\<close>: \<open>W\<close> at every interior position
  \<open>W/2 .. L - W/2 - 1\<close>, a ramp that starts at \<open>W/2 + 1\<close> at the left edge and one
  that ends at \<open>W/2\<close> at the right edge, whatever the other rows hold.
\<close>

theorem Horizontal_Image_Density_nonblack_row:
  assumes dims: "Width FB = int L" "Height FB = int H" "length (Frm FB) = L * H" "length dm = L * H"
    and W: "even W" "2 \<le> W" "W \<le> 31" "W < int L"
    and y: "y < H"
    and nb: "\<forall>x<L. NonBlack (Frm FB ! (y * L + x))"
  shows "\<exists>dm'. Horizontal_Image_Density FB dm W = Inr dm' \<and> length dm' = length dm \<and>
           (\<forall>p<L. dm' ! (y * L + p)
                     = min W (min (int p + W div 2 + 1) (int L - 1 - int p + W div 2))) \<and>
           (\<forall>p<L. W div 2 \<le> int p \<and> int p \<le> int L - W div 2 - 1 \<longrightarrow> dm' ! (y * L + p) = W)"
proof -
  define w where "w = nat W"
  define h where "h = w div 2"
  define E :: int where "E = push_bit (w - 1) 1"
  from W have w: "0 < w" "w < L" "w = 2 * h" "W = int w" "W div 2 = int h"
    by (auto simp: w_def h_def nat_less_iff even_nat_iff zdiv_int)
  from w have hL: "h < L" and L: "0 < L" by auto
  have hw: "int w div 2 = int h" using w(3) by simp
  let ?base = "y * L"
  from y have "Suc y \<le> H" by simp
  then have "Suc y * L \<le> H * L" by (rule mult_le_mono1)
  then have top: "?base + L \<le> L * H" by (simp add: mult.commute)
  let ?body = "HID_Pixel FB (int h) E"
  from top have "?base \<le> L * H" by linarith
  then have pre: "?base \<le> length (Frm FB)" "?base \<le> length dm" using dims by simp_all
  from HID_rows_frame[OF dims(1) L hL pre, of E 0 0 0]
  obtain dm1 where
    r1: "For_Each ?body [0..<?base] (0, 0, dm) = Inr (0, 0, dm1)" and l1: "length dm1 = length dm"
    by auto
  have b2: "?base mod L = 0" "?base + L \<le> length (Frm FB)" "?base + L \<le> length dm1"
    using top dims l1 by simp_all
  from HID_row_full[OF dims(1) L w(1,2,3) E_def b2 nb]
  obtain dm2 where
    r2: "For_Each ?body [?base..<?base + L] (0, 0, dm1) = Inr (0, 0, dm2)"
    and l2: "length dm2 = length dm1"
    and v2: "\<forall>p<L. dm2 ! (?base + p) = min (int w) (min (int p + int h + 1) (int L - 1 - int p + int h))"
    by blast
  have post: "L * H \<le> length (Frm FB)" "L * H \<le> length dm2" using dims l1 l2 by auto
  from HID_rows_frame[OF dims(1) L hL post, of E "?base + L" 0 0]
  obtain S3 Wh3 dm3 where
    r3: "For_Each ?body [?base + L..<L * H] (0, 0, dm2) = Inr (S3, Wh3, dm3)"
    and l3: "length dm3 = length dm2"
    and f3: "\<forall>i. i < ((?base + L) div L) * L \<longrightarrow> dm3 ! i = dm2 ! i"
    by blast
  have dv: "((?base + L) div L) * L = ?base + L" using L by simp
  have sp1: "[0..<?base + L] = [0..<?base] @ [?base..<?base + L]"
    by (rule upt_add_eq_append) simp
  from top obtain d where d: "L * H = (?base + L) + d" by (auto simp: le_iff_add)
  have sp2: "[0..<(?base + L) + d] = [0..<?base + L] @ [?base + L..<(?base + L) + d]"
    by (rule upt_add_eq_append) simp
  have sp: "[0..<L * H] = [0..<?base] @ [?base..<?base + L] @ [?base + L..<L * H]"
    unfolding d sp2 sp1 by simp
  have run: "For_Each ?body [0..<L * H] (0, 0, dm) = Inr (S3, Wh3, dm3)"
    by (simp only: sp For_Each_append r1 r2 r3 sum.case)
  have n: "nat (Width FB * Height FB) = L * H"
    using dims by (simp add: nat_mult_distrib)
  have shift: "\<not> (W - 1 < 0 \<or> 31 \<le> W - 1)" using W by simp
  have ar1: "drop_bit 1 W = int h" by (simp add: drop_bit_eq_div w(5))
  have "nat (W - 1) = w - 1" using W(2) by (simp add: w_def nat_diff_distrib)
  then have ar2: "push_bit (nat (W - 1)) (1::int) = E" by (simp only: E_def)
  note ar = ar1 ar2
  have res: "Horizontal_Image_Density FB dm W = Inr dm3"
    unfolding Horizontal_Image_Density_def
    by (simp only: shift if_False ar n run sum.case prod.case)
  have vals: "\<forall>p<L. dm3 ! (?base + p)
                     = min W (min (int p + W div 2 + 1) (int L - 1 - int p + W div 2))"
  proof (intro allI impI)
    fix p assume p: "p < L"
    then have "?base + p < ((?base + L) div L) * L" by (simp only: dv nat_add_left_cancel_less)
    with f3 have "dm3 ! (?base + p) = dm2 ! (?base + p)" by blast
    with v2 p show "dm3 ! (?base + p)
                     = min W (min (int p + W div 2 + 1) (int L - 1 - int p + W div 2))"
      using hw by (simp only: w(4))
  qed
  have inner: "\<forall>p<L. W div 2 \<le> int p \<and> int p \<le> int L - W div 2 - 1 \<longrightarrow> dm3 ! (?base + p) = W"
  proof (intro allI impI)
    fix p assume "p < L" and "W div 2 \<le> int p \<and> int p \<le> int L - W div 2 - 1"
    with vals show "dm3 ! (?base + p) = W" using w(3,4) hw by (auto simp: min_def)
  qed
  from res l1 l2 l3 vals inner show ?thesis by simp
qed

text \<open>
  The edge positions do not ramp from 1: an all non-black row of length 6 with
  \<open>WheelSize = 4\<close> gives \<open>3, 4, 4, 4, 3, 2\<close>.
\<close>

theorem Horizontal_Image_Density_ramp_counterexample:
  "NonBlack White
   \<and> Horizontal_Image_Density \<lparr>Frm = replicate 6 White, Height = 1, Width = 6\<rparr> (replicate 6 0) 4
       = Inr [3, 4, 4, 4, 3, 2]"
  by code_simp

theorem Horizontal_Image_Density_nonblack_row_witness:
  "Horizontal_Image_Density \<lparr>Frm = replicate 5 Black @ replicate 5 White, Height = 2, Width = 5\<rparr>
      (replicate 10 7) 4 = Inr [0, 0, 0, 0, 0, 3, 4, 4, 3, 2]"
  (is "?run = Inr ?r")
proof -
  let ?FB = "\<lparr>Frm = replicate 5 Black @ replicate 5 White, Height = 2, Width = 5\<rparr>"
  have dims: "Width ?FB = int 5" "Height ?FB = int 2" "length (Frm ?FB) = 5 * 2"
    "length (replicate 10 (7::int)) = 5 * 2" by simp_all
  have W: "even (4::int)" "(2::int) \<le> 4" "(4::int) \<le> 31" "(4::int) < int 5" by simp_all
  have nb: "\<forall>x<5. NonBlack (Frm ?FB ! (1 * 5 + x))"
    by (simp add: nth_append NonBlack_def White_def)
  from Horizontal_Image_Density_nonblack_row[OF dims W _ nb]
  obtain dm' where "?run = Inr dm'" by auto
  moreover have "?run = Inr ?r" by code_simp
  ultimately show ?thesis by simp
qed

end
